(* ===== verification/Xv6_Prelude.thy ===== *)
theory Xv6_Prelude
  imports Main "HOL-Library.Word"
begin

unbundle bit_operations_syntax

text \<open>
  Shared vocabulary of the development: the machine integers of \<^verbatim>\<open>kernel/types.h\<close>, the
  outcome of kernel code that may call \<^verbatim>\<open>panic()\<close>, the size and address-space constants of
  \<^verbatim>\<open>kernel/param.h\<close>, \<^verbatim>\<open>kernel/riscv.h\<close> and \<^verbatim>\<open>kernel/memlayout.h\<close>, and the word and list
  lemmas that the component theories use.
\<close>

section \<open>Machine integers\<close>

text \<open>
  C's \<^verbatim>\<open>int\<close> and \<^verbatim>\<open>uint\<close> share one representation (two's complement, 32 bits); signed
  comparisons are written with \<open>sint\<close>.
\<close>

type_synonym u8 = "8 word"
type_synonym u16 = "16 word"
type_synonym u32 = "32 word"
type_synonym c_int = "32 word"
type_synonym u64 = "64 word"

section \<open>Outcomes: a value, a kernel panic, or no return\<close>

text \<open>
  \<^verbatim>\<open>panic(s)\<close> prints its message and never returns: it is the outcome \<open>Panic s\<close>. A recursion
  that is cut off by its bound is \<open>Stuck\<close>; it stands for code that does not return. Both
  propagate through every continuation.
\<close>

datatype 'a res = Ok 'a | Panic string | Stuck

definition rbind :: "'a res \<Rightarrow> ('a \<Rightarrow> 'b res) \<Rightarrow> 'b res" where
  "rbind m f = (case m of Ok x \<Rightarrow> f x | Panic e \<Rightarrow> Panic e | Stuck \<Rightarrow> Stuck)"

lemma rbind_Ok [simp]: "rbind (Ok x) f = f x"
  by (simp add: rbind_def)

lemma rbind_Panic [simp]: "rbind (Panic e) f = Panic e"
  by (simp add: rbind_def)

lemma rbind_Stuck [simp]: "rbind Stuck f = Stuck"
  by (simp add: rbind_def)

lemma rbind_assoc: "rbind (rbind m f) g = rbind m (\<lambda>x. rbind (f x) g)"
  by (cases m) simp_all

lemma rbind_eq_Ok: "rbind m f = Ok y \<longleftrightarrow> (\<exists>x. m = Ok x \<and> f x = Ok y)"
  by (cases m) simp_all

lemma rbind_eq_Panic:
  "rbind m f = Panic e \<longleftrightarrow> m = Panic e \<or> (\<exists>x. m = Ok x \<and> f x = Panic e)"
  by (cases m) simp_all

lemma rbind_cong [fundef_cong]:
  assumes "m = m'" and "\<And>x. m' = Ok x \<Longrightarrow> f x = g x"
  shows "rbind m f = rbind m' g"
  using assms by (cases m') simp_all

section \<open>Bits of small words\<close>

lemma bit_unat_less:
  assumes "unat x < 2 ^ k" and "bit (x :: 'a::len word) n"
  shows "n < k"
proof (rule ccontr)
  assume "\<not> n < k"
  then have "unat x < 2 ^ n"
    using assms(1) by (meson less_le_trans not_less one_le_numeral power_increasing)
  then have "drop_bit n (unat x) = 0"
    by (simp add: drop_bit_eq_div)
  moreover have "bit (unat x) n"
    using assms(2) by (simp add: bit_unsigned_iff bit_imp_le_length)
  ultimately show False
    by (metis bit_iff_odd_drop_bit even_zero)
qed

lemma sint_small:
  assumes "unat (x :: c_int) < 2 ^ 31"
  shows "sint x = int (unat x)"
proof -
  have "\<not> bit x 31"
    using bit_unat_less [OF assms, of 31] by blast
  then have "\<not> bit (uint x) 31"
    by (simp add: bit_unsigned_iff)
  then have "sint x = take_bit 31 (uint x)"
    by (simp add: sint_uint signed_take_bit_eq_if_positive)
  also have "\<dots> = take_bit 31 (int (unat x))"
    by simp
  also have "\<dots> = int (take_bit 31 (unat x))"
    by (simp add: of_nat_take_bit)
  finally show ?thesis
    using assms by (simp add: take_bit_nat_eq_self)
qed

lemma scast_ucast_small:
  assumes "unat (x :: u64) < 2 ^ 31"
  shows "scast (ucast x :: c_int) = x"
  by (rule bit_word_eqI) (auto simp: bit_simps min_def dest: bit_unat_less [OF assms])

section \<open>Constants\<close>

definition NPROC :: nat where "NPROC = 64"
definition NOFILE :: nat where "NOFILE = 16"
definition PGSIZE :: u64 where "PGSIZE = 4096"
definition KERNBASE :: u64 where "KERNBASE = 0x80000000"
definition PHYSTOP :: u64 where "PHYSTOP = KERNBASE + 128 * 1024 * 1024"
definition MAXVA :: u64 where "MAXVA = push_bit (9 + 9 + 9 + 12 - 1) 1"
definition TRAMPOLINE :: u64 where "TRAMPOLINE = MAXVA - PGSIZE"
definition TRAPFRAME :: u64 where "TRAPFRAME = TRAMPOLINE - PGSIZE"

definition KSTACK :: "u64 \<Rightarrow> u64" where
  "KSTACK p = TRAMPOLINE - (p + 1) * 2 * PGSIZE"

lemma PGSIZE_simp [simp]: "PGSIZE = 4096"
  by (simp add: PGSIZE_def)

lemma PHYSTOP_simp [simp]: "PHYSTOP = 0x88000000"
  by (simp add: PHYSTOP_def KERNBASE_def)

lemma MAXVA_simp [simp]: "MAXVA = 0x4000000000"
  by (simp add: MAXVA_def)

lemma TRAMPOLINE_simp [simp]: "TRAMPOLINE = 0x3FFFFFF000"
  by (simp add: TRAMPOLINE_def)

lemma TRAPFRAME_simp [simp]: "TRAPFRAME = 0x3FFFFFE000"
  by (simp add: TRAPFRAME_def)

section \<open>Rounding to pages\<close>

definition PGROUNDUP :: "u64 \<Rightarrow> u64" where
  "PGROUNDUP sz = (sz + PGSIZE - 1) AND NOT (PGSIZE - 1)"

definition PGROUNDDOWN :: "u64 \<Rightarrow> u64" where
  "PGROUNDDOWN a = a AND NOT (PGSIZE - 1)"

lemma clear_low_bits: "a AND NOT (mask n) = push_bit n (drop_bit n (a :: u64))"
  by (intro bit_word_eqI) (auto simp: bit_simps)

lemma and_page_mask: "(a :: u64) AND - 4096 = push_bit 12 (drop_bit 12 a)"
proof -
  have "NOT (mask 12 :: u64) = - 4096"
    by (simp add: mask_eq_exp_minus_1)
  then show ?thesis
    using clear_low_bits [of a 12] by simp
qed

lemma unat_clear_low:
  "unat (push_bit n (drop_bit n (a :: u64))) = unat a div 2 ^ n * 2 ^ n"
proof -
  have d: "unat (drop_bit n a) = unat a div 2 ^ n"
    by (simp only: unat_drop_bit_eq) (simp only: drop_bit_eq_div)
  have "unat a div 2 ^ n * 2 ^ n < 2 ^ 64"
    using unsigned_less [of a, where ?'a = nat]
    by (intro le_less_trans [OF div_times_less_eq_dividend]) simp
  moreover have "push_bit n (drop_bit n a) = of_nat (unat a div 2 ^ n * 2 ^ n)"
    by (simp only: push_bit_eq_mult of_nat_mult of_nat_power of_nat_numeral d [symmetric]) simp
  ultimately show ?thesis
    by (simp only: unat_of_nat) simp
qed

lemma unat_PGROUNDDOWN: "unat (PGROUNDDOWN a) = unat a div 4096 * 4096"
  by (simp add: PGROUNDDOWN_def and_page_mask unat_clear_low)

lemma unat_PGROUNDUP:
  assumes "unat a + 4095 < 2 ^ 64"
  shows "unat (PGROUNDUP a) = (unat a + 4095) div 4096 * 4096"
proof -
  have "unat (a + 4095) = unat a + 4095"
    using assms by (simp add: unat_word_ariths)
  moreover have "a + PGSIZE - 1 = a + 4095"
    by simp
  ultimately show ?thesis
    by (simp only: PGROUNDUP_def) (simp add: and_page_mask unat_clear_low)
qed

definition pg_aligned :: "u64 \<Rightarrow> bool" where
  "pg_aligned a \<longleftrightarrow> a mod PGSIZE = 0"

lemma pg_aligned_unat: "pg_aligned a \<longleftrightarrow> unat a mod 4096 = 0"
proof -
  have "unat (a mod 4096) = unat a mod 4096"
    by (simp add: unat_mod)
  then show ?thesis
    unfolding pg_aligned_def PGSIZE_simp by (metis unat_eq_zero)
qed

lemma pg_alignedE:
  assumes "pg_aligned a"
  obtains k where "unat a = 4096 * k"
  using assms unfolding pg_aligned_unat by (metis mod_0_imp_dvd dvdE)

lemma pg_aligned_PGROUNDDOWN [simp]: "pg_aligned (PGROUNDDOWN a)"
  by (simp add: pg_aligned_unat unat_PGROUNDDOWN)

lemma PGROUNDUP_PGROUNDDOWN: "PGROUNDUP a = PGROUNDDOWN (a + 4095)"
  by (simp add: PGROUNDUP_def PGROUNDDOWN_def add.commute)

lemma pg_aligned_PGROUNDUP [simp]: "pg_aligned (PGROUNDUP a)"
  by (simp add: PGROUNDUP_PGROUNDDOWN)

end
