(* ===== verification/Xv6_Mem.thy ===== *)
theory Xv6_Mem
  imports Xv6_Prelude
begin

text \<open>
  Byte-addressed memory, little-endian loads and stores of machine words, and the memory and
  string routines of \<^verbatim>\<open>kernel/string.c\<close>. A pointer is the natural number of its address; C
  strings are NUL-terminated runs of bytes in memory, described by \<open>cstr\<close>. Routines that scan
  for a terminator which need not exist are partial functions (\<open>None\<close>: the scan never ends).
\<close>

section \<open>Memory\<close>

type_synonym mem = "nat \<Rightarrow> u8"

fun load_le :: "mem \<Rightarrow> nat \<Rightarrow> nat \<Rightarrow> 'a::len word" where
  "load_le m a 0 = 0"
| "load_le m a (Suc k) = push_bit 8 (load_le m (Suc a) k) OR ucast (m a)"

definition load64 :: "mem \<Rightarrow> nat \<Rightarrow> u64" where
  "load64 m a = load_le m a 8"

definition store64 :: "mem \<Rightarrow> nat \<Rightarrow> u64 \<Rightarrow> mem" where
  "store64 m a v = (\<lambda>x. if a \<le> x \<and> x < a + 8 then ucast (drop_bit (8 * (x - a)) v) else m x)"

lemma bit_load_le:
  "bit (load_le m a k :: 'a::len word) n \<longleftrightarrow>
     n < LENGTH('a) \<and> n < 8 * k \<and> bit (m (a + n div 8)) (n mod 8)"
proof (induction k arbitrary: a n)
  case 0
  then show ?case by simp
next
  case (Suc k)
  show ?case
  proof (cases "n < 8")
    case True
    then show ?thesis
      using Suc.IH by (auto simp: bit_simps)
  next
    case False
    then obtain j where j: "n = 8 + j"
      by (metis le_add_diff_inverse not_less)
    have "\<not> bit (m a) n"
      using False by (auto dest: bit_imp_le_length)
    moreover have "(8 + j) div 8 = Suc (j div 8)"
      by simp
    ultimately show ?thesis
      using Suc.IH [of "Suc a" j] j by (auto simp: bit_simps)
  qed
qed

lemma bit_load64: "bit (load64 m a) n \<longleftrightarrow> n < 64 \<and> bit (m (a + n div 8)) (n mod 8)"
  by (auto simp: load64_def bit_load_le)

lemma load64_cong: "(\<And>i. i < 8 \<Longrightarrow> m (a + i) = m' (a + i)) \<Longrightarrow> load64 m a = load64 m' a"
  by (rule bit_word_eqI) (auto simp: bit_load64)

lemma load64_store64_same [simp]: "load64 (store64 m a v) a = v"
proof (rule bit_word_eqI)
  fix n
  assume "n < LENGTH(64)"
  then have "n div 8 < 8" by auto
  then show "bit (load64 (store64 m a v) a) n \<longleftrightarrow> bit v n"
    using \<open>n < LENGTH(64)\<close> by (simp add: bit_load64 store64_def bit_simps)
qed

lemma store64_outside: "x < a \<or> a + 8 \<le> x \<Longrightarrow> store64 m a v x = m x"
  by (auto simp: store64_def)

lemma load64_store64_other: "b + 8 \<le> a \<or> a + 8 \<le> b \<Longrightarrow> load64 (store64 m a v) b = load64 m b"
  by (rule load64_cong) (auto simp: store64_outside)

text \<open>Words of \<open>k\<close> bytes, for the 16-bit and 32-bit fields of the disk formats.\<close>

definition store_le :: "mem \<Rightarrow> nat \<Rightarrow> nat \<Rightarrow> 'a::len word \<Rightarrow> mem" where
  "store_le m a k v = (\<lambda>x. if a \<le> x \<and> x < a + k then ucast (drop_bit (8 * (x - a)) v) else m x)"

lemma load_le_cong:
  "(\<And>i. i < k \<Longrightarrow> m (a + i) = m' (a + i)) \<Longrightarrow> (load_le m a k :: 'a::len word) = load_le m' a k"
  by (rule bit_word_eqI) (auto simp: bit_load_le)

lemma load_le_store_le_same:
  assumes "LENGTH('a::len) = 8 * k"
  shows "load_le (store_le m a k v) a k = (v :: 'a word)"
proof (rule bit_word_eqI)
  fix n
  assume n: "n < LENGTH('a)"
  then have "n div 8 < k"
    using assms by (simp add: less_mult_imp_div_less mult.commute)
  then show "bit (load_le (store_le m a k v) a k :: 'a word) n \<longleftrightarrow> bit v n"
    using n assms by (simp add: bit_load_le store_le_def bit_simps)
qed

lemma load_le_store_le_other:
  "b + j \<le> a \<or> a + k \<le> b \<Longrightarrow> (load_le (store_le m a k v) b j :: 'b::len word) = load_le m b j"
  by (rule load_le_cong) (auto simp: store_le_def)

section \<open>memset, memcmp, memmove\<close>

fun memset_from :: "mem \<Rightarrow> nat \<Rightarrow> u8 \<Rightarrow> nat \<Rightarrow> mem" where
  "memset_from m d c 0 = m"
| "memset_from m d c (Suc k) = memset_from (m(d := c)) (Suc d) c k"

definition memset :: "mem \<Rightarrow> nat \<Rightarrow> c_int \<Rightarrow> u32 \<Rightarrow> mem" where
  "memset m dst c n = memset_from m dst (ucast c) (unat n)"

fun memcmp_from :: "mem \<Rightarrow> nat \<Rightarrow> nat \<Rightarrow> nat \<Rightarrow> c_int" where
  "memcmp_from m s1 s2 0 = 0"
| "memcmp_from m s1 s2 (Suc k) =
     (if m s1 \<noteq> m s2 then ucast (m s1) - ucast (m s2)
      else memcmp_from m (Suc s1) (Suc s2) k)"

definition memcmp :: "mem \<Rightarrow> nat \<Rightarrow> nat \<Rightarrow> u32 \<Rightarrow> c_int" where
  "memcmp m v1 v2 n = memcmp_from m v1 v2 (unat n)"

fun copy_fwd :: "mem \<Rightarrow> nat \<Rightarrow> nat \<Rightarrow> nat \<Rightarrow> mem" where
  "copy_fwd m d s 0 = m"
| "copy_fwd m d s (Suc k) = copy_fwd (m(d := m s)) (Suc d) (Suc s) k"

fun copy_bwd :: "mem \<Rightarrow> nat \<Rightarrow> nat \<Rightarrow> nat \<Rightarrow> mem" where
  "copy_bwd m d s 0 = m"
| "copy_bwd m d s (Suc k) = copy_bwd (m(d - 1 := m (s - 1))) (d - 1) (s - 1) k"

definition memmove :: "mem \<Rightarrow> nat \<Rightarrow> nat \<Rightarrow> u32 \<Rightarrow> mem" where
  "memmove m dst src n =
     (if n = 0 then m
      else if src < dst \<and> src + unat n > dst
      then copy_bwd m (dst + unat n) (src + unat n) (unat n)
      else copy_fwd m dst src (unat n))"

definition memcpy :: "mem \<Rightarrow> nat \<Rightarrow> nat \<Rightarrow> u32 \<Rightarrow> mem" where
  "memcpy m dst src n = memmove m dst src n"

lemma memset_from_eq:
  "memset_from m d c k = (\<lambda>x. if d \<le> x \<and> x < d + k then c else m x)"
  by (induction k arbitrary: m d) (auto simp: fun_eq_iff)

lemma memset_eq:
  "memset m d c n = (\<lambda>x. if d \<le> x \<and> x < d + unat n then ucast c else m x)"
  by (simp add: memset_def memset_from_eq)

lemma copy_fwd_eq:
  "d \<le> s \<or> s + k \<le> d \<Longrightarrow>
   copy_fwd m d s k = (\<lambda>x. if d \<le> x \<and> x < d + k then m (s + (x - d)) else m x)"
proof (induction k arbitrary: m d s)
  case 0
  then show ?case by (auto simp: fun_eq_iff)
next
  case (Suc k)
  then have IH: "copy_fwd (m(d := m s)) (Suc d) (Suc s) k =
      (\<lambda>x. if Suc d \<le> x \<and> x < Suc d + k then (m(d := m s)) (Suc s + (x - Suc d))
           else (m(d := m s)) x)"
    by (intro Suc.IH) auto
  show ?case
  proof
    fix x
    consider "x < d" | "x = d" | j where "x = Suc d + j"
      by (metis le_add_diff_inverse linorder_neqE_nat Suc_leI)
    then show "copy_fwd m d s (Suc k) x =
        (if d \<le> x \<and> x < d + Suc k then m (s + (x - d)) else m x)"
      using Suc.prems by cases (auto simp: IH)
  qed
qed

lemma copy_bwd_eq:
  "s < d \<Longrightarrow>
   copy_bwd m (d + k) (s + k) k = (\<lambda>x. if d \<le> x \<and> x < d + k then m (s + (x - d)) else m x)"
  by (induction k arbitrary: m) (auto simp: fun_eq_iff less_Suc_eq)

lemma memmove_eq:
  "memmove m dst src n =
     (\<lambda>x. if dst \<le> x \<and> x < dst + unat n then m (src + (x - dst)) else m x)"
proof (cases "n = 0")
  case True
  then show ?thesis by (auto simp: memmove_def fun_eq_iff)
next
  case False
  then show ?thesis
    by (auto simp: memmove_def copy_bwd_eq copy_fwd_eq)
qed

lemma ucast_ucast_u8 [simp]: "(ucast (ucast (a :: u8) :: c_int) :: u8) = a"
  by (rule bit_word_eqI) (simp add: bit_simps)

lemma ucast_u8_c_int_eq [simp]: "(ucast (a :: u8) :: c_int) = ucast b \<longleftrightarrow> a = b"
proof
  assume "(ucast a :: c_int) = ucast b"
  then have "(ucast (ucast a :: c_int) :: u8) = ucast (ucast b :: c_int)" by (rule arg_cong)
  then show "a = b" by simp
qed simp

lemma ucast_u8_c_int_0 [simp]: "(ucast (a :: u8) :: c_int) = 0 \<longleftrightarrow> a = 0"
  using ucast_u8_c_int_eq [of a 0] by (simp del: ucast_u8_c_int_eq)

lemma memcmp_from_eq_0:
  "memcmp_from m p q k = 0 \<longleftrightarrow> (\<forall>i<k. m (p + i) = m (q + i))"
proof (induction k arbitrary: p q)
  case 0
  then show ?case by simp
next
  case (Suc k)
  have "(ucast (m p) :: c_int) - ucast (m q) = 0 \<longleftrightarrow> m p = m q"
    by simp
  then show ?case
    using Suc.IH by (auto simp: less_Suc_eq_0_disj)
qed

section \<open>Strings\<close>

text \<open>\<open>cstr m p cs\<close>: the bytes \<open>cs\<close>, none of them NUL, stand at \<open>p\<close> and a NUL follows.\<close>

fun cstr :: "mem \<Rightarrow> nat \<Rightarrow> u8 list \<Rightarrow> bool" where
  "cstr m p [] \<longleftrightarrow> m p = 0"
| "cstr m p (c # cs) \<longleftrightarrow> m p = c \<and> c \<noteq> 0 \<and> cstr m (Suc p) cs"

fun strncmp_from :: "mem \<Rightarrow> nat \<Rightarrow> nat \<Rightarrow> nat \<Rightarrow> c_int" where
  "strncmp_from m p q 0 = 0"
| "strncmp_from m p q (Suc k) =
     (if m p \<noteq> 0 \<and> m p = m q then strncmp_from m (Suc p) (Suc q) k
      else ucast (m p) - ucast (m q))"

definition strncmp :: "mem \<Rightarrow> nat \<Rightarrow> nat \<Rightarrow> u32 \<Rightarrow> c_int" where
  "strncmp m p q n = strncmp_from m p q (unat n)"

text \<open>
  \<^verbatim>\<open>strncpy\<close> and \<^verbatim>\<open>safestrcpy\<close> take a signed count: a count that is not positive copies
  nothing. \<^verbatim>\<open>safestrcpy\<close> counts the terminator it always writes, so its loop runs \<open>n - 1\<close>
  times at most.
\<close>

definition pos_count :: "c_int \<Rightarrow> nat" where
  "pos_count n = (if sint n > 0 then nat (sint n) else 0)"

fun strncpy_from :: "mem \<Rightarrow> nat \<Rightarrow> nat \<Rightarrow> nat \<Rightarrow> mem" where
  "strncpy_from m s t 0 = m"
| "strncpy_from m s t (Suc k) =
     (let c = m t; m' = m(s := c)
      in if c \<noteq> 0 then strncpy_from m' (Suc s) (Suc t) k else memset_from m' (Suc s) 0 k)"

definition strncpy :: "mem \<Rightarrow> nat \<Rightarrow> nat \<Rightarrow> c_int \<Rightarrow> mem" where
  "strncpy m s t n = strncpy_from m s t (pos_count n)"

fun safestrcpy_from :: "mem \<Rightarrow> nat \<Rightarrow> nat \<Rightarrow> nat \<Rightarrow> mem" where
  "safestrcpy_from m s t 0 = m(s := 0)"
| "safestrcpy_from m s t (Suc k) =
     (let c = m t; m' = m(s := c)
      in if c \<noteq> 0 then safestrcpy_from m' (Suc s) (Suc t) k else m'(Suc s := 0))"

definition safestrcpy :: "mem \<Rightarrow> nat \<Rightarrow> nat \<Rightarrow> c_int \<Rightarrow> mem" where
  "safestrcpy m s t n =
     (if pos_count n = 0 then m else safestrcpy_from m s t (pos_count n - 1))"

text \<open>
  The \<^verbatim>\<open>int\<close> of \<^verbatim>\<open>strlen\<close> is a natural number here: it would overflow on a string of two gigabytes, which the
  memory of the machine does not have room for.
\<close>

partial_function (option) strlen_from :: "mem \<Rightarrow> nat \<Rightarrow> nat \<Rightarrow> nat option" where
  "strlen_from m s n = (if m (s + n) = 0 then Some n else strlen_from m s (Suc n))"

definition strlen :: "mem \<Rightarrow> nat \<Rightarrow> nat option" where
  "strlen m s = strlen_from m s 0"

lemma cstr_iff:
  "cstr m p cs \<longleftrightarrow>
     (\<forall>i<length cs. m (p + i) = cs ! i \<and> cs ! i \<noteq> 0) \<and> m (p + length cs) = 0"
proof (induction cs arbitrary: p)
  case Nil
  then show ?case by simp
next
  case (Cons c cs)
  then show ?case
    by (auto simp: less_Suc_eq_0_disj All_less_Suc2)
qed

lemma cstr_nth: "cstr m p cs \<Longrightarrow> i < length cs \<Longrightarrow> m (p + i) = cs ! i \<and> cs ! i \<noteq> 0"
  by (simp add: cstr_iff)

lemma cstr_end: "cstr m p cs \<Longrightarrow> m (p + length cs) = 0"
  by (simp add: cstr_iff)

lemma strlen_from_cstr:
  "cstr m (p + n) cs \<Longrightarrow> strlen_from m p n = Some (n + length cs)"
proof (induction cs arbitrary: n)
  case Nil
  then show ?case by (simp add: strlen_from.simps)
next
  case (Cons c cs)
  then have "strlen_from m p (Suc n) = Some (Suc n + length cs)"
    by (intro Cons.IH) simp
  then show ?case
    using Cons.prems by (simp add: strlen_from.simps [of m p n])
qed

lemma strlen_cstr: "cstr m p cs \<Longrightarrow> strlen m p = Some (length cs)"
  using strlen_from_cstr [of m p 0 cs] by (simp add: strlen_def)

lemma strncmp_from_eq_0:
  "cstr m p xs \<Longrightarrow> cstr m q ys \<Longrightarrow> strncmp_from m p q k = 0 \<longleftrightarrow> take k xs = take k ys"
proof (induction k arbitrary: p q xs ys)
  case 0
  then show ?case by simp
next
  case (Suc k)
  show ?case
    using Suc.prems Suc.IH by (cases xs; cases ys) auto
qed

lemma strncpy_from_eq:
  "cstr m t cs \<Longrightarrow> s + k \<le> t \<or> t + length cs < s \<Longrightarrow>
   strncpy_from m s t k =
     (\<lambda>x. if s \<le> x \<and> x < s + k then (if x - s < length cs then cs ! (x - s) else 0) else m x)"
proof (induction k arbitrary: m s t cs)
  case 0
  then show ?case by (auto simp: fun_eq_iff)
next
  case (Suc k)
  show ?case
  proof (cases cs)
    case Nil
    with Suc.prems show ?thesis
      by (auto simp: fun_eq_iff memset_from_eq)
  next
    case (Cons c cs')
    have str: "cstr (m(s := c)) (Suc t) cs'"
      using Suc.prems Cons by (auto simp: cstr_iff)
    have "strncpy_from (m(s := c)) (Suc s) (Suc t) k =
        (\<lambda>x. if Suc s \<le> x \<and> x < Suc s + k
             then (if x - Suc s < length cs' then cs' ! (x - Suc s) else 0)
             else (m(s := c)) x)"
      using Suc.prems Cons by (intro Suc.IH [OF str]) auto
    then show ?thesis
      using Suc.prems Cons by (auto simp: fun_eq_iff nth_Cons' Suc_diff_Suc)
  qed
qed

lemma safestrcpy_from_cstr:
  "cstr m t cs \<Longrightarrow> s + k < t \<or> t + length cs < s \<Longrightarrow>
   cstr (safestrcpy_from m s t k) s (take k cs) \<and>
   (\<forall>x. x < s \<or> s + k < x \<longrightarrow> safestrcpy_from m s t k x = m x)"
proof (induction k arbitrary: m s t cs)
  case 0
  then show ?case by simp
next
  case (Suc k)
  show ?case
  proof (cases cs)
    case Nil
    with Suc.prems show ?thesis by auto
  next
    case (Cons c cs')
    let ?m' = "m(s := c)"
    have str: "cstr ?m' (Suc t) cs'"
      using Suc.prems Cons by (auto simp: cstr_iff)
    have "cstr (safestrcpy_from ?m' (Suc s) (Suc t) k) (Suc s) (take k cs') \<and>
        (\<forall>x. x < Suc s \<or> Suc s + k < x \<longrightarrow> safestrcpy_from ?m' (Suc s) (Suc t) k x = ?m' x)"
      using Suc.prems Cons by (intro Suc.IH [OF str]) auto
    then show ?thesis
      using Suc.prems Cons by auto
  qed
qed

end
