(* ===== verification/Xv6_Kalloc.thy ===== *)
theory Xv6_Kalloc
  imports Xv6_Mem
begin

text \<open>
  The physical page allocator, \<^verbatim>\<open>kernel/kalloc.c\<close>. The free list is the linked list the code
  keeps: \<^verbatim>\<open>kmem.freelist\<close> points to the first free page and the first eight bytes of a free
  page hold the pointer to the next one. The record \<open>phys\<close> is what the allocator and the
  virtual-memory code share: the bytes of physical memory, the head of the free list and the
  linker's symbol \<^verbatim>\<open>end\<close>. One call runs inside \<^verbatim>\<open>kmem.lock\<close> and is one step of the model.

  \<open>kmem_inv\<close> relates the list in memory to the list of free pages; every operation is proved to
  implement its list operation on that abstraction. The locale \<open>resource_pool\<close> states what
  the allocator promises to its clients, and is interpreted on \<open>kalloc\<close> and \<open>kfree\<close>.
\<close>

section \<open>Code\<close>

record phys =
  pmem :: mem
  freelist :: u64
  kend :: u64

definition kfree :: "u64 \<Rightarrow> phys \<Rightarrow> phys res" where
  "kfree pa s =
     (if pa mod PGSIZE \<noteq> 0 \<or> pa < kend s \<or> pa \<ge> PHYSTOP then Panic ''kfree''
      else
        let m = memset (pmem s) (unat pa) 1 (ucast PGSIZE)
        in Ok (s\<lparr>pmem := store64 m (unat pa) (freelist s), freelist := pa\<rparr>))"

definition kalloc :: "phys \<Rightarrow> u64 \<times> phys" where
  "kalloc s =
     (let r = freelist s;
          s = (if r \<noteq> 0 then s\<lparr>freelist := load64 (pmem s) (unat r)\<rparr> else s);
          s = (if r \<noteq> 0 then s\<lparr>pmem := memset (pmem s) (unat r) 5 (ucast PGSIZE)\<rparr> else s)
      in (r, s))"

function freerange_from :: "nat \<Rightarrow> nat \<Rightarrow> phys \<Rightarrow> phys res" where
  "freerange_from p pa_end s =
     (if p + unat PGSIZE \<le> pa_end
      then rbind (kfree (of_nat p) s) (\<lambda>s. freerange_from (p + unat PGSIZE) pa_end s)
      else Ok s)"
  by pat_completeness auto
termination
  by (relation "measure (\<lambda>(p, pa_end, s). pa_end - p)") auto

declare freerange_from.simps [simp del]

definition freerange :: "u64 \<Rightarrow> u64 \<Rightarrow> phys \<Rightarrow> phys res" where
  "freerange pa_start pa_end s = freerange_from (unat (PGROUNDUP pa_start)) (unat pa_end) s"

definition kinit :: "phys \<Rightarrow> phys res" where
  "kinit s = freerange (kend s) PHYSTOP s"

section \<open>Pages\<close>

definition in_page :: "u64 \<Rightarrow> nat \<Rightarrow> bool" where
  "in_page p x \<longleftrightarrow> unat p \<le> x \<and> x < unat p + 4096"

definition ram_page :: "phys \<Rightarrow> u64 \<Rightarrow> bool" where
  "ram_page s q \<longleftrightarrow> pg_aligned q \<and> kend s \<le> q \<and> q < PHYSTOP"

text \<open>\<open>same_outside ps m m'\<close>: the memories agree outside the pages \<open>ps\<close>.\<close>

definition same_outside :: "u64 set \<Rightarrow> mem \<Rightarrow> mem \<Rightarrow> bool" where
  "same_outside ps m m' \<longleftrightarrow> (\<forall>x. (\<forall>p\<in>ps. \<not> in_page p x) \<longrightarrow> m' x = m x)"

lemma same_outside_refl [simp]: "same_outside ps m m"
  by (simp add: same_outside_def)

lemma same_outside_trans:
  "same_outside ps m m' \<Longrightarrow> same_outside qs m' m'' \<Longrightarrow> same_outside (ps \<union> qs) m m''"
  by (simp add: same_outside_def)

lemma same_outside_mono: "same_outside ps m m' \<Longrightarrow> ps \<subseteq> qs \<Longrightarrow> same_outside qs m m'"
  by (auto simp: same_outside_def)

lemma in_page_same:
  assumes "pg_aligned p" "pg_aligned q" "in_page p x" "in_page q x"
  shows "p = q"
proof -
  obtain i j where ij: "unat p = 4096 * i" "unat q = 4096 * j"
    using assms(1,2) by (meson pg_alignedE)
  have "i = j"
    using assms(3,4) ij by (auto simp: in_page_def)
  then show ?thesis
    using ij by (simp add: word_unat_eq_iff)
qed

lemma load64_same_outside:
  assumes "same_outside ps m m'" and "\<forall>p\<in>ps. pg_aligned p"
    and "pg_aligned q" and "q \<notin> ps" and "i + 8 \<le> 4096"
  shows "load64 m' (unat q + i) = load64 m (unat q + i)"
proof (rule load64_cong)
  fix j :: nat
  assume "j < 8"
  then have x: "in_page q (unat q + i + j)"
    using assms(5) by (simp add: in_page_def)
  have "\<not> in_page p (unat q + i + j)" if "p \<in> ps" for p
    using that assms(2-4) in_page_same [OF _ assms(3) _ x, of p] by auto
  then show "m' (unat q + i + j) = m (unat q + i + j)"
    using assms(1) by (simp add: same_outside_def)
qed

lemma ram_page_aligned [dest]: "ram_page s q \<Longrightarrow> pg_aligned q"
  by (simp add: ram_page_def)

section \<open>The free list in memory\<close>

fun chain :: "mem \<Rightarrow> u64 \<Rightarrow> u64 list \<Rightarrow> bool" where
  "chain m p [] \<longleftrightarrow> p = 0"
| "chain m p (q # qs) \<longleftrightarrow> p = q \<and> q \<noteq> 0 \<and> chain m (load64 m (unat q)) qs"

definition kmem_inv :: "phys \<Rightarrow> u64 list \<Rightarrow> bool" where
  "kmem_inv s fs \<longleftrightarrow>
     0 < kend s \<and> chain (pmem s) (freelist s) fs \<and> distinct fs \<and> (\<forall>q\<in>set fs. ram_page s q)"

lemma chain_cong:
  "same_outside ps m m' \<Longrightarrow> \<forall>p\<in>ps. pg_aligned p \<Longrightarrow> \<forall>q\<in>set qs. pg_aligned q \<and> q \<notin> ps \<Longrightarrow>
   chain m' p qs = chain m p qs"
proof (induction qs arbitrary: p)
  case Nil
  then show ?case by simp
next
  case (Cons q qs)
  then have "load64 m' (unat q) = load64 m (unat q)"
    using load64_same_outside [of ps m m' q 0] by simp
  then show ?case
    using Cons by simp
qed

lemma chain_unique: "chain m p xs \<Longrightarrow> chain m p ys \<Longrightarrow> xs = ys"
proof (induction xs arbitrary: p ys)
  case Nil
  then show ?case by (cases ys) auto
next
  case (Cons x xs)
  then show ?case by (cases ys) auto
qed

lemma kmem_inv_unique: "kmem_inv s xs \<Longrightarrow> kmem_inv s ys \<Longrightarrow> xs = ys"
  unfolding kmem_inv_def by (blast intro: chain_unique)

lemma kmem_inv_same_outside:
  assumes "kmem_inv s fs" and "same_outside ps (pmem s) (pmem s')"
    and "freelist s' = freelist s" and "kend s' = kend s"
    and "\<forall>p\<in>ps. pg_aligned p \<and> p \<notin> set fs"
  shows "kmem_inv s' fs"
proof -
  have "\<forall>q\<in>set fs. pg_aligned q \<and> q \<notin> ps"
    using assms by (auto simp: kmem_inv_def ram_page_def)
  then show ?thesis
    using assms chain_cong [of ps "pmem s" "pmem s'" fs "freelist s"]
    by (auto simp: kmem_inv_def ram_page_def)
qed

section \<open>kalloc and kfree on the abstraction\<close>

lemma kalloc_Nil: "kmem_inv s [] \<Longrightarrow> kalloc s = (0, s)"
  by (simp add: kalloc_def kmem_inv_def)

lemma kalloc_Cons:
  assumes "kmem_inv s (q # qs)"
  shows "\<exists>s'. kalloc s = (q, s') \<and> kmem_inv s' qs \<and> kend s' = kend s \<and>
    same_outside {q} (pmem s) (pmem s') \<and> (\<forall>x. in_page q x \<longrightarrow> pmem s' x = 5)"
proof -
  let ?m = "memset (pmem s) (unat q) 5 (ucast PGSIZE)"
  let ?s = "s\<lparr>freelist := load64 (pmem s) (unat q), pmem := ?m\<rparr>"
  have alloc: "kalloc s = (q, ?s)"
    using assms by (simp add: kalloc_def kmem_inv_def)
  have frame: "same_outside {q} (pmem s) ?m"
    by (simp add: same_outside_def memset_eq in_page_def)
  have qs: "\<forall>r\<in>set qs. pg_aligned r \<and> r \<notin> {q}" and q: "pg_aligned q"
    using assms by (auto simp: kmem_inv_def ram_page_def)
  then have "chain ?m (load64 (pmem s) (unat q)) qs"
    using assms chain_cong [OF frame _ qs] by (simp add: kmem_inv_def)
  then have "kmem_inv ?s qs"
    using assms by (simp add: kmem_inv_def ram_page_def)
  then show ?thesis
    using alloc frame by (simp add: memset_eq in_page_def)
qed

lemma kfree_ok:
  assumes "kmem_inv s fs" and "ram_page s pa" and "pa \<notin> set fs"
  shows "\<exists>s'. kfree pa s = Ok s' \<and> kmem_inv s' (pa # fs) \<and> kend s' = kend s \<and>
    same_outside {pa} (pmem s) (pmem s')"
proof -
  let ?m = "store64 (memset (pmem s) (unat pa) 1 (ucast PGSIZE)) (unat pa) (freelist s)"
  let ?s = "s\<lparr>pmem := ?m, freelist := pa\<rparr>"
  have free: "kfree pa s = Ok ?s"
    using assms(2) by (auto simp: kfree_def ram_page_def pg_aligned_def)
  have frame: "same_outside {pa} (pmem s) ?m"
    by (auto simp: same_outside_def store64_def memset_eq in_page_def)
  have fs: "\<forall>r\<in>set fs. pg_aligned r \<and> r \<notin> {pa}" and pa: "pg_aligned pa" "pa \<noteq> 0"
    using assms by (auto simp: kmem_inv_def ram_page_def)
  then have "chain ?m (freelist s) fs"
    using assms(1) chain_cong [OF frame _ fs] by (simp add: kmem_inv_def)
  then have "kmem_inv ?s (pa # fs)"
    using assms pa by (simp add: kmem_inv_def ram_page_def)
  then show ?thesis
    using free frame by auto
qed

lemma kfree_panics: "\<not> ram_page s pa \<Longrightarrow> kfree pa s = Panic ''kfree''"
  unfolding kfree_def by (rule if_P) (metis ram_page_def pg_aligned_def not_le)

section \<open>Building the free list at boot\<close>

lemma aligned_less:
  assumes "(p :: nat) mod 4096 = 0" and "x mod 4096 = 0" and "p < x"
  shows "p + 4096 \<le> x"
proof -
  obtain k l where "p = 4096 * k" "x = 4096 * l"
    using assms(1,2) by (metis mod_0_imp_dvd dvdE)
  then show ?thesis
    using assms(3) by simp
qed

lemma freerange_from_ok:
  "p mod 4096 = 0 \<Longrightarrow> pa_end \<le> unat PHYSTOP \<Longrightarrow> unat (kend s) \<le> p \<Longrightarrow> kmem_inv s fs \<Longrightarrow>
   \<forall>q\<in>set fs. unat q < p \<Longrightarrow>
   \<exists>s' fs'. freerange_from p pa_end s = Ok s' \<and> kmem_inv s' fs' \<and> kend s' = kend s \<and>
     set fs' = set fs \<union> {q. pg_aligned q \<and> p \<le> unat q \<and> unat q + 4096 \<le> pa_end}"
proof (induction p pa_end s arbitrary: fs rule: freerange_from.induct)
  case (1 p pa_end s)
  show ?case
  proof (cases "p + 4096 \<le> pa_end")
    case False
    then have none: "{q :: u64. pg_aligned q \<and> p \<le> unat q \<and> unat q + 4096 \<le> pa_end} = {}"
      by auto
    show ?thesis
      using False "1.prems" none by (auto simp: freerange_from.simps [of p])
  next
    case True
    let ?q = "of_nat p :: u64"
    have p: "unat ?q = p"
      using True "1.prems"(2) by (simp add: unat_of_nat)
    then have "ram_page s ?q"
      using "1.prems"(1-3) True
      by (simp add: ram_page_def pg_aligned_unat word_le_nat_alt word_less_nat_alt)
    moreover have "?q \<notin> set fs"
      using "1.prems"(5) p by auto
    ultimately obtain t where t: "kfree ?q s = Ok t" "kmem_inv t (?q # fs)" "kend t = kend s"
      using kfree_ok "1.prems"(4) by blast
    have below: "\<forall>q\<in>set (?q # fs). unat q < p + 4096"
      using "1.prems"(5) p by auto
    obtain s' fs' where *: "freerange_from (p + 4096) pa_end t = Ok s'" "kmem_inv s' fs'"
      "kend s' = kend t" "set fs' = set (?q # fs) \<union>
         {q. pg_aligned q \<and> p + 4096 \<le> unat q \<and> unat q + 4096 \<le> pa_end}"
      using "1.IH" [of t "?q # fs"] True t below "1.prems"(1-3) by auto
    have step: "p \<le> unat q \<longleftrightarrow> q = ?q \<or> p + 4096 \<le> unat q" if "pg_aligned q" for q :: u64
    proof -
      have "unat q mod 4096 = 0"
        using that by (simp only: pg_aligned_unat)
      then have "p < unat q \<longleftrightarrow> p + 4096 \<le> unat q"
        using aligned_less [of p "unat q"] "1.prems"(1) by auto
      then show ?thesis
        using p by (auto simp: word_unat_eq_iff [of q] le_less)
    qed
    have "pg_aligned ?q"
      using p "1.prems"(1) by (simp only: pg_aligned_unat)
    then have "{q :: u64. pg_aligned q \<and> p \<le> unat q \<and> unat q + 4096 \<le> pa_end} =
        insert ?q {q. pg_aligned q \<and> p + 4096 \<le> unat q \<and> unat q + 4096 \<le> pa_end}"
      using True p step by auto
    then show ?thesis
      using * t True by (auto simp: freerange_from.simps [of p])
  qed
qed

lemma kinit_ok:
  assumes "0 < kend s" and "kend s \<le> PHYSTOP" and "freelist s = 0"
  shows "\<exists>s' fs. kinit s = Ok s' \<and> kmem_inv s' fs \<and> kend s' = kend s \<and> set fs = {q. ram_page s q}"
proof -
  let ?p = "unat (PGROUNDUP (kend s))"
  have le: "unat (kend s) \<le> 0x88000000"
    using assms(2) by (simp add: word_le_nat_alt)
  then have p: "?p = (unat (kend s) + 4095) div 4096 * 4096"
    by (intro unat_PGROUNDUP) simp
  have ge: "unat (kend s) \<le> ?p"
    unfolding p by linarith
  have "kmem_inv s []"
    using assms(1,3) by (simp add: kmem_inv_def)
  then obtain s' fs where *: "freerange_from ?p (unat PHYSTOP) s = Ok s'" "kmem_inv s' fs"
    "kend s' = kend s" "set fs = {q. pg_aligned q \<and> ?p \<le> unat q \<and> unat q + 4096 \<le> unat PHYSTOP}"
    using freerange_from_ok [of ?p "unat PHYSTOP" s "[]"] ge p by auto
  have "?p \<le> unat q \<and> unat q + 4096 \<le> unat PHYSTOP \<longleftrightarrow> kend s \<le> q \<and> q < PHYSTOP"
    if al: "pg_aligned q" for q
  proof -
    obtain k where "unat q = 4096 * k"
      using al by (rule pg_alignedE)
    then show ?thesis
      using p by (auto simp: word_le_nat_alt word_less_nat_alt)
  qed
  then have "set fs = {q. ram_page s q}"
    using *(4) by (auto simp: ram_page_def)
  then show ?thesis
    using * by (auto simp: kinit_def freerange_def)
qed

section \<open>The allocator as a resource pool\<close>

text \<open>
  What a client of an allocator relies on: an allocated resource was free and is free no more,
  failure means that nothing is free, and a resource that is not free can be given back.
\<close>

locale resource_pool =
  fixes pool_inv :: "'s \<Rightarrow> 'r set \<Rightarrow> bool"
    and valid :: "'s \<Rightarrow> 'r \<Rightarrow> bool"
    and alloc :: "'s \<Rightarrow> 'r option \<times> 's"
    and free :: "'r \<Rightarrow> 's \<Rightarrow> 's res"
  assumes alloc_None: "pool_inv s F \<Longrightarrow> alloc s = (None, s') \<Longrightarrow> F = {} \<and> s' = s"
    and alloc_Some: "pool_inv s F \<Longrightarrow> alloc s = (Some r, s') \<Longrightarrow> r \<in> F \<and> pool_inv s' (F - {r})"
    and alloc_valid: "pool_inv s F \<Longrightarrow> alloc s = (x, s') \<Longrightarrow> valid s' = valid s"
    and free_valid: "pool_inv s F \<Longrightarrow> r \<in> F \<Longrightarrow> valid s r"
    and free_Ok: "pool_inv s F \<Longrightarrow> valid s r \<Longrightarrow> r \<notin> F \<Longrightarrow>
      \<exists>s'. free r s = Ok s' \<and> pool_inv s' (insert r F) \<and> valid s' = valid s"
begin

text \<open>
  A run of the clients: \<open>owned\<close> is what they hold. A client frees only what it holds.
\<close>

inductive pool_run :: "'s \<Rightarrow> 'r set \<Rightarrow> 's \<Rightarrow> 'r set \<Rightarrow> bool" where
  refl: "pool_run s W s W"
| alloc: "pool_run s W t V \<Longrightarrow> alloc t = (Some r, t') \<Longrightarrow> pool_run s W t' (insert r V)"
| fail: "pool_run s W t V \<Longrightarrow> alloc t = (None, t') \<Longrightarrow> pool_run s W t' V"
| free: "pool_run s W t V \<Longrightarrow> r \<in> V \<Longrightarrow> free r t = Ok t' \<Longrightarrow> pool_run s W t' (V - {r})"

lemma pool_run_partition:
  assumes "pool_run s W t V" and "pool_inv s F" and "F \<inter> W = {}" and "\<forall>r\<in>W. valid s r"
  shows "\<exists>G. pool_inv t G \<and> G \<inter> V = {} \<and> G \<union> V = F \<union> W \<and> valid t = valid s"
  using assms
proof (induction rule: pool_run.induct)
  case (refl s W)
  then show ?case by blast
next
  case (alloc s W t V r t')
  then obtain G where G: "pool_inv t G" "G \<inter> V = {}" "G \<union> V = F \<union> W" "valid t = valid s"
    by blast
  have "r \<in> G \<and> pool_inv t' (G - {r})"
    using alloc_Some [OF G(1) alloc.hyps(2)] .
  moreover have "valid t' = valid s"
    using alloc_valid [OF G(1) alloc.hyps(2)] G(4) by simp
  ultimately show ?case
    using G by (intro exI [of _ "G - {r}"]) blast
next
  case (fail s W t V t')
  then show ?case
    using alloc_None by blast
next
  case (free s W t V r t')
  then obtain G where G: "pool_inv t G" "G \<inter> V = {}" "G \<union> V = F \<union> W" "valid t = valid s"
    by blast
  have "valid s q" if "q \<in> F \<union> W" for q
    using that free.prems free_valid by blast
  then have "valid t r" "r \<notin> G"
    using G free.hyps(2) by auto
  then have "pool_inv t' (insert r G) \<and> valid t' = valid t"
    using free_Ok [OF G(1)] free.hyps(3) by fastforce
  then show ?case
    using G free.hyps(2) by (intro exI [of _ "insert r G"]) auto
qed

end

definition kalloc_opt :: "phys \<Rightarrow> u64 option \<times> phys" where
  "kalloc_opt s = (case kalloc s of (r, s') \<Rightarrow> (if r = 0 then None else Some r, s'))"

interpretation kmem: resource_pool
  "\<lambda>s F. \<exists>fs. kmem_inv s fs \<and> set fs = F" ram_page kalloc_opt kfree
proof (unfold_locales, goal_cases)
  case (1 s F s')
  then obtain fs where fs: "kmem_inv s fs" "set fs = F" by blast
  show ?case
  proof (cases fs)
    case Nil
    then show ?thesis
      using 1 fs kalloc_Nil [of s] by (auto simp: kalloc_opt_def)
  next
    case (Cons q qs)
    then have "q \<noteq> 0"
      using fs by (simp add: kmem_inv_def)
    then show ?thesis
      using 1 fs Cons kalloc_Cons [of s q qs] by (auto simp: kalloc_opt_def)
  qed
next
  case (2 s F r s')
  then obtain fs where fs: "kmem_inv s fs" "set fs = F" by blast
  show ?case
  proof (cases fs)
    case Nil
    then show ?thesis
      using 2 fs kalloc_Nil [of s] by (auto simp: kalloc_opt_def)
  next
    case (Cons q qs)
    moreover obtain t where "kalloc s = (q, t)" "kmem_inv t qs"
      using fs Cons kalloc_Cons by blast
    moreover have "q \<noteq> 0" "q \<notin> set qs"
      using fs Cons by (simp_all add: kmem_inv_def)
    ultimately show ?thesis
      using 2 fs by (auto simp: kalloc_opt_def)
  qed
next
  case (3 s F x s')
  have "kend (snd (kalloc s)) = kend s"
    by (simp add: kalloc_def Let_def)
  then show ?case
    using 3 by (auto simp: kalloc_opt_def ram_page_def fun_eq_iff split: prod.splits)
next
  case (4 s F r)
  then show ?case
    by (auto simp: kmem_inv_def)
next
  case (5 s F r)
  then obtain fs where fs: "kmem_inv s fs" "set fs = F" by blast
  then obtain t where t: "kfree r s = Ok t" "kmem_inv t (r # fs)" "kend t = kend s"
    using kfree_ok 5 by blast
  then have "ram_page t = ram_page s"
    by (simp add: ram_page_def fun_eq_iff)
  then show ?case
    using t fs by (intro exI [of _ t]) (auto intro!: exI [of _ "r # fs"])
qed

section \<open>Properties\<close>

text \<open>
  Claim C10: pages are never handed out twice and never lost. In every run of \<open>kalloc\<close> and
  \<open>kfree\<close> calls in which clients free only pages they hold, the pages on the free list and the
  pages held by clients stay disjoint and their union stays the same.
\<close>

theorem kalloc_kfree_partition:
  assumes "kmem.pool_run s W t V" and "kmem_inv s fs"
    and "set fs \<inter> W = {}" and "\<forall>r\<in>W. ram_page s r"
  shows "\<exists>gs. kmem_inv t gs \<and> set gs \<inter> V = {} \<and> set gs \<union> V = set fs \<union> W"
  using kmem.pool_run_partition [OF assms(1), of "set fs"] assms(2-4) by blast

definition boot_phys :: phys where
  "boot_phys = \<lparr>pmem = (\<lambda>_. 0), freelist = 0, kend = 0x87FFF000\<rparr>"

text \<open>
  Claim C13: after \<open>kinit\<close> the free list is well-formed and holds exactly the page-aligned pages
  of RAM between the end of the kernel image and \<^verbatim>\<open>PHYSTOP\<close>, each once.
\<close>

theorem kinit_frees_all_ram:
  assumes "0 < kend s" and "kend s \<le> PHYSTOP" and "freelist s = 0"
  shows "\<exists>s' fs. kinit s = Ok s' \<and> kmem_inv s' fs \<and> set fs = {q. ram_page s q}"
  using kinit_ok [OF assms] by blast

theorem kinit_frees_all_ram_witness:
  "0 < kend boot_phys \<and> kend boot_phys \<le> PHYSTOP \<and> freelist boot_phys = 0 \<and>
   (\<exists>s' fs. kinit boot_phys = Ok s' \<and> kmem_inv s' fs \<and> set fs = {q. ram_page boot_phys q})"
proof -
  have h: "0 < kend boot_phys" "kend boot_phys \<le> PHYSTOP" "freelist boot_phys = 0"
    by (simp_all add: boot_phys_def)
  show ?thesis
    using h kinit_frees_all_ram [OF h] by simp
qed

theorem kalloc_kfree_partition_witness:
  "\<exists>t u fs gs. kalloc (boot_phys\<lparr>freelist := 0x87FFF000\<rparr>) = (0x87FFF000, t) \<and> kfree 0x87FFF000 t = Ok u \<and>
     kmem.pool_run (boot_phys\<lparr>freelist := 0x87FFF000\<rparr>) {} t {0x87FFF000} \<and> kmem_inv t fs \<and> set fs = {} \<and>
     kmem.pool_run (boot_phys\<lparr>freelist := 0x87FFF000\<rparr>) {} u {} \<and> kmem_inv u gs \<and> set gs = {0x87FFF000}"
proof -
  let ?s = "boot_phys\<lparr>freelist := 0x87FFF000\<rparr>" and ?q = "0x87FFF000 :: u64"
  have load: "load64 (\<lambda>_. 0) 2281697280 = 0"
    by (rule bit_word_eqI) (simp add: bit_load64)
  have inv: "kmem_inv ?s [?q]"
    by (simp add: kmem_inv_def boot_phys_def ram_page_def pg_aligned_def load)
  then obtain t where t: "kalloc ?s = (?q, t)" "kmem_inv t []" "kend t = kend ?s"
    using kalloc_Cons by blast
  moreover have "ram_page t ?q"
    using t(3) by (simp add: ram_page_def pg_aligned_def boot_phys_def)
  ultimately obtain u where u: "kfree ?q t = Ok u"
    using kfree_ok [of t "[]" ?q] by auto
  have r1: "kmem.pool_run ?s {} t {?q}"
    by (rule kmem.pool_run.alloc [OF kmem.pool_run.refl]) (simp add: kalloc_opt_def t)
  have r2: "kmem.pool_run ?s {} u ({?q} - {?q})"
    by (rule kmem.pool_run.free [OF r1]) (simp_all add: u)
  obtain fs where fs: "kmem_inv t fs" "set fs \<inter> {?q} = {}" "set fs \<union> {?q} = set [?q] \<union> {}"
    using kalloc_kfree_partition [OF r1 inv] by blast
  obtain gs where gs: "kmem_inv u gs" "set gs \<union> ({?q} - {?q}) = set [?q] \<union> {}"
    using kalloc_kfree_partition [OF r2 inv] by blast
  have "set fs = {}"
    using fs(2,3) by (cases fs) auto
  moreover have "set gs = {?q}"
    using gs(2) by auto
  ultimately have "\<exists>fs. kmem_inv t fs \<and> set fs = {}" "\<exists>gs. kmem_inv u gs \<and> set gs = {?q}"
    using fs(1) gs(1) by blast+
  then show ?thesis
    using t(1) u r1 r2 by (simp del: set_empty)
qed

end
