(* ===== verification/Xv6_Vm.thy ===== *)
theory Xv6_Vm
  imports Xv6_Kalloc
begin

text \<open>
  Page tables and address spaces, \<^verbatim>\<open>kernel/vm.c\<close>: the three-level Sv39 tables live in physical
  memory as 512-entry arrays of 64-bit PTEs and are read and written there. A kernel-side buffer
  handed to \<^verbatim>\<open>copyout\<close> or filled by \<^verbatim>\<open>copyin\<close> is the list of its bytes.
\<close>

section \<open>PTEs\<close>

definition PTE_V :: u64 where "PTE_V = 1"
definition PTE_R :: u64 where "PTE_R = 2"
definition PTE_W :: u64 where "PTE_W = 4"
definition PTE_X :: u64 where "PTE_X = 8"
definition PTE_U :: u64 where "PTE_U = 16"

lemmas PTE_bits = PTE_V_def PTE_R_def PTE_W_def PTE_X_def PTE_U_def

definition PA2PTE :: "u64 \<Rightarrow> u64" where
  "PA2PTE pa = push_bit 10 (drop_bit 12 pa)"

definition PTE2PA :: "u64 \<Rightarrow> u64" where
  "PTE2PA pte = push_bit 12 (drop_bit 10 pte)"

definition PTE_FLAGS :: "u64 \<Rightarrow> u64" where
  "PTE_FLAGS pte = pte AND 0x3FF"

definition PX :: "nat \<Rightarrow> u64 \<Rightarrow> u64" where
  "PX level va = drop_bit (12 + 9 * level) va AND 0x1FF"

section \<open>Walking the tables\<close>

text \<open>
  \<open>walk_level\<close> is the loop of \<^verbatim>\<open>walk()\<close>: the table of level \<open>level\<close> is at \<open>pt\<close>. The result is
  the address of the PTE, or 0.
\<close>

fun walk_level :: "nat \<Rightarrow> u64 \<Rightarrow> u64 \<Rightarrow> bool \<Rightarrow> phys \<Rightarrow> u64 \<times> phys" where
  "walk_level 0 pt va alloc s = (pt + 8 * PX 0 va, s)"
| "walk_level (Suc l) pt va alloc s =
     (let pte = pt + 8 * PX (Suc l) va; e = load64 (pmem s) (unat pte)
      in if e AND PTE_V \<noteq> 0 then walk_level l (PTE2PA e) va alloc s
         else if \<not> alloc then (0, s)
         else case kalloc s of (pt', s) \<Rightarrow>
           if pt' = 0 then (0, s)
           else
             let s = s\<lparr>pmem := memset (pmem s) (unat pt') 0 (ucast PGSIZE)\<rparr>;
                 s = s\<lparr>pmem := store64 (pmem s) (unat pte) (PA2PTE pt' OR PTE_V)\<rparr>
             in walk_level l pt' va alloc s)"

definition walk :: "u64 \<Rightarrow> u64 \<Rightarrow> bool \<Rightarrow> phys \<Rightarrow> (u64 \<times> phys) res" where
  "walk pt va alloc s =
     (if va \<ge> MAXVA then Panic ''walk'' else Ok (walk_level 2 pt va alloc s))"

definition walkaddr :: "u64 \<Rightarrow> u64 \<Rightarrow> phys \<Rightarrow> u64 res" where
  "walkaddr pt va s =
     (if va \<ge> MAXVA then Ok 0
      else rbind (walk pt va False s) (\<lambda>(pte, _).
        if pte = 0 then Ok 0
        else
          let e = load64 (pmem s) (unat pte)
          in if e AND PTE_V = 0 then Ok 0
             else if e AND PTE_U = 0 then Ok 0
             else Ok (PTE2PA e)))"

lemma walk_Ok_less: "walk pt va alloc s = Ok x \<Longrightarrow> va < MAXVA"
  by (simp add: walk_def split: if_splits)

section \<open>Mapping and unmapping\<close>

lemma page_step:
  assumes "a < MAXVA"
  shows "unat (a + PGSIZE) = unat a + 4096"
proof -
  have "unat a < 0x4000000000"
    using assms by (simp add: word_less_nat_alt)
  then show ?thesis
    by (simp add: unat_word_ariths)
qed

function mappages_from :: "u64 \<Rightarrow> u64 \<Rightarrow> u64 \<Rightarrow> u64 \<Rightarrow> u64 \<Rightarrow> phys \<Rightarrow> (c_int \<times> phys) res" where
  "mappages_from pt a lastpg pa perm s =
     rbind (walk pt a True s) (\<lambda>(pte, s).
       if pte = 0 then Ok (- 1, s)
       else if load64 (pmem s) (unat pte) AND PTE_V \<noteq> 0 then Panic ''mappages: remap''
       else
         let s = s\<lparr>pmem := store64 (pmem s) (unat pte) (PA2PTE pa OR perm OR PTE_V)\<rparr>
         in if a = lastpg then Ok (0, s)
            else mappages_from pt (a + PGSIZE) lastpg (pa + PGSIZE) perm s)"
  by pat_completeness auto
termination
proof (relation "measure (\<lambda>(pt, a, lastpg, pa, perm, s). unat MAXVA + 4096 - unat a)", goal_cases)
  case 1
  show ?case by simp
next
  case (2 pt a lastpg pa perm s x pte t u)
  then have "a < MAXVA"
    using walk_Ok_less by blast
  then show ?case
    using page_step [of a] by (simp add: word_less_nat_alt)
qed

declare mappages_from.simps [simp del]

definition mappages :: "u64 \<Rightarrow> u64 \<Rightarrow> u64 \<Rightarrow> u64 \<Rightarrow> u64 \<Rightarrow> phys \<Rightarrow> (c_int \<times> phys) res" where
  "mappages pt va sz pa perm s =
     (if va mod PGSIZE \<noteq> 0 then Panic ''mappages: va not aligned''
      else if sz mod PGSIZE \<noteq> 0 then Panic ''mappages: size not aligned''
      else if sz = 0 then Panic ''mappages: size''
      else mappages_from pt va (va + sz - PGSIZE) pa perm s)"

definition kvmmap :: "u64 \<Rightarrow> u64 \<Rightarrow> u64 \<Rightarrow> u64 \<Rightarrow> u64 \<Rightarrow> phys \<Rightarrow> phys res" where
  "kvmmap kpgtbl va pa sz perm s =
     rbind (mappages kpgtbl va sz pa perm s) (\<lambda>(r, s).
       if r \<noteq> 0 then Panic ''kvmmap'' else Ok s)"

function uvmunmap_from :: "u64 \<Rightarrow> u64 \<Rightarrow> u64 \<Rightarrow> bool \<Rightarrow> phys \<Rightarrow> phys res" where
  "uvmunmap_from pt a lim do_free s =
     (if a < lim then
        rbind (walk pt a False s) (\<lambda>(pte, _).
          if pte = 0 then Panic ''uvmunmap: walk''
          else
            let e = load64 (pmem s) (unat pte)
            in if e AND PTE_V = 0 then Panic ''uvmunmap: not mapped''
               else if PTE_FLAGS e = PTE_V then Panic ''uvmunmap: not a leaf''
               else
                 rbind (if do_free then kfree (PTE2PA e) s else Ok s) (\<lambda>s.
                   uvmunmap_from pt (a + PGSIZE) lim do_free
                     (s\<lparr>pmem := store64 (pmem s) (unat pte) 0\<rparr>)))
      else Ok s)"
  by pat_completeness auto
termination
proof (relation "measure (\<lambda>(pt, a, lim, do_free, s). unat lim - unat a)", goal_cases)
  case 1
  show ?case by simp
next
  case (2 pt a lim do_free s x pte uu e t)
  then have "a < MAXVA"
    using walk_Ok_less by blast
  then show ?case
    using page_step [of a] 2(1) by (simp add: word_less_nat_alt)
qed

declare uvmunmap_from.simps [simp del]

definition uvmunmap :: "u64 \<Rightarrow> u64 \<Rightarrow> u64 \<Rightarrow> bool \<Rightarrow> phys \<Rightarrow> phys res" where
  "uvmunmap pt va npages do_free s =
     (if va mod PGSIZE \<noteq> 0 then Panic ''uvmunmap: not aligned''
      else uvmunmap_from pt va (va + npages * PGSIZE) do_free s)"

definition uvmcreate :: "phys \<Rightarrow> u64 \<times> phys" where
  "uvmcreate s =
     (case kalloc s of (pt, s) \<Rightarrow>
        if pt = 0 then (0, s)
        else (pt, s\<lparr>pmem := memset (pmem s) (unat pt) 0 (ucast PGSIZE)\<rparr>))"

definition uvmfirst :: "u64 \<Rightarrow> nat \<Rightarrow> u32 \<Rightarrow> phys \<Rightarrow> phys res" where
  "uvmfirst pt src sz s =
     (if sz \<ge> ucast PGSIZE then Panic ''uvmfirst: more than a page''
      else case kalloc s of (mem, s) \<Rightarrow>
        rbind (mappages pt 0 PGSIZE mem (PTE_W OR PTE_R OR PTE_X OR PTE_U)
                 (s\<lparr>pmem := memset (pmem s) (unat mem) 0 (ucast PGSIZE)\<rparr>)) (\<lambda>(_, s).
          Ok (s\<lparr>pmem := memmove (pmem s) (unat mem) src sz\<rparr>)))"

section \<open>Growing and shrinking a process\<close>

definition uvmdealloc :: "u64 \<Rightarrow> u64 \<Rightarrow> u64 \<Rightarrow> phys \<Rightarrow> (u64 \<times> phys) res" where
  "uvmdealloc pt oldsz newsz s =
     (if newsz \<ge> oldsz then Ok (oldsz, s)
      else
        rbind
          (if PGROUNDUP newsz < PGROUNDUP oldsz
           then
             let npages = ucast ((PGROUNDUP oldsz - PGROUNDUP newsz) div PGSIZE) :: c_int
             in uvmunmap pt (PGROUNDUP newsz) (scast npages) True s
           else Ok s)
          (\<lambda>s. Ok (newsz, s)))"

lemma mappages_0_less: "mappages pt a sz pa perm s = Ok (0, s') \<Longrightarrow> a < MAXVA"
  by (auto simp: mappages_def mappages_from.simps [of pt a] rbind_eq_Ok
      dest: walk_Ok_less split: if_splits)

function uvmalloc_from :: "u64 \<Rightarrow> u64 \<Rightarrow> u64 \<Rightarrow> u64 \<Rightarrow> u64 \<Rightarrow> phys \<Rightarrow> (u64 \<times> phys) res" where
  "uvmalloc_from pt a oldsz newsz xperm s =
     (if a < newsz then
        case kalloc s of (mem, s) \<Rightarrow>
          if mem = 0 then
            rbind (uvmdealloc pt a oldsz s) (\<lambda>(_, s). Ok (0, s))
          else
            rbind (mappages pt a PGSIZE mem (PTE_R OR PTE_U OR xperm)
                     (s\<lparr>pmem := memset (pmem s) (unat mem) 0 (ucast PGSIZE)\<rparr>)) (\<lambda>(r, s).
              if r \<noteq> 0 then
                rbind (kfree mem s) (\<lambda>s.
                rbind (uvmdealloc pt a oldsz s) (\<lambda>(_, s). Ok (0, s)))
              else uvmalloc_from pt (a + PGSIZE) oldsz newsz xperm s)
      else Ok (newsz, s))"
  by pat_completeness auto
termination
proof (relation "measure (\<lambda>(pt, a, oldsz, newsz, xperm, s). unat newsz - unat a)", goal_cases)
  case 1
  show ?case by simp
next
  case (2 pt a oldsz newsz xperm s)
  then have "a < MAXVA"
    using mappages_0_less by auto
  then show ?case
    using page_step [of a] 2(1) by (simp add: word_less_nat_alt)
qed

declare uvmalloc_from.simps [simp del]

definition uvmalloc :: "u64 \<Rightarrow> u64 \<Rightarrow> u64 \<Rightarrow> u64 \<Rightarrow> phys \<Rightarrow> (u64 \<times> phys) res" where
  "uvmalloc pt oldsz newsz xperm s =
     (if newsz < oldsz then Ok (oldsz, s)
      else uvmalloc_from pt (PGROUNDUP oldsz) (PGROUNDUP oldsz) newsz xperm s)"

section \<open>Freeing and copying address spaces\<close>

text \<open>
  \<^verbatim>\<open>freewalk()\<close> recurses into every table it finds. Its depth is bounded by the first argument;
  the callers use 3, the number of levels of an Sv39 table.
\<close>

fun freewalk_entries ::
  "(u64 \<Rightarrow> phys \<Rightarrow> phys res) \<Rightarrow> u64 \<Rightarrow> nat \<Rightarrow> nat \<Rightarrow> phys \<Rightarrow> phys res" where
  "freewalk_entries rec pt i 0 s = Ok s"
| "freewalk_entries rec pt i (Suc k) s =
     (let pte = load64 (pmem s) (unat pt + 8 * i)
      in if pte AND PTE_V \<noteq> 0 \<and> pte AND (PTE_R OR PTE_W OR PTE_X) = 0 then
           rbind (rec (PTE2PA pte) s) (\<lambda>s.
             freewalk_entries rec pt (Suc i) k
               (s\<lparr>pmem := store64 (pmem s) (unat pt + 8 * i) 0\<rparr>))
         else if pte AND PTE_V \<noteq> 0 then Panic ''freewalk: leaf''
         else freewalk_entries rec pt (Suc i) k s)"

primrec freewalk :: "nat \<Rightarrow> u64 \<Rightarrow> phys \<Rightarrow> phys res" where
  "freewalk 0 pt s = Stuck"
| "freewalk (Suc d) pt s = rbind (freewalk_entries (freewalk d) pt 0 512 s) (\<lambda>s. kfree pt s)"

definition uvmfree :: "u64 \<Rightarrow> u64 \<Rightarrow> phys \<Rightarrow> phys res" where
  "uvmfree pt sz s =
     rbind (if sz > 0 then uvmunmap pt 0 (PGROUNDUP sz div PGSIZE) True s else Ok s)
       (\<lambda>s. freewalk 3 pt s)"

function uvmcopy_from :: "u64 \<Rightarrow> u64 \<Rightarrow> u64 \<Rightarrow> u64 \<Rightarrow> phys \<Rightarrow> (c_int \<times> phys) res" where
  "uvmcopy_from old new sz i s =
     (if i < sz then
        rbind (walk old i False s) (\<lambda>(pte, _).
          if pte = 0 then Panic ''uvmcopy: pte should exist''
          else
            let e = load64 (pmem s) (unat pte)
            in if e AND PTE_V = 0 then Panic ''uvmcopy: page not present''
               else case kalloc s of (mem, s) \<Rightarrow>
                 if mem = 0 then
                   rbind (uvmunmap new 0 (i div PGSIZE) True s) (\<lambda>s. Ok (- 1, s))
                 else
                   rbind (mappages new i PGSIZE mem (PTE_FLAGS e)
                     (s\<lparr>pmem := memmove (pmem s) (unat mem) (unat (PTE2PA e)) (ucast PGSIZE)\<rparr>))
                     (\<lambda>(r, s).
                       if r \<noteq> 0 then
                         rbind (kfree mem s) (\<lambda>s.
                         rbind (uvmunmap new 0 (i div PGSIZE) True s) (\<lambda>s. Ok (- 1, s)))
                       else uvmcopy_from old new sz (i + PGSIZE) s))
      else Ok (0, s))"
  by pat_completeness auto
termination
proof (relation "measure (\<lambda>(old, new, sz, i, s). unat sz - unat i)", goal_cases)
  case 1
  show ?case by simp
next
  case (2 old new sz i s x)
  then have "i < MAXVA"
    using walk_Ok_less by blast
  then show ?case
    using page_step [of i] 2(1) by (simp add: word_less_nat_alt)
qed

declare uvmcopy_from.simps [simp del]

definition uvmcopy :: "u64 \<Rightarrow> u64 \<Rightarrow> u64 \<Rightarrow> phys \<Rightarrow> (c_int \<times> phys) res" where
  "uvmcopy old new sz s = uvmcopy_from old new sz 0 s"

definition uvmclear :: "u64 \<Rightarrow> u64 \<Rightarrow> phys \<Rightarrow> phys res" where
  "uvmclear pt va s =
     rbind (walk pt va False s) (\<lambda>(pte, _).
       if pte = 0 then Panic ''uvmclear''
       else Ok (s\<lparr>pmem := store64 (pmem s) (unat pte)
                         (load64 (pmem s) (unat pte) AND NOT PTE_U)\<rparr>))"

section \<open>Copying between kernel and user\<close>

definition mem_write :: "mem \<Rightarrow> nat \<Rightarrow> u8 list \<Rightarrow> mem" where
  "mem_write m a bs = (\<lambda>b. if a \<le> b \<and> b < a + length bs then bs ! (b - a) else m b)"

definition mem_read :: "mem \<Rightarrow> nat \<Rightarrow> nat \<Rightarrow> u8 list" where
  "mem_read m a n = map (\<lambda>i. m (a + i)) [0..<n]"

lemma unat_page_offset: "unat (a - PGROUNDDOWN a) = unat a mod 4096"
proof -
  have le: "PGROUNDDOWN a \<le> a"
    by (simp add: word_le_nat_alt unat_PGROUNDDOWN)
  show ?thesis
    by (simp add: unat_sub [OF le] unat_PGROUNDDOWN minus_mod_eq_mult_div [symmetric] mult.commute)
qed

lemma unat_page_rest: "unat (PGSIZE - (a - PGROUNDDOWN a)) = 4096 - unat a mod 4096"
proof -
  have lt: "unat a mod 4096 < 4096"
    by simp
  then have le: "a - PGROUNDDOWN a \<le> PGSIZE"
    by (simp add: word_le_nat_alt unat_page_offset)
  show ?thesis
    by (subst unat_sub [OF le]) (simp add: unat_page_offset)
qed

text \<open>The source buffer of \<^verbatim>\<open>copyout\<close> is the list of its \<^verbatim>\<open>len\<close> bytes.\<close>

function copyout :: "u64 \<Rightarrow> u64 \<Rightarrow> u8 list \<Rightarrow> phys \<Rightarrow> (c_int \<times> phys) res" where
  "copyout pt dstva src s =
     (if length src > 0 then
        let va0 = PGROUNDDOWN dstva
        in if va0 \<ge> MAXVA then Ok (- 1, s)
           else
             rbind (walk pt va0 False s) (\<lambda>(pte, _).
               let e = load64 (pmem s) (unat pte)
               in if pte = 0 \<or> e AND PTE_V = 0 \<or> e AND PTE_U = 0 \<or> e AND PTE_W = 0
                  then Ok (- 1, s)
                  else
                    let pa0 = PTE2PA e;
                        n = unat (PGSIZE - (dstva - va0));
                        n = (if n > length src then length src else n)
                    in copyout pt (va0 + PGSIZE) (drop n src)
                         (s\<lparr>pmem := mem_write (pmem s) (unat (pa0 + (dstva - va0)))
                                     (take n src)\<rparr>))
      else Ok (0, s))"
  by pat_completeness auto
termination
  by (relation "measure (\<lambda>(pt, dstva, src, s). length src)")
     (auto simp: unat_page_rest simp del: PGSIZE_simp)

declare copyout.simps [simp del]

text \<open>
  \<^verbatim>\<open>copyin\<close> returns its status and the bytes it has stored at \<^verbatim>\<open>dst\<close>; after a failure these are
  the bytes of the pages before the bad one. \<open>acc\<close> holds what is stored so far.
\<close>

function copyin_from :: "u64 \<Rightarrow> u64 \<Rightarrow> nat \<Rightarrow> u8 list \<Rightarrow> phys \<Rightarrow> (c_int \<times> u8 list) res" where
  "copyin_from pt srcva len acc s =
     (if len > 0 then
        let va0 = PGROUNDDOWN srcva
        in rbind (walkaddr pt va0 s) (\<lambda>pa0.
             if pa0 = 0 then Ok (- 1, acc)
             else
               let n = unat (PGSIZE - (srcva - va0));
                   n = (if n > len then len else n)
               in copyin_from pt (va0 + PGSIZE) (len - n)
                    (acc @ mem_read (pmem s) (unat (pa0 + (srcva - va0))) n) s)
      else Ok (0, acc))"
  by pat_completeness auto
termination
  by (relation "measure (\<lambda>(pt, srcva, len, acc, s). len)")
     (auto simp: unat_page_rest simp del: PGSIZE_simp)

declare copyin_from.simps [simp del]

definition copyin :: "u64 \<Rightarrow> u64 \<Rightarrow> nat \<Rightarrow> phys \<Rightarrow> (c_int \<times> u8 list) res" where
  "copyin pt srcva len s = copyin_from pt srcva len [] s"

text \<open>The inner loop of \<^verbatim>\<open>copyinstr\<close>: the bytes stored and whether the NUL was met.\<close>

fun copyinstr_page :: "mem \<Rightarrow> nat \<Rightarrow> nat \<Rightarrow> u8 list \<times> bool" where
  "copyinstr_page m p 0 = ([], False)"
| "copyinstr_page m p (Suc n) =
     (if m p = 0 then ([0], True)
      else case copyinstr_page m (Suc p) n of (bs, got_null) \<Rightarrow> (m p # bs, got_null))"

function copyinstr_from :: "u64 \<Rightarrow> u64 \<Rightarrow> nat \<Rightarrow> u8 list \<Rightarrow> phys \<Rightarrow> (c_int \<times> u8 list) res" where
  "copyinstr_from pt srcva mx acc s =
     (if mx > 0 then
        let va0 = PGROUNDDOWN srcva
        in rbind (walkaddr pt va0 s) (\<lambda>pa0.
             if pa0 = 0 then Ok (- 1, acc)
             else
               let n = unat (PGSIZE - (srcva - va0));
                   n = (if n > mx then mx else n)
               in case copyinstr_page (pmem s) (unat (pa0 + (srcva - va0))) n of
                    (bs, got_null) \<Rightarrow>
                      if got_null then Ok (0, acc @ bs)
                      else copyinstr_from pt (va0 + PGSIZE) (mx - n) (acc @ bs) s)
      else Ok (- 1, acc))"
  by pat_completeness auto
termination
  by (relation "measure (\<lambda>(pt, srcva, mx, acc, s). mx)")
     (auto simp: unat_page_rest simp del: PGSIZE_simp)

declare copyinstr_from.simps [simp del]

definition copyinstr :: "u64 \<Rightarrow> u64 \<Rightarrow> nat \<Rightarrow> phys \<Rightarrow> (c_int \<times> u8 list) res" where
  "copyinstr pt srcva mx s = copyinstr_from pt srcva mx [] s"

section \<open>The kernel page table\<close>

definition UART0 :: u64 where "UART0 = 0x10000000"
definition VIRTIO0 :: u64 where "VIRTIO0 = 0x10001000"
definition PLIC :: u64 where "PLIC = 0x0c000000"

text \<open>
  \<^verbatim>\<open>proc_mapstacks()\<close> of \<^verbatim>\<open>kernel/proc.c\<close>: \<open>k\<close> processes remain, the next one has index \<open>i\<close>.
\<close>

fun proc_mapstacks_from :: "u64 \<Rightarrow> nat \<Rightarrow> nat \<Rightarrow> phys \<Rightarrow> phys res" where
  "proc_mapstacks_from kpgtbl i 0 s = Ok s"
| "proc_mapstacks_from kpgtbl i (Suc k) s =
     (case kalloc s of (pa, s) \<Rightarrow>
        if pa = 0 then Panic ''kalloc''
        else rbind (kvmmap kpgtbl (KSTACK (of_nat i)) pa PGSIZE (PTE_R OR PTE_W) s) (\<lambda>s.
          proc_mapstacks_from kpgtbl (Suc i) k s))"

definition proc_mapstacks :: "u64 \<Rightarrow> phys \<Rightarrow> phys res" where
  "proc_mapstacks kpgtbl s = proc_mapstacks_from kpgtbl 0 NPROC s"

text \<open>\<open>etext\<close> and \<open>trampoline\<close> are addresses the linker script and the assembly define.\<close>

definition kvmmake :: "u64 \<Rightarrow> u64 \<Rightarrow> phys \<Rightarrow> (u64 \<times> phys) res" where
  "kvmmake etext trampoline s =
     (case kalloc s of (kpgtbl, s) \<Rightarrow>
        let s = s\<lparr>pmem := memset (pmem s) (unat kpgtbl) 0 (ucast PGSIZE)\<rparr> in
        rbind (kvmmap kpgtbl UART0 UART0 PGSIZE (PTE_R OR PTE_W) s) (\<lambda>s.
        rbind (kvmmap kpgtbl VIRTIO0 VIRTIO0 PGSIZE (PTE_R OR PTE_W) s) (\<lambda>s.
        rbind (kvmmap kpgtbl PLIC PLIC 0x4000000 (PTE_R OR PTE_W) s) (\<lambda>s.
        rbind (kvmmap kpgtbl KERNBASE KERNBASE (etext - KERNBASE) (PTE_R OR PTE_X) s) (\<lambda>s.
        rbind (kvmmap kpgtbl etext etext (PHYSTOP - etext) (PTE_R OR PTE_W) s) (\<lambda>s.
        rbind (kvmmap kpgtbl TRAMPOLINE trampoline PGSIZE (PTE_R OR PTE_X) s) (\<lambda>s.
        rbind (kvmmap kpgtbl 0x100000 0x100000 PGSIZE (PTE_R OR PTE_W) s) (\<lambda>s.
        rbind (proc_mapstacks kpgtbl s) (\<lambda>s.
        Ok (kpgtbl, s))))))))))"

end
