(* ===== verification/Xv6_Page_Tables.thy ===== *)
theory Xv6_Page_Tables
  imports Xv6_Vm
begin

text \<open>
  The shape of the page tables in memory and what \<open>walk\<close> does to it. \<open>ltab\<close> is the level-0
  table on the path of an address and \<open>leaf\<close> the PTE found there (0 when a table is missing);
  \<open>leaf\<close> is the translation a table implements. \<open>tables\<close> are the pages the tables occupy and
  \<open>pt_wf\<close> says that they form a tree. The lemmas show that a walk that allocates changes no
  translation, that a store through the PTE it returns changes exactly one, and that nothing
  outside the tables matters.
\<close>

section \<open>PTE arithmetic\<close>

abbreviation valid :: "u64 \<Rightarrow> bool" where
  "valid e \<equiv> e AND PTE_V \<noteq> 0"

lemma and_flag: "e AND 2 ^ k \<noteq> 0 \<longleftrightarrow> bit (e :: u64) k"
proof
  assume "e AND 2 ^ k \<noteq> 0"
  then obtain n where "bit (e AND 2 ^ k) n"
    using bit_word_eqI [of "e AND 2 ^ k" 0] by auto
  then show "bit e k"
    by (auto simp: bit_simps)
next
  assume "bit e k"
  then have "bit (e AND 2 ^ k) k"
    using bit_imp_le_length [OF \<open>bit e k\<close>] by (auto simp: bit_simps)
  then show "e AND 2 ^ k \<noteq> 0"
    by auto
qed

lemma and_flag_0: "e AND 2 ^ k = 0 \<longleftrightarrow> \<not> bit (e :: u64) k"
  using and_flag [of e k] by argo

lemma PTE_powers:
  "PTE_V = 2 ^ 0" "PTE_R = 2 ^ 1" "PTE_W = 2 ^ 2" "PTE_X = 2 ^ 3" "PTE_U = 2 ^ 4"
  by (simp_all add: PTE_bits)

lemma pte_flag_bits:
  "e AND PTE_V = 0 \<longleftrightarrow> \<not> bit e 0" "e AND PTE_R = 0 \<longleftrightarrow> \<not> bit e 1" "e AND PTE_W = 0 \<longleftrightarrow> \<not> bit e 2"
  "e AND PTE_X = 0 \<longleftrightarrow> \<not> bit e 3" "e AND PTE_U = 0 \<longleftrightarrow> \<not> bit e 4"
  by (simp_all only: PTE_powers and_flag_0)

lemma flag_bits: "fl < 1024 \<Longrightarrow> bit fl n \<Longrightarrow> n < 10" for fl :: u64
proof -
  assume fl: "fl < 1024" and "bit fl n"
  have "take_bit 10 fl = fl"
    using fl by (simp add: take_bit_eq_mod word_less_nat_alt mod_less word_unat_eq_iff unat_mod)
  then show "n < 10"
    using \<open>bit fl n\<close> bit_take_bit_iff [of 10 fl n] by simp
qed

text \<open>A PTE built from a page address and flags gives both back.\<close>

lemma PTE2PA_PA2PTE:
  assumes "pg_aligned pa" and "fl < 1024"
  shows "PTE2PA (PA2PTE pa OR fl) = pa"
proof -
  have al: "pa = push_bit 12 (drop_bit 12 pa)"
    using assms(1) unfolding pg_aligned_unat
    by (simp only: word_unat_eq_iff unat_clear_low) auto
  have "PTE2PA (PA2PTE pa OR fl) = push_bit 12 (drop_bit 12 pa)"
    by (intro bit_word_eqI)
       (auto simp: PTE2PA_def PA2PTE_def bit_simps add.commute dest!: flag_bits [OF assms(2)])
  then show ?thesis
    using al by simp
qed

lemma PTE_FLAGS_PA2PTE:
  assumes "fl < 1024"
  shows "PTE_FLAGS (PA2PTE pa OR fl) = fl"
proof -
  have m: "(0x3FF :: u64) = mask 10"
    by (simp add: mask_eq_exp_minus_1)
  show ?thesis
    unfolding PTE_FLAGS_def m
    by (rule bit_word_eqI) (auto simp: PA2PTE_def bit_simps dest: flag_bits [OF assms])
qed

lemma bit_PA2PTE_low [simp]: "n < 10 \<Longrightarrow> \<not> bit (PA2PTE pa) n"
  by (simp add: PA2PTE_def bit_simps)

lemma pg_aligned_push_bit: "pg_aligned (push_bit 12 e)"
proof -
  have "push_bit 12 e = push_bit 12 (drop_bit 12 (push_bit 12 e))"
    by (intro bit_word_eqI) (auto simp: bit_simps)
  then have "unat (push_bit 12 e) = unat (push_bit 12 e) div 2 ^ 12 * 2 ^ 12"
    using unat_clear_low [of 12 "push_bit 12 e"] by simp
  then have "2 ^ 12 dvd unat (push_bit 12 e)"
    by (rule ssubst) (rule dvd_triv_right)
  then show ?thesis
    by (auto simp: pg_aligned_unat)
qed

lemma pg_aligned_PTE2PA [simp]: "pg_aligned (PTE2PA e)"
  by (simp add: PTE2PA_def pg_aligned_push_bit)

section \<open>Entries\<close>

definition idx :: "nat \<Rightarrow> u64 \<Rightarrow> nat" where
  "idx l va = unat (PX l va)"

definition entry :: "mem \<Rightarrow> u64 \<Rightarrow> nat \<Rightarrow> u64" where
  "entry m p i = load64 m (unat p + 8 * i)"

lemma idx_less [simp]: "idx l va < 512"
proof -
  have "PX l va \<le> 0x1FF"
    unfolding PX_def by (rule word_and_le1)
  then show ?thesis
    by (simp add: idx_def word_le_nat_alt)
qed

lemma pte_address:
  assumes "pg_aligned p"
  shows "unat (p + 8 * PX l va) = unat p + 8 * idx l va"
proof -
  obtain k where k: "unat p = 4096 * k"
    using assms by (rule pg_alignedE)
  have "4096 * k < 2 ^ 64"
    using unsigned_less [of p, where ?'a = nat] k by simp
  then have "4096 * k + 8 * idx l va < 2 ^ 64"
    using idx_less [of l va] by (simp; linarith)
  moreover have "unat (8 * PX l va) = 8 * idx l va"
    using idx_less [of l va] by (simp add: idx_def unat_word_ariths)
  ultimately show ?thesis
    using k by (simp add: unat_word_ariths(1))
qed

lemma entry_same_outside:
  assumes "same_outside ps m m'" and "\<forall>p\<in>ps. pg_aligned p" and "pg_aligned q" and "q \<notin> ps"
    and "i < 512"
  shows "entry m' q i = entry m q i"
  using load64_same_outside [OF assms(1-4), of "8 * i"] assms(5) by (simp add: entry_def)

lemma in_page_store:
  assumes "pg_aligned p" and "i < 512"
  shows "same_outside {p} m (store64 m (unat p + 8 * i) v)"
  using assms by (auto simp: same_outside_def in_page_def intro!: store64_outside)

lemma entry_store:
  assumes "pg_aligned p" and "pg_aligned q" and "i < 512" and "j < 512"
  shows "entry (store64 m (unat p + 8 * i) v) q j = (if p = q \<and> i = j then v else entry m q j)"
proof (cases "p = q")
  case True
  show ?thesis
  proof (cases "i = j")
    case False
    then have "8 * j + 8 \<le> 8 * i \<or> 8 * i + 8 \<le> 8 * j"
      by linarith
    then show ?thesis
      using True False by (auto simp: entry_def intro!: load64_store64_other)
  qed (simp add: True entry_def)
next
  case False
  then show ?thesis
    using entry_same_outside [OF in_page_store [OF assms(1,3)] _ assms(2) _ assms(4)] assms(1)
    by simp
qed

section \<open>The tree of tables\<close>

fun tables :: "nat \<Rightarrow> mem \<Rightarrow> u64 \<Rightarrow> u64 set" where
  "tables 0 m p = {p}"
| "tables (Suc l) m p = insert p
     (\<Union>i<512. if valid (entry m p i) then tables l m (PTE2PA (entry m p i)) else {})"

text \<open>The tables of levels 1 and 2: the ones a walk reads on its way.\<close>

fun inner :: "nat \<Rightarrow> mem \<Rightarrow> u64 \<Rightarrow> u64 set" where
  "inner 0 m p = {}"
| "inner (Suc l) m p = insert p
     (\<Union>i<512. if valid (entry m p i) then inner l m (PTE2PA (entry m p i)) else {})"

definition sub :: "nat \<Rightarrow> mem \<Rightarrow> u64 \<Rightarrow> nat \<Rightarrow> u64 set" where
  "sub l m p i = (if valid (entry m p i) then tables l m (PTE2PA (entry m p i)) else {})"

fun pt_wf :: "nat \<Rightarrow> mem \<Rightarrow> u64 \<Rightarrow> bool" where
  "pt_wf 0 m p \<longleftrightarrow> pg_aligned p \<and> p \<noteq> 0"
| "pt_wf (Suc l) m p \<longleftrightarrow> pg_aligned p \<and> p \<noteq> 0 \<and>
     (\<forall>i<512. valid (entry m p i) \<longrightarrow> pt_wf l m (PTE2PA (entry m p i))) \<and>
     (\<forall>i<512. p \<notin> sub l m p i) \<and>
     (\<forall>i<512. \<forall>j<512. i \<noteq> j \<longrightarrow> sub l m p i \<inter> sub l m p j = {})"

fun ltab :: "nat \<Rightarrow> mem \<Rightarrow> u64 \<Rightarrow> u64 \<Rightarrow> u64 option" where
  "ltab 0 m p va = Some p"
| "ltab (Suc l) m p va =
     (let e = entry m p (idx (Suc l) va)
      in if valid e then ltab l m (PTE2PA e) va else None)"

definition leaf :: "nat \<Rightarrow> mem \<Rightarrow> u64 \<Rightarrow> u64 \<Rightarrow> u64" where
  "leaf l m p va = (case ltab l m p va of None \<Rightarrow> 0 | Some t \<Rightarrow> entry m t (idx 0 va))"

lemma tables_sub: "tables (Suc l) m p = insert p (\<Union>i<512. sub l m p i)"
  by (simp add: sub_def)

lemma child_tables:
  "valid (entry m p i) \<Longrightarrow> i < 512 \<Longrightarrow> tables l m (PTE2PA (entry m p i)) \<subseteq> tables (Suc l) m p"
  unfolding tables_sub by (auto simp: sub_def)

lemma tables_root: "p \<in> tables l m p"
  by (cases l) auto

lemma inner_tables: "inner l m p \<subseteq> tables l m p"
  by (induction l arbitrary: p) fastforce+

lemma pt_wf_root: "pt_wf l m p \<Longrightarrow> pg_aligned p \<and> p \<noteq> 0"
  by (cases l) auto

lemma pt_wf_disj:
  "pt_wf (Suc l) m p \<Longrightarrow> x \<in> sub l m p i \<Longrightarrow> x \<in> sub l m p j \<Longrightarrow> i < 512 \<Longrightarrow> j < 512 \<Longrightarrow> i = j"
  unfolding pt_wf.simps by blast

lemma tables_aligned: "pt_wf l m p \<Longrightarrow> t \<in> tables l m p \<Longrightarrow> pg_aligned t \<and> t \<noteq> 0"
proof (induction l arbitrary: p)
  case 0
  then show ?case by simp
next
  case (Suc l)
  then consider "t = p" | i where "i < 512" "valid (entry m p i)" "t \<in> tables l m (PTE2PA (entry m p i))"
    by (auto split: if_splits)
  then show ?case
    using Suc by cases auto
qed

lemma finite_tables: "finite (tables l m p)"
  by (induction l arbitrary: p) auto

lemma ltab_tables: "ltab l m p va = Some t \<Longrightarrow> t \<in> tables l m p"
proof (induction l arbitrary: p)
  case 0
  then show ?case by simp
next
  case (Suc l)
  let ?e = "entry m p (idx (Suc l) va)"
  have "valid ?e" "t \<in> tables l m (PTE2PA ?e)"
    using Suc by (auto simp: Let_def split: if_splits)
  then have "t \<in> sub l m p (idx (Suc l) va)"
    by (simp add: sub_def)
  then show ?case
    unfolding tables_sub using idx_less by blast
qed

lemma ltab_not_inner: "pt_wf l m p \<Longrightarrow> ltab l m p va = Some t \<Longrightarrow> t \<notin> inner l m p"
proof (induction l arbitrary: p)
  case 0
  then show ?case by simp
next
  case (Suc l)
  let ?i = "idx (Suc l) va" and ?c = "\<lambda>i. PTE2PA (entry m p i)"
  have v: "valid (entry m p ?i)" and t: "ltab l m (?c ?i) va = Some t"
    using Suc.prems(2) by (auto simp: Let_def split: if_splits)
  have sub: "t \<in> sub l m p ?i"
    using ltab_tables [OF t] v by (simp add: sub_def)
  have "t \<noteq> p"
    using Suc.prems(1) sub idx_less [of "Suc l" va] by auto
  moreover have "t \<notin> inner l m (?c i)" if i: "i < 512" "valid (entry m p i)" for i
  proof (cases "i = ?i")
    case True
    then show ?thesis
      using Suc.IH [OF _ t] Suc.prems(1) v by simp
  next
    case False
    then have "sub l m p ?i \<inter> sub l m p i = {}"
      using Suc.prems(1) i(1) by simp
    then show ?thesis
      using sub i(2) inner_tables [of l m "?c i"] by (auto simp: sub_def)
  qed
  ultimately show ?case
    by auto
qed

text \<open>Two addresses that share the level-0 table share their path.\<close>

lemma ltab_inj:
  "pt_wf l m p \<Longrightarrow> ltab l m p va = Some t \<Longrightarrow> ltab l m p va' = Some t \<Longrightarrow> 0 < k \<Longrightarrow> k \<le> l \<Longrightarrow>
   idx k va = idx k va'"
proof (induction l arbitrary: p)
  case 0
  then show ?case by simp
next
  case (Suc l)
  let ?i = "idx (Suc l) va" and ?j = "idx (Suc l) va'"
  have v: "valid (entry m p ?i)" "valid (entry m p ?j)"
    and t: "ltab l m (PTE2PA (entry m p ?i)) va = Some t"
      "ltab l m (PTE2PA (entry m p ?j)) va' = Some t"
    using Suc.prems(2,3) by (auto simp: Let_def split: if_splits)
  have "t \<in> sub l m p ?i \<inter> sub l m p ?j"
    using ltab_tables [OF t(1)] ltab_tables [OF t(2)] v by (simp add: sub_def)
  then have eq: "?i = ?j"
    using pt_wf_disj [OF Suc.prems(1)] idx_less by blast
  show ?case
  proof (cases "k = Suc l")
    case True
    then show ?thesis
      using eq by simp
  next
    case False
    then show ?thesis
      using Suc.IH [OF _ t(1)] t(2) eq Suc.prems(1,4,5) v by simp
  qed
qed

text \<open>Memory outside the inner tables does not affect the tree.\<close>

lemma tree_frame:
  assumes "same_outside ps m m'" and "\<forall>p\<in>ps. pg_aligned p"
  shows "pt_wf l m p \<Longrightarrow> ps \<inter> inner l m p = {} \<Longrightarrow>
    tables l m' p = tables l m p \<and> inner l m' p = inner l m p \<and> pt_wf l m' p \<and>
    ltab l m' p = ltab l m p"
proof (induction l arbitrary: p)
  case 0
  then show ?case by (simp add: fun_eq_iff)
next
  case (Suc l)
  have e: "entry m' p i = entry m p i" if "i < 512" for i
    using entry_same_outside [OF assms] Suc.prems that by auto
  have sub: "tables l m' (PTE2PA (entry m p i)) = tables l m (PTE2PA (entry m p i)) \<and>
      inner l m' (PTE2PA (entry m p i)) = inner l m (PTE2PA (entry m p i)) \<and>
      pt_wf l m' (PTE2PA (entry m p i)) \<and>
      ltab l m' (PTE2PA (entry m p i)) = ltab l m (PTE2PA (entry m p i))"
    if "i < 512" "valid (entry m p i)" for i
    using Suc that by (intro Suc.IH) auto
  have subs: "sub l m' p i = sub l m p i" if "i < 512" for i
    using that e sub by (simp add: sub_def)
  have "tables (Suc l) m' p = tables (Suc l) m p"
    unfolding tables_sub using subs by auto
  moreover have "inner (Suc l) m' p = inner (Suc l) m p"
    using e sub by (auto split: if_splits)
  moreover have "pt_wf (Suc l) m' p"
    using Suc.prems e sub subs by simp
  moreover have "ltab (Suc l) m' p = ltab (Suc l) m p"
    using e sub by (simp add: fun_eq_iff Let_def)
  ultimately show ?case
    by blast
qed

declare tables.simps(2) [simp del]

lemma leaf_Suc:
  "leaf (Suc l) m p va =
     (let e = entry m p (idx (Suc l) va) in if valid e then leaf l m (PTE2PA e) va else 0)"
  by (simp add: leaf_def Let_def)

lemma leaf_frame:
  assumes "same_outside ps m m'" and "\<forall>p\<in>ps. pg_aligned p" and "pt_wf l m p"
    and "ps \<inter> tables l m p = {}"
  shows "leaf l m' p va = leaf l m p va"
proof -
  have "ltab l m' p = ltab l m p"
    using tree_frame [OF assms(1-3)] assms(4) inner_tables by blast
  moreover have "entry m' t (idx 0 va) = entry m t (idx 0 va)" if "ltab l m p va = Some t" for t
    using ltab_tables [OF that] tables_aligned [OF assms(3)] assms(4)
    by (intro entry_same_outside [OF assms(1,2)]) auto
  ultimately show ?thesis
    by (simp add: leaf_def split: option.split)
qed

lemma zero_table:
  assumes "\<forall>i<512. entry m q i = 0" and "pg_aligned q" and "q \<noteq> 0"
  shows "pt_wf l m q" and "tables l m q = {q}" and "leaf l m q va = 0"
proof -
  have z: "\<not> valid (entry m q i)" if "i < 512" for i
    using assms(1) that by simp
  show "pt_wf l m q" "tables l m q = {q}"
    using assms z by (cases l; simp add: tables_sub sub_def)+
  show "leaf l m q va = 0"
    using assms z [of "idx l va"] by (cases l) (simp_all add: leaf_def)
qed

text \<open>Replacing one child of a table, with everything else untouched.\<close>

lemma rebuild:
  assumes wf: "pt_wf (Suc l) m p" and frame: "same_outside ps m m'" "\<forall>q\<in>ps. pg_aligned q"
    and i: "i < 512" and other: "\<forall>j<512. j \<noteq> i \<longrightarrow> entry m' p j = entry m p j"
    and v: "valid (entry m' p i)" and c: "pt_wf l m' (PTE2PA (entry m' p i))"
    and T: "T = tables l m' (PTE2PA (entry m' p i))" "p \<notin> T"
    and disj: "\<forall>j<512. j \<noteq> i \<longrightarrow> sub l m p j \<inter> (ps \<union> T) = {}"
  shows "pt_wf (Suc l) m' p"
    and "tables (Suc l) m' p = insert p (T \<union> (\<Union>j\<in>{..<512} - {i}. sub l m p j))"
    and "idx (Suc l) va \<noteq> i \<Longrightarrow> leaf (Suc l) m' p va = leaf (Suc l) m p va"
proof -
  let ?c = "\<lambda>j. PTE2PA (entry m p j)"
  have child: "tables l m' (?c j) = tables l m (?c j)" "pt_wf l m' (?c j)"
      "leaf l m' (?c j) va = leaf l m (?c j) va"
    if "j < 512" "j \<noteq> i" "valid (entry m p j)" for j va
  proof -
    have "sub l m p j \<inter> (ps \<union> T) = {}"
      using disj that by blast
    then have d: "ps \<inter> tables l m (?c j) = {}"
      using that(3) by (auto simp: sub_def)
    have wfj: "pt_wf l m (?c j)"
      using wf that by simp
    have "ps \<inter> inner l m (?c j) = {}"
      using inner_tables d by blast
    then show "tables l m' (?c j) = tables l m (?c j)" "pt_wf l m' (?c j)"
      using tree_frame [OF frame wfj] by auto
    show "leaf l m' (?c j) va = leaf l m (?c j) va"
      by (rule leaf_frame [OF frame wfj d])
  qed
  have subj: "sub l m' p j = sub l m p j" if "j < 512" "j \<noteq> i" for j
    using that other child by (simp add: sub_def)
  have subi: "sub l m' p i = T"
    using v T by (simp add: sub_def)
  have "{..<512} = insert i ({..<512} - {i})"
    using i by auto
  then show "tables (Suc l) m' p = insert p (T \<union> (\<Union>j\<in>{..<512} - {i}. sub l m p j))"
    unfolding tables_sub using subi subj by auto
  have "pt_wf l m' (PTE2PA (entry m' p j))" if "j < 512" "valid (entry m' p j)" for j
    using that other child c by (cases "j = i") auto
  moreover have "p \<notin> sub l m' p j" if "j < 512" for j
    using that wf subi subj T by (cases "j = i") auto
  moreover have "sub l m' p j \<inter> sub l m' p k = {}" if "j < 512" "k < 512" "j \<noteq> k" for j k
  proof -
    consider "j = i" | "k = i" | "j \<noteq> i" "k \<noteq> i"
      by blast
    then show ?thesis
      using that subi subj disj wf by cases auto
  qed
  ultimately show "pt_wf (Suc l) m' p"
    using pt_wf_root [OF wf] by simp
  show "leaf (Suc l) m' p va = leaf (Suc l) m p va" if "idx (Suc l) va \<noteq> i"
    using that other child(3) by (simp add: leaf_Suc Let_def)
qed

section \<open>walk\<close>

lemma walk_level_no_alloc:
  "pt_wf l (pmem s) p \<Longrightarrow>
   walk_level l p va False s =
     (case ltab l (pmem s) p va of None \<Rightarrow> 0 | Some t \<Rightarrow> t + 8 * PX 0 va, s)"
proof (induction l arbitrary: p)
  case 0
  then show ?case by simp
next
  case (Suc l)
  have "load64 (pmem s) (unat (p + 8 * PX (Suc l) va)) = entry (pmem s) p (idx (Suc l) va)"
    using pte_address Suc.prems by (simp add: entry_def)
  then show ?case
    using Suc by (simp add: Let_def)
qed

definition pt_ok :: "nat \<Rightarrow> phys \<Rightarrow> u64 \<Rightarrow> u64 list \<Rightarrow> bool" where
  "pt_ok l s p fs \<longleftrightarrow>
     kmem_inv s fs \<and> pt_wf l (pmem s) p \<and> tables l (pmem s) p \<inter> set fs = {}"

text \<open>
  \<open>grown\<close>: the tables took the pages \<open>ns\<close> from the free list and translate as before.
\<close>

definition grown :: "nat \<Rightarrow> u64 \<Rightarrow> phys \<Rightarrow> u64 list \<Rightarrow> phys \<Rightarrow> u64 list \<Rightarrow> u64 list \<Rightarrow> bool" where
  "grown l p s fs s' ns fs' \<longleftrightarrow>
     fs = ns @ fs' \<and> pt_ok l s' p fs' \<and> kend s' = kend s \<and>
     same_outside (tables l (pmem s) p \<union> set ns) (pmem s) (pmem s') \<and>
     tables l (pmem s') p = tables l (pmem s) p \<union> set ns \<and>
     (\<forall>va. leaf l (pmem s') p va = leaf l (pmem s) p va)"

lemma same_outside_comp:
  "same_outside ps m m' \<Longrightarrow> same_outside qs m' m'' \<Longrightarrow> ps \<subseteq> rs \<Longrightarrow> qs \<subseteq> rs \<Longrightarrow> same_outside rs m m''"
  using same_outside_mono [OF same_outside_trans, of ps m m' qs m'' rs] by simp

lemma grown_refl: "pt_ok l s p fs \<Longrightarrow> grown l p s fs s [] fs"
  by (simp add: grown_def)

lemma grown_trans:
  "grown l p s fs s1 ns1 fs1 \<Longrightarrow> grown l p s1 fs1 s2 ns2 fs2 \<Longrightarrow> grown l p s fs s2 (ns1 @ ns2) fs2"
  by (auto simp: grown_def intro: same_outside_comp)

lemma kmem_inv_aligned: "kmem_inv s fs \<Longrightarrow> q \<in> set fs \<Longrightarrow> pg_aligned q \<and> q \<noteq> 0"
  by (auto simp: kmem_inv_def ram_page_def)

lemma grown_child:
  assumes ok: "pt_ok (Suc l) s p fs" and i: "i < 512" and v: "valid (entry (pmem s) p i)"
    and g: "grown l (PTE2PA (entry (pmem s) p i)) s fs s' ns fs'"
  shows "grown (Suc l) p s fs s' ns fs'" and "entry (pmem s') p i = entry (pmem s) p i"
proof -
  let ?m = "pmem s" and ?m' = "pmem s'" and ?c = "PTE2PA (entry (pmem s) p i)"
  let ?ps = "tables l ?m ?c \<union> set ns"
  have wf: "pt_wf (Suc l) ?m p" and p: "pg_aligned p" "p \<noteq> 0"
    using ok by (simp_all add: pt_ok_def)
  have c: "pt_wf l ?m ?c" and si: "sub l ?m p i = tables l ?m ?c"
    using wf v i by (simp_all add: sub_def)
  have fs: "fs = ns @ fs'" and T: "tables l ?m' ?c = ?ps" and frame: "same_outside ?ps ?m ?m'"
    and c': "pt_wf l ?m' ?c" "kmem_inv s' fs'" "kend s' = kend s"
    and lf: "\<And>va. leaf l ?m' ?c va = leaf l ?m ?c va"
    using g by (simp_all add: grown_def pt_ok_def)
  have al: "\<forall>q\<in>?ps. pg_aligned q"
    using tables_aligned [OF c] kmem_inv_aligned ok fs by (auto simp: pt_ok_def)
  have free: "tables (Suc l) ?m p \<inter> set fs = {}"
    using ok by (simp add: pt_ok_def)
  have "p \<notin> sub l ?m p i"
    using wf i by simp
  then have pps: "p \<notin> ?ps"
    using free fs si by (auto simp: tables_sub)
  then have e: "\<forall>j<512. entry ?m' p j = entry ?m p j"
    using entry_same_outside [OF frame al p(1)] by blast
  then show ei: "entry ?m' p i = entry ?m p i"
    using i by blast
  have disj: "\<forall>j<512. j \<noteq> i \<longrightarrow> sub l ?m p j \<inter> (?ps \<union> ?ps) = {}"
  proof (intro allI impI)
    fix j :: nat
    assume "j < 512" "j \<noteq> i"
    then have "sub l ?m p j \<inter> sub l ?m p i = {}" "sub l ?m p j \<inter> set fs = {}"
      using wf i free by (auto simp: tables_sub)
    then show "sub l ?m p j \<inter> (?ps \<union> ?ps) = {}"
      using si fs by auto
  qed
  have "\<forall>j<512. j \<noteq> i \<longrightarrow> entry ?m' p j = entry ?m p j" "valid (entry ?m' p i)"
    "pt_wf l ?m' (PTE2PA (entry ?m' p i))" "?ps = tables l ?m' (PTE2PA (entry ?m' p i))"
    using e v c' T ei by simp_all
  note rb = rebuild [OF wf frame al i this pps disj]
  have wf': "pt_wf (Suc l) ?m' p"
    by (rule rb(1))
  have "tables (Suc l) ?m' p = insert p (?ps \<union> (\<Union>j\<in>{..<512} - {i}. sub l ?m p j))"
    by (rule rb(2))
  also have "\<dots> = tables (Suc l) ?m p \<union> set ns"
    unfolding tables_sub using i si by auto
  finally have T': "tables (Suc l) ?m' p = tables (Suc l) ?m p \<union> set ns" .
  have leaf': "leaf (Suc l) ?m' p va = leaf (Suc l) ?m p va" for va
    using rb(3) ei v lf by (cases "idx (Suc l) va = i") (simp_all add: leaf_Suc Let_def)
  have frame': "same_outside (tables (Suc l) ?m p \<union> set ns) ?m ?m'"
    using frame by (rule same_outside_mono) (use si i in \<open>auto simp: tables_sub\<close>)
  have "distinct fs"
    using ok by (simp add: pt_ok_def kmem_inv_def)
  then have "tables (Suc l) ?m' p \<inter> set fs' = {}"
    using T' free fs by auto
  then show "grown (Suc l) p s fs s' ns fs'"
    using fs wf' T' leaf' frame' c' by (simp add: grown_def pt_ok_def)
qed

lemma valid_table_pte: "valid (PA2PTE q OR PTE_V)"
  by (simp add: pte_flag_bits bit_simps PTE_V_def)

lemma PTE2PA_table_pte: "pg_aligned q \<Longrightarrow> PTE2PA (PA2PTE q OR PTE_V) = q"
  by (rule PTE2PA_PA2PTE) (simp_all add: PTE_V_def)

text \<open>A missing table: \<open>walk\<close> takes a page, zeroes it and points the PTE at it.\<close>

lemma grown_fresh:
  assumes ok: "pt_ok (Suc l) s p (q # fs)" and i: "i < 512" and v: "\<not> valid (entry (pmem s) p i)"
    and k: "kalloc s = (q, s1)"
    and m': "m' = store64 (memset (pmem s1) (unat q) 0 (ucast PGSIZE)) (unat p + 8 * i)
                   (PA2PTE q OR PTE_V)"
  shows "grown (Suc l) p s (q # fs) (s1\<lparr>pmem := m'\<rparr>) [q] fs"
    and "entry m' p i = PA2PTE q OR PTE_V"
proof -
  let ?m = "pmem s" and ?m1 = "memset (pmem s1) (unat q) 0 (ucast PGSIZE)"
  have wf: "pt_wf (Suc l) ?m p" and p: "pg_aligned p" "p \<noteq> 0" and inv: "kmem_inv s (q # fs)"
    and free: "tables (Suc l) ?m p \<inter> set (q # fs) = {}"
    using ok by (simp_all add: pt_ok_def)
  have q: "pg_aligned q" "q \<noteq> 0" "q \<notin> set fs" "p \<noteq> q" "p \<notin> set fs"
    using inv free tables_root [of p "Suc l" ?m] kmem_inv_aligned [OF inv, of q]
    by (auto simp: kmem_inv_def)
  have s1: "kmem_inv s1 fs" "kend s1 = kend s" "same_outside {q} ?m (pmem s1)"
    using kalloc_Cons [OF inv] k by auto
  have z: "same_outside {q} (pmem s1) ?m1"
    by (simp add: same_outside_def memset_eq in_page_def)
  then have f1: "same_outside {q} ?m ?m1"
    using s1(3) same_outside_comp by blast
  have f2: "same_outside {p} ?m1 m'"
    unfolding m' using in_page_store p(1) i by blast
  have frame: "same_outside {p, q} ?m m'"
    using f1 f2 by (rule same_outside_comp) auto
  have al: "\<forall>x\<in>{p, q}. pg_aligned x"
    using p q by simp
  show ei: "entry m' p i = PA2PTE q OR PTE_V"
    using p i by (simp add: m' entry_store)
  have other: "\<forall>j<512. j \<noteq> i \<longrightarrow> entry m' p j = entry ?m p j"
    using entry_same_outside [OF f1 _ p(1)] p q i by (simp add: m' entry_store)
  have c: "PTE2PA (entry m' p i) = q"
    using ei q PTE2PA_table_pte by simp
  have "entry ?m1 q j = 0" if "j < 512" for j
    using that by (simp add: entry_def, intro bit_word_eqI) (auto simp: bit_load64 memset_eq)
  then have "\<forall>j<512. entry m' q j = 0"
    using p q i by (simp add: m' entry_store)
  note zero = zero_table [OF this q(1,2)]
  have disj: "\<forall>j<512. j \<noteq> i \<longrightarrow> sub l ?m p j \<inter> ({p, q} \<union> {q}) = {}"
    using wf free by (auto simp: tables_sub)
  have "valid (entry m' p i)" "pt_wf l m' (PTE2PA (entry m' p i))"
    "{q} = tables l m' (PTE2PA (entry m' p i))" "p \<notin> {q}"
    using ei c zero q(4) valid_table_pte by simp_all
  note rb = rebuild [OF wf frame al i other this disj]
  have "tables (Suc l) m' p = insert p ({q} \<union> (\<Union>j\<in>{..<512} - {i}. sub l ?m p j))"
    by (rule rb(2))
  also have "\<dots> = tables (Suc l) ?m p \<union> {q}"
    using v by (auto simp: tables_sub sub_def split: if_splits)
  finally have T': "tables (Suc l) m' p = tables (Suc l) ?m p \<union> {q}" .
  have leaf': "leaf (Suc l) m' p va = leaf (Suc l) ?m p va" for va
    using rb(3) ei v zero c by (cases "idx (Suc l) va = i") (simp_all add: leaf_Suc Let_def)
  have inv': "kmem_inv (s1\<lparr>pmem := m'\<rparr>) fs"
    using kmem_inv_same_outside [OF s1(1), of "{p, q}" "s1\<lparr>pmem := m'\<rparr>"]
      same_outside_comp [OF z f2, of "{p, q}"] p q by simp
  show "grown (Suc l) p s (q # fs) (s1\<lparr>pmem := m'\<rparr>) [q] fs"
    using T' leaf' rb(1) inv' s1(2) free q(3) frame tables_root [of p "Suc l" ?m]
    by (auto simp: grown_def pt_ok_def intro: same_outside_mono [OF frame])
qed

definition walked :: "nat \<Rightarrow> mem \<Rightarrow> u64 \<Rightarrow> u64 \<Rightarrow> u64 \<Rightarrow> u64 list \<Rightarrow> bool" where
  "walked l m p va pte fs \<longleftrightarrow>
     (if pte = 0 then fs = [] else \<exists>t. ltab l m p va = Some t \<and> pte = t + 8 * PX 0 va)"

definition walk_spec :: "nat \<Rightarrow> u64 \<Rightarrow> bool" where
  "walk_spec l va \<longleftrightarrow>
     (\<forall>p s fs. pt_ok l s p fs \<longrightarrow>
       (\<exists>pte s' ns fs'. walk_level l p va True s = (pte, s') \<and> grown l p s fs s' ns fs' \<and>
         walked l (pmem s') p va pte fs' \<and> length ns \<le> l))"

lemma walk_child:
  assumes "walk_spec l va" and ok: "pt_ok (Suc l) s p fs"
    and v: "valid (entry (pmem s) p (idx (Suc l) va))"
  shows "\<exists>pte s' ns fs'. walk_level l (PTE2PA (entry (pmem s) p (idx (Suc l) va))) va True s = (pte, s') \<and>
    grown (Suc l) p s fs s' ns fs' \<and> walked (Suc l) (pmem s') p va pte fs' \<and> length ns \<le> l"
proof -
  let ?c = "PTE2PA (entry (pmem s) p (idx (Suc l) va))"
  have "pt_ok l s ?c fs"
    using ok v child_tables [OF v idx_less, of l] by (auto simp: pt_ok_def)
  then obtain pte s' ns fs' where w: "walk_level l ?c va True s = (pte, s')"
    and g: "grown l ?c s fs s' ns fs'" and wd: "walked l (pmem s') ?c va pte fs'"
    and n: "length ns \<le> l"
    using assms(1) unfolding walk_spec_def by blast
  note gc = grown_child [OF ok idx_less v g]
  have "walked (Suc l) (pmem s') p va pte fs'"
    using wd gc(2) v by (auto simp: walked_def Let_def split: if_splits)
  then show ?thesis
    using w gc(1) n by blast
qed

lemma walk_missing:
  assumes spec: "walk_spec l va" and ok: "pt_ok (Suc l) s p (q # qs)"
    and v: "\<not> valid (entry (pmem s) p (idx (Suc l) va))"
  shows "\<exists>pte s' ns fs'. walk_level (Suc l) p va True s = (pte, s') \<and>
    grown (Suc l) p s (q # qs) s' ns fs' \<and> walked (Suc l) (pmem s') p va pte fs' \<and> length ns \<le> Suc l"
proof -
  let ?i = "idx (Suc l) va"
  have addr: "unat (p + 8 * PX (Suc l) va) = unat p + 8 * ?i"
    using ok pte_address by (simp add: pt_ok_def)
  obtain s1 where k: "kalloc s = (q, s1)" and q: "pg_aligned q" "q \<noteq> 0"
    using ok kalloc_Cons [of s q qs] kmem_inv_aligned [of s "q # qs" q] by (auto simp: pt_ok_def)
  let ?m = "store64 (memset (pmem s1) (unat q) 0 (ucast PGSIZE)) (unat p + 8 * ?i)
              (PA2PTE q OR PTE_V)"
  note fresh = grown_fresh [OF ok idx_less v k refl]
  have "pt_ok (Suc l) (s1\<lparr>pmem := ?m\<rparr>) p qs"
    using fresh(1) by (simp add: grown_def)
  from walk_child [OF spec this] obtain pte s' ns fs' where
    w: "walk_level l q va True (s1\<lparr>pmem := ?m\<rparr>) = (pte, s')"
    and g: "grown (Suc l) p (s1\<lparr>pmem := ?m\<rparr>) qs s' ns fs'"
    and wd: "walked (Suc l) (pmem s') p va pte fs'" and n: "length ns \<le> l"
    using fresh(2) valid_table_pte PTE2PA_table_pte [OF q(1)] by auto
  have "walk_level (Suc l) p va True s = (pte, s')"
    using v k q w addr by (simp add: entry_def Let_def)
  moreover have "length ([q] @ ns) \<le> Suc l"
    using n by simp
  ultimately show ?thesis
    using grown_trans [OF fresh(1) g] wd by blast
qed

lemma walk_spec: "walk_spec l va"
proof (induction l)
  case 0
  have "p + 8 * PX 0 va \<noteq> 0" if "pt_ok 0 s p fs" for p s fs
    using pte_address [of p 0 va] that by (auto simp: pt_ok_def word_unat_eq_iff)
  then show ?case
    by (auto simp: walk_spec_def walked_def intro!: exI grown_refl)
next
  case (Suc l)
  show ?case
    unfolding walk_spec_def
  proof (intro allI impI)
    fix p s fs
    assume ok: "pt_ok (Suc l) s p fs"
    have addr: "unat (p + 8 * PX (Suc l) va) = unat p + 8 * idx (Suc l) va"
      using ok pte_address by (simp add: pt_ok_def)
    show "\<exists>pte s' ns fs'. walk_level (Suc l) p va True s = (pte, s') \<and>
      grown (Suc l) p s fs s' ns fs' \<and> walked (Suc l) (pmem s') p va pte fs' \<and> length ns \<le> Suc l"
    proof (cases "valid (entry (pmem s) p (idx (Suc l) va))")
      case True
      then show ?thesis
        using walk_child [OF Suc ok] addr by (simp add: entry_def) (meson le_SucI)
    next
      case False
      show ?thesis
      proof (cases fs)
        case Nil
        then have "kalloc s = (0, s)"
          using ok kalloc_Nil by (simp add: pt_ok_def)
        then show ?thesis
          using False addr grown_refl [OF ok] Nil by (auto simp: entry_def Let_def walked_def)
      next
        case (Cons q qs)
        then show ?thesis
          using walk_missing [OF Suc _ False] ok by blast
      qed
    qed
  qed
qed

lemma walk_level_alloc:
  assumes "pt_ok l s p fs"
  obtains pte s' ns fs' where "walk_level l p va True s = (pte, s')" "grown l p s fs s' ns fs'"
    "walked l (pmem s') p va pte fs'" "length ns \<le> l"
  using walk_spec [of l va] assms unfolding walk_spec_def by blast

end
