(* ===== verification/Xv6_Address_Space.thy ===== *)
theory Xv6_Address_Space
  imports Xv6_Page_Tables
begin

text \<open>
  What the operations of \<^verbatim>\<open>kernel/vm.c\<close> do to address spaces. A root table \<open>p\<close> translates each
  address below \<^verbatim>\<open>MAXVA\<close> to the PTE \<open>leaf 2 m p va\<close>; \<open>mappages\<close>, \<open>uvmunmap\<close>, \<open>uvmalloc\<close> and the
  copying routines are described by what they do to that function and to the free list.
\<close>

section \<open>Indices and pages\<close>

lemma idx_eq: "idx l va = unat va div 2 ^ (12 + 9 * l) mod 512"
proof -
  have m: "(0x1FF :: u64) = mask 9"
    by (simp add: mask_eq_exp_minus_1)
  have "PX l va = take_bit 9 (drop_bit (12 + 9 * l) va)"
    by (simp only: PX_def m take_bit_eq_mask)
  then have "idx l va = take_bit 9 (drop_bit (12 + 9 * l) (unat va))"
    by (simp only: idx_def unsigned_take_bit_eq) (simp only: unat_drop_bit_eq)
  then show ?thesis
    by (simp add: take_bit_eq_mod drop_bit_eq_div)
qed

definition page :: "u64 \<Rightarrow> nat" where
  "page va = unat va div 4096"

definition same_path :: "nat \<Rightarrow> u64 \<Rightarrow> u64 \<Rightarrow> bool" where
  "same_path l va va' \<longleftrightarrow> (\<forall>k\<le>l. idx k va = idx k va')"

lemma same_path_page:
  assumes "va < MAXVA" and "va' < MAXVA"
  shows "same_path 2 va va' \<longleftrightarrow> page va = page va'"
proof -
  have i: "idx k x = page x div 512 ^ k mod 512" for k x
  proof -
    have "(2 :: nat) ^ (12 + 9 * k) = 4096 * 512 ^ k"
      by (simp add: power_add power_mult)
    then show ?thesis
      by (simp only: idx_eq page_def div_mult2_eq)
  qed
  have split: "page x = idx 0 x + 512 * idx 1 x + 262144 * idx 2 x" if "x < MAXVA" for x
  proof -
    have "page x < 67108864"
      using that by (simp add: page_def word_less_nat_alt)
    then have "page x div 262144 mod 512 = page x div 262144"
      by simp
    moreover have q: "page x div 262144 = page x div 512 div 512"
      using div_mult2_eq [of "page x" 512 512] by simp
    have "page x = page x mod 512 + 512 * (page x div 512 mod 512) + 262144 * (page x div 262144)"
      using mod_mult_div_eq [of "page x" 512] mod_mult_div_eq [of "page x div 512" 512]
      unfolding q by linarith
    ultimately show ?thesis
      by (simp add: i)
  qed
  show ?thesis
  proof
    assume "same_path 2 va va'"
    then show "page va = page va'"
      using split [OF assms(1)] split [OF assms(2)] by (simp add: same_path_def)
  next
    assume "page va = page va'"
    then show "same_path 2 va va'"
      by (simp add: same_path_def i)
  qed
qed

section \<open>A store through a walked PTE\<close>

lemma ltab_same_path: "same_path l va va' \<Longrightarrow> ltab l m p va = ltab l m p va'"
proof (induction l arbitrary: p)
  case 0
  then show ?case by simp
next
  case (Suc l)
  have "same_path l va va'" and "idx (Suc l) va = idx (Suc l) va'"
    using Suc.prems by (simp_all add: same_path_def)
  then show ?case
    using Suc.IH by (simp add: Let_def)
qed

lemma leaf_same_path: "same_path l va va' \<Longrightarrow> leaf l m p va = leaf l m p va'"
  using ltab_same_path [of l va va' m p] by (auto simp: leaf_def same_path_def split: option.split)

lemma leaf_store:
  assumes wf: "pt_wf l m p" and t: "ltab l m p va = Some t"
    and m': "m' = store64 m (unat t + 8 * idx 0 va) v"
  shows "pt_wf l m' p" and "tables l m' p = tables l m p" and "same_outside {t} m m'"
    and "leaf l m' p va' = (if same_path l va va' then v else leaf l m p va')"
    and "ltab l m' p = ltab l m p"
proof -
  have al: "pg_aligned t"
    using tables_aligned [OF wf ltab_tables [OF t]] by simp
  show frame: "same_outside {t} m m'"
    unfolding m' using in_page_store [OF al idx_less] .
  have "tables l m' p = tables l m p \<and> inner l m' p = inner l m p \<and> pt_wf l m' p \<and>
      ltab l m' p = ltab l m p"
    using tree_frame [OF frame _ wf] al ltab_not_inner [OF wf t] by simp
  then show "pt_wf l m' p" "tables l m' p = tables l m p" and lt: "ltab l m' p = ltab l m p"
    by simp_all
  show "leaf l m' p va' = (if same_path l va va' then v else leaf l m p va')"
  proof (cases "ltab l m p va'")
    case None
    then show ?thesis
      using t lt ltab_same_path [of l va va' m p] by (auto simp: leaf_def)
  next
    case (Some u)
    have u: "pg_aligned u"
      using tables_aligned [OF wf ltab_tables [OF Some]] by simp
    have "t = u \<and> idx 0 va = idx 0 va' \<longleftrightarrow> same_path l va va'"
    proof
      assume *: "t = u \<and> idx 0 va = idx 0 va'"
      then have "idx k va = idx k va'" if "k \<le> l" for k
        using ltab_inj [OF wf t, of va' k] Some that by (cases "k = 0") simp_all
      then show "same_path l va va'"
        by (simp add: same_path_def)
    next
      assume *: "same_path l va va'"
      then show "t = u \<and> idx 0 va = idx 0 va'"
        using ltab_same_path [OF *, of m p] t Some by (simp add: same_path_def)
    qed
    then show ?thesis
      using Some lt al u by (simp add: leaf_def m' entry_store)
  qed
qed

section \<open>mappages\<close>

text \<open>
  \<open>pt_ext\<close>: the tables of \<open>p\<close> took the pages \<open>ns\<close> from the free list, and memory changed in
  tables only.
\<close>

definition pt_ext :: "u64 \<Rightarrow> phys \<Rightarrow> u64 list \<Rightarrow> phys \<Rightarrow> u64 list \<Rightarrow> u64 list \<Rightarrow> bool" where
  "pt_ext p s fs s' ns fs' \<longleftrightarrow>
     fs = ns @ fs' \<and> pt_ok 2 s' p fs' \<and> kend s' = kend s \<and>
     same_outside (tables 2 (pmem s) p \<union> set ns) (pmem s) (pmem s') \<and>
     tables 2 (pmem s') p = tables 2 (pmem s) p \<union> set ns"

lemma grown_pt_ext: "grown 2 p s fs s' ns fs' \<Longrightarrow> pt_ext p s fs s' ns fs'"
  by (simp add: grown_def pt_ext_def)

lemma pt_ext_trans:
  "pt_ext p s fs s1 ns1 fs1 \<Longrightarrow> pt_ext p s1 fs1 s2 ns2 fs2 \<Longrightarrow> pt_ext p s fs s2 (ns1 @ ns2) fs2"
  by (auto simp: pt_ext_def intro: same_outside_comp)

lemma pt_ext_store:
  assumes "pt_ok 2 s p fs" and "ltab 2 (pmem s) p va = Some t"
  shows "pt_ext p s fs (s\<lparr>pmem := store64 (pmem s) (unat t + 8 * idx 0 va) v\<rparr>) [] fs"
proof -
  let ?s = "s\<lparr>pmem := store64 (pmem s) (unat t + 8 * idx 0 va) v\<rparr>"
  have wf: "pt_wf 2 (pmem s) p" and inv: "kmem_inv s fs" and d: "tables 2 (pmem s) p \<inter> set fs = {}"
    using assms(1) by (simp_all add: pt_ok_def)
  note st = leaf_store [OF wf assms(2) refl, of v]
  have t: "t \<in> tables 2 (pmem s) p" "pg_aligned t"
    using ltab_tables [OF assms(2)] tables_aligned [OF wf] by auto
  have "kmem_inv ?s fs"
    using kmem_inv_same_outside [OF inv, of "{t}" ?s] st(3) t d by auto
  then show ?thesis
    using st(1,2) d t by (auto simp: pt_ext_def pt_ok_def intro: same_outside_mono [OF st(3)])
qed

definition mapped_upto :: "mem \<Rightarrow> mem \<Rightarrow> u64 \<Rightarrow> u64 \<Rightarrow> nat \<Rightarrow> u64 \<Rightarrow> u64 \<Rightarrow> bool" where
  "mapped_upto m m' p a b pa perm \<longleftrightarrow>
     (\<forall>va<MAXVA. leaf 2 m' p va =
        (if unat a \<le> unat va \<and> unat va < b
         then PA2PTE (pa + (PGROUNDDOWN va - a)) OR perm OR PTE_V
         else leaf 2 m p va))"

lemma page_eq:
  assumes "pg_aligned a"
  shows "page a = page va \<longleftrightarrow> unat a \<le> unat va \<and> unat va < unat a + 4096"
proof -
  obtain k where k: "unat a = 4096 * k"
    using assms by (rule pg_alignedE)
  then have "page a = k"
    by (simp add: page_def)
  moreover have "k = unat va div 4096 \<longleftrightarrow> 4096 * k \<le> unat va \<and> unat va < 4096 * k + 4096"
    by linarith
  ultimately show ?thesis
    using k by (simp add: page_def)
qed

lemma PGROUNDDOWN_page:
  assumes "pg_aligned a" and "page a = page va"
  shows "PGROUNDDOWN va = a"
proof -
  obtain k where "unat a = 4096 * k"
    using assms(1) by (rule pg_alignedE)
  then show ?thesis
    using assms(2) by (simp add: word_unat_eq_iff unat_PGROUNDDOWN page_def)
qed

lemma walked_pte:
  assumes "pt_ok 2 s p fs" and "ltab 2 (pmem s) p va = Some t"
  shows "unat (t + 8 * PX 0 va) = unat t + 8 * idx 0 va"
    and "load64 (pmem s) (unat t + 8 * idx 0 va) = leaf 2 (pmem s) p va"
    and "t + 8 * PX 0 va \<noteq> 0"
proof -
  have t: "pg_aligned t" "t \<noteq> 0"
    using tables_aligned [OF _ ltab_tables [OF assms(2)]] assms(1) by (auto simp: pt_ok_def)
  then show "unat (t + 8 * PX 0 va) = unat t + 8 * idx 0 va"
    by (simp add: pte_address)
  then show "t + 8 * PX 0 va \<noteq> 0"
    using t(2) by (auto simp: word_unat_eq_iff)
  show "load64 (pmem s) (unat t + 8 * idx 0 va) = leaf 2 (pmem s) p va"
    using assms(2) by (simp add: leaf_def entry_def)
qed

text \<open>One round of the loop: the walk and the store of the PTE.\<close>

lemma map_one:
  assumes ok: "pt_ok 2 s p fs" and a: "a < MAXVA" "pg_aligned a"
    and un: "\<not> valid (leaf 2 (pmem s) p a)"
    and w: "walk_level 2 p a True s = (pte, s1)"
  shows "pte = 0 \<and> (\<exists>ns. grown 2 p s fs s1 ns [] \<and> length ns \<le> 2) \<or>
    pte \<noteq> 0 \<and> \<not> valid (load64 (pmem s1) (unat pte)) \<and>
    (\<exists>ns fs'. pt_ext p s fs (s1\<lparr>pmem := store64 (pmem s1) (unat pte) (PA2PTE pa OR perm OR PTE_V)\<rparr>) ns fs' \<and>
       length ns \<le> 2 \<and>
       mapped_upto (pmem s) (store64 (pmem s1) (unat pte) (PA2PTE pa OR perm OR PTE_V))
         p a (unat a + 4096) pa perm)"
proof -
  obtain ns fs1 where g: "grown 2 p s fs s1 ns fs1" and wd: "walked 2 (pmem s1) p a pte fs1"
    and n: "length ns \<le> 2"
    using walk_level_alloc [OF ok, of a] w by (metis prod.inject)
  show ?thesis
  proof (cases "pte = 0")
    case True
    then show ?thesis
      using g wd n by (auto simp: walked_def)
  next
    case False
    then obtain t where t: "ltab 2 (pmem s1) p a = Some t" and pte: "pte = t + 8 * PX 0 a"
      using wd by (auto simp: walked_def)
    have ok1: "pt_ok 2 s1 p fs1" and lf: "\<And>va. leaf 2 (pmem s1) p va = leaf 2 (pmem s) p va"
      using g by (simp_all add: grown_def)
    note wp = walked_pte [OF ok1 t]
    let ?v = "PA2PTE pa OR perm OR PTE_V"
    let ?m = "store64 (pmem s1) (unat pte) ?v"
    have "pt_ext p s fs (s1\<lparr>pmem := ?m\<rparr>) (ns @ []) fs1"
      using pt_ext_trans [OF grown_pt_ext [OF g] pt_ext_store [OF ok1 t, of ?v]] wp pte by simp
    moreover have "mapped_upto (pmem s) ?m p a (unat a + 4096) pa perm"
      unfolding mapped_upto_def
    proof (intro allI impI)
      fix va
      assume va: "va < MAXVA"
      have "pt_wf 2 (pmem s1) p"
        using ok1 by (simp add: pt_ok_def)
      then have "leaf 2 ?m p va = (if page a = page va then ?v else leaf 2 (pmem s) p va)"
        using leaf_store(4) [OF _ t, of ?m ?v va] wp pte same_path_page [OF a(1) va] lf by simp
      then show "leaf 2 ?m p va = (if unat a \<le> unat va \<and> unat va < unat a + 4096
          then PA2PTE (pa + (PGROUNDDOWN va - a)) OR perm OR PTE_V else leaf 2 (pmem s) p va)"
        using page_eq [OF a(2), of va] PGROUNDDOWN_page [OF a(2), of va] by auto
    qed
    ultimately show ?thesis
      using False un wp lf pte n by auto
  qed
qed

lemma unat_add_page: "unat a + 4096 < 2 ^ 64 \<Longrightarrow> unat (a + 4096 :: u64) = unat a + 4096"
  by (simp add: unat_word_ariths(1))

lemma pg_aligned_add:
  assumes "pg_aligned a" and "pg_aligned b"
  shows "pg_aligned (a + b)"
proof -
  have "unat (a + b) mod 4096 = (unat a + unat b) mod 2 ^ 64 mod 4096"
    by (simp add: unat_word_ariths(1))
  also have "\<dots> = (unat a + unat b) mod 4096"
    by (rule mod_mod_cancel) simp
  also have "\<dots> = 0"
    using assms unfolding pg_aligned_unat by (metis add.right_neutral mod_add_eq mod_0)
  finally show ?thesis
    by (simp only: pg_aligned_unat)
qed

lemma pg_aligned_add_page: "pg_aligned a \<Longrightarrow> pg_aligned (a + 4096)"
  by (rule pg_aligned_add) (simp_all add: pg_aligned_def)

lemma mapped_upto_step:
  assumes "mapped_upto m m1 p a (unat a + 4096) pa perm"
    and "mapped_upto m1 m2 p (a + 4096) b (pa + 4096) perm" and "unat a + 4096 \<le> b" and "a < MAXVA"
  shows "mapped_upto m m2 p a b pa perm"
proof -
  have a: "unat (a + 4096) = unat a + 4096"
    using page_step [of a] assms(4) by simp
  have "pa + 4096 + (x - (a + 4096)) = pa + (x - a)" for x :: u64
    by (simp add: algebra_simps)
  then show ?thesis
    using assms(1-3) a by (auto simp: mapped_upto_def)
qed

definition map_result ::
  "u64 \<Rightarrow> phys \<Rightarrow> u64 list \<Rightarrow> u64 \<Rightarrow> nat \<Rightarrow> u64 \<Rightarrow> u64 \<Rightarrow> c_int \<Rightarrow> phys \<Rightarrow> bool" where
  "map_result p s fs a e pa perm r s' \<longleftrightarrow>
     (\<exists>ns fs' b. pt_ext p s fs s' ns fs' \<and> mapped_upto (pmem s) (pmem s') p a b pa perm \<and>
        unat a \<le> b \<and> (r = 0 \<and> b = e \<or> r = - 1 \<and> fs' = [] \<and> b mod 4096 = 0 \<and> b < e))"

lemma mappages_from_ok:
  assumes "pt_ok 2 s p fs" and "pg_aligned a" and "pg_aligned lastpg" and "a \<le> lastpg"
    and "lastpg < MAXVA"
    and "\<forall>va<MAXVA. unat a \<le> unat va \<and> unat va < unat lastpg + 4096 \<longrightarrow> \<not> valid (leaf 2 (pmem s) p va)"
  shows "\<exists>r s'. mappages_from p a lastpg pa perm s = Ok (r, s') \<and>
    map_result p s fs a (unat lastpg + 4096) pa perm r s'"
  using assms
proof (induction p a lastpg pa perm s arbitrary: fs rule: mappages_from.induct)
  case (1 p a lastpg pa perm s)
  have a: "a < MAXVA" "unat a \<le> unat lastpg"
    using "1.prems"(4,5) by (auto simp: word_le_nat_alt [symmetric])
  obtain pte s1 where w: "walk_level 2 p a True s = (pte, s1)"
    by fastforce
  then have walk: "walk p a True s = Ok (pte, s1)"
    using a by (simp add: walk_def)
  have "\<not> valid (leaf 2 (pmem s) p a)"
    using "1.prems"(6) a by auto
  note one = map_one [OF "1.prems"(1) a(1) "1.prems"(2) this w, of pa perm]
  let ?s = "s1\<lparr>pmem := store64 (pmem s1) (unat pte) (PA2PTE pa OR perm OR PTE_V)\<rparr>"
  show ?case
  proof (cases "pte = 0")
    case True
    then obtain ns where g: "grown 2 p s fs s1 ns []"
      using one by blast
    have "mapped_upto (pmem s) (pmem s1) p a (unat a) pa perm"
      using g by (auto simp: mapped_upto_def grown_def)
    moreover have "unat a mod 4096 = 0"
      using "1.prems"(2) by (simp only: pg_aligned_unat)
    ultimately have "map_result p s fs a (unat lastpg + 4096) pa perm (- 1) s1"
      unfolding map_result_def using grown_pt_ext [OF g] a(2)
      by (intro exI [of _ ns] exI [of _ "[]"] exI [of _ "unat a"]) simp
    then show ?thesis
      using True walk by (simp add: mappages_from.simps [of p a])
  next
    case False
    then obtain ns fs1 where inv: "\<not> valid (load64 (pmem s1) (unat pte))"
      and e1: "pt_ext p s fs ?s ns fs1" and m1: "mapped_upto (pmem s) (pmem ?s) p a (unat a + 4096) pa perm"
      using one by auto
    show ?thesis
    proof (cases "a = lastpg")
      case True
      have "map_result p s fs a (unat lastpg + 4096) pa perm 0 ?s"
        unfolding map_result_def using e1 m1 True by auto
      moreover have "mappages_from p a lastpg pa perm s = Ok (0, ?s)"
        using True False walk inv by (subst mappages_from.simps) simp
      ultimately show ?thesis
        by blast
    next
      case neq: False
      have step: "unat (a + 4096) = unat a + 4096"
        using page_step [OF a(1)] by simp
      have al: "unat a mod 4096 = 0" "unat lastpg mod 4096 = 0"
        using "1.prems"(2,3) by (simp_all only: pg_aligned_unat)
      have le: "unat a + 4096 \<le> unat lastpg"
        using aligned_less [OF al] a(2) neq by (simp add: word_unat_eq_iff)
      have "\<exists>r s'. mappages_from p (a + PGSIZE) lastpg (pa + PGSIZE) perm ?s = Ok (r, s') \<and>
          map_result p ?s fs1 (a + PGSIZE) (unat lastpg + 4096) (pa + PGSIZE) perm r s'"
      proof (rule "1.IH" [OF walk refl False inv refl neq])
        show "pt_ok 2 ?s p fs1"
          using e1 by (simp add: pt_ext_def)
        show "pg_aligned (a + PGSIZE)"
          using "1.prems"(2) pg_aligned_add_page by simp
        show "\<forall>va<MAXVA. unat (a + PGSIZE) \<le> unat va \<and> unat va < unat lastpg + 4096 \<longrightarrow>
            \<not> valid (leaf 2 (pmem ?s) p va)"
          using m1 "1.prems"(6) step by (simp add: mapped_upto_def)
      qed (use "1.prems" step le in \<open>simp_all add: word_le_nat_alt\<close>)
      then obtain r s' where r: "mappages_from p (a + 4096) lastpg (pa + 4096) perm ?s = Ok (r, s')"
        and "map_result p ?s fs1 (a + 4096) (unat lastpg + 4096) (pa + 4096) perm r s'"
        by auto
      then obtain ns2 fs2 b where "pt_ext p ?s fs1 s' ns2 fs2"
        and "mapped_upto (pmem ?s) (pmem s') p (a + 4096) b (pa + 4096) perm"
        and "unat (a + 4096) \<le> b"
          "r = 0 \<and> b = unat lastpg + 4096 \<or> r = - 1 \<and> fs2 = [] \<and> b mod 4096 = 0 \<and> b < unat lastpg + 4096"
        by (auto simp: map_result_def)
      then have "map_result p s fs a (unat lastpg + 4096) pa perm r s'"
        unfolding map_result_def using pt_ext_trans [OF e1] mapped_upto_step [OF m1] step a(1)
        by (intro exI [of _ "ns @ ns2"] exI [of _ fs2] exI [of _ b]) auto
      then show ?thesis
        using r neq False walk inv by (simp add: mappages_from.simps [of p a])
    qed
  qed
qed

section \<open>Address spaces that own their pages\<close>

definition frame :: "mem \<Rightarrow> u64 \<Rightarrow> u64 \<Rightarrow> u64" where
  "frame m p va = PTE2PA (leaf 2 m p va)"

definition pages :: "u64 \<Rightarrow> nat \<Rightarrow> u64 set" where
  "pages a b = {x. pg_aligned x \<and> unat a \<le> unat x \<and> unat x < b}"

text \<open>
  \<open>umapped s p fs A\<close>: the table \<open>p\<close> maps every page of \<open>A\<close> to a page of RAM of its own, distinct
  from the others, from the pages of the table and from the free pages \<open>fs\<close>.
\<close>

definition umapped :: "phys \<Rightarrow> u64 \<Rightarrow> u64 list \<Rightarrow> u64 set \<Rightarrow> bool" where
  "umapped s p fs A \<longleftrightarrow> pt_ok 2 s p fs \<and>
     (\<forall>a\<in>A. pg_aligned a \<and> a < MAXVA \<and> valid (leaf 2 (pmem s) p a) \<and>
        PTE_FLAGS (leaf 2 (pmem s) p a) \<noteq> PTE_V \<and> ram_page s (frame (pmem s) p a)) \<and>
     inj_on (frame (pmem s) p) A \<and>
     frame (pmem s) p ` A \<inter> (tables 2 (pmem s) p \<union> set fs) = {}"

definition footprint :: "phys \<Rightarrow> u64 \<Rightarrow> u64 set \<Rightarrow> u64 set" where
  "footprint s p A = tables 2 (pmem s) p \<union> frame (pmem s) p ` A"

lemma valid_leaf_ltab:
  assumes "valid (leaf l m p va)"
  obtains t where "ltab l m p va = Some t"
  using assms by (cases "ltab l m p va") (auto simp: leaf_def)

lemma walk_no_alloc:
  assumes "pt_ok 2 s p fs" and "va < MAXVA"
  shows "walk p va False s =
    Ok (case ltab 2 (pmem s) p va of None \<Rightarrow> 0 | Some t \<Rightarrow> t + 8 * PX 0 va, s)"
  using walk_level_no_alloc [of 2 s p va] assms by (simp add: walk_def pt_ok_def)

lemma page_aligned_inj: "pg_aligned a \<Longrightarrow> pg_aligned b \<Longrightarrow> page a = page b \<Longrightarrow> a = b"
  using PGROUNDDOWN_page [of a b] PGROUNDDOWN_page [OF _ refl, of b] by argo

text \<open>Freeing the page behind one PTE and clearing the PTE.\<close>

definition unmapped_one :: "u64 \<Rightarrow> phys \<Rightarrow> u64 list \<Rightarrow> u64 set \<Rightarrow> u64 \<Rightarrow> phys \<Rightarrow> bool" where
  "unmapped_one p s fs A a s2 \<longleftrightarrow>
     umapped s2 p (frame (pmem s) p a # fs) (A - {a}) \<and> kend s2 = kend s \<and>
     tables 2 (pmem s2) p = tables 2 (pmem s) p \<and>
     same_outside (footprint s p {a}) (pmem s) (pmem s2) \<and>
     (\<forall>va<MAXVA. leaf 2 (pmem s2) p va = (if page a = page va then 0 else leaf 2 (pmem s) p va))"

lemma unmap_one:
  assumes u: "umapped s p fs A" and a: "a \<in> A" and t: "ltab 2 (pmem s) p a = Some t"
  shows "\<exists>s1. kfree (frame (pmem s) p a) s = Ok s1 \<and>
    unmapped_one p s fs A a (s1\<lparr>pmem := store64 (pmem s1) (unat (t + 8 * PX 0 a)) 0\<rparr>)"
proof -
  let ?m = "pmem s" and ?f = "frame (pmem s) p a"
  have ok: "pt_ok 2 s p fs" and inv: "kmem_inv s fs" and wf: "pt_wf 2 ?m p"
    and dj: "tables 2 ?m p \<inter> set fs = {}"
    using u by (simp_all add: umapped_def pt_ok_def)
  have f: "ram_page s ?f" "?f \<notin> set fs" "?f \<notin> tables 2 ?m p" and aM: "pg_aligned a" "a < MAXVA"
    using u a by (auto simp: umapped_def)
  obtain s1 where s1: "kfree ?f s = Ok s1" "kmem_inv s1 (?f # fs)" "kend s1 = kend s"
      "same_outside {?f} ?m (pmem s1)"
    using kfree_ok [OF inv f(1,2)] by blast
  have fal: "\<forall>x\<in>{?f}. pg_aligned x" "{?f} \<inter> tables 2 ?m p = {}" "{?f} \<inter> inner 2 ?m p = {}"
    using f ram_page_aligned inner_tables [of 2 ?m p] by auto
  have tr: "tables 2 (pmem s1) p = tables 2 ?m p" "pt_wf 2 (pmem s1) p" "ltab 2 (pmem s1) p = ltab 2 ?m p"
    using tree_frame [OF s1(4) fal(1) wf fal(3)] by simp_all
  have lf: "leaf 2 (pmem s1) p va = leaf 2 ?m p va" for va
    by (rule leaf_frame [OF s1(4) fal(1) wf fal(2)])
  have ok1: "pt_ok 2 s1 p (?f # fs)"
    using s1(2) tr dj f(3) by (simp add: pt_ok_def)
  have t1: "ltab 2 (pmem s1) p a = Some t"
    using t tr by simp
  note wp = walked_pte [OF ok1 t1]
  let ?s2 = "s1\<lparr>pmem := store64 (pmem s1) (unat (t + 8 * PX 0 a)) 0\<rparr>"
  have e: "pt_ext p s1 (?f # fs) ?s2 [] (?f # fs)"
    using pt_ext_store [OF ok1 t1, of 0] wp by simp
  then have T2: "tables 2 (pmem ?s2) p = tables 2 ?m p"
    using tr by (simp add: pt_ext_def)
  have lf2: "leaf 2 (pmem ?s2) p va = (if page a = page va then 0 else leaf 2 ?m p va)"
    if "va < MAXVA" for va
    using leaf_store(4) [OF tr(2) t1 refl, of 0 va] wp lf same_path_page [OF aM(2) that] by simp
  have fr2: "frame (pmem ?s2) p x = frame ?m p x \<and> leaf 2 (pmem ?s2) p x = leaf 2 ?m p x"
    if "x \<in> A - {a}" for x
    using lf2 [of x] page_aligned_inj [of a x] u a that by (auto simp: umapped_def frame_def)
  then have im: "frame (pmem ?s2) p ` (A - {a}) = frame ?m p ` (A - {a})"
    by (intro image_cong) auto
  have inj: "inj_on (frame ?m p) (A - {a})" "?f \<notin> frame ?m p ` (A - {a})"
    using u a by (auto simp: umapped_def inj_on_def)
  then have "inj_on (frame (pmem ?s2) p) (A - {a})"
    using fr2 by (metis (no_types, lifting) inj_on_cong)
  then have "umapped ?s2 p (?f # fs) (A - {a})"
    using u e im inj fr2 T2 s1(3) by (auto simp: umapped_def pt_ext_def ram_page_def)
  moreover have "same_outside (footprint s p {a}) ?m (pmem ?s2)"
    using s1(4) e tr(1)
    by (auto simp: pt_ext_def footprint_def intro: same_outside_comp)
  ultimately show ?thesis
    using s1 T2 lf2 by (auto simp: unmapped_one_def)
qed

lemma pages_step:
  assumes "pg_aligned a" and "a < MAXVA" and "unat a < b"
  shows "pages a b = insert a (pages (a + 4096) b)" and "a \<notin> pages (a + 4096) b"
proof -
  have step: "unat (a + 4096) = unat a + 4096"
    using page_step [of a] assms(2) by simp
  have "unat a \<le> unat x \<longleftrightarrow> x = a \<or> unat a + 4096 \<le> unat x" if "pg_aligned x" for x
  proof -
    have "unat a mod 4096 = 0" "unat x mod 4096 = 0"
      using assms(1) that by (simp_all only: pg_aligned_unat)
    then show ?thesis
      using aligned_less [of "unat a" "unat x"] by (auto simp: word_unat_eq_iff le_less)
  qed
  then show "pages a b = insert a (pages (a + 4096) b)" "a \<notin> pages (a + 4096) b"
    using assms step by (auto simp: pages_def)
qed

lemma pages_empty: "b \<le> unat a \<Longrightarrow> pages a b = {}"
  by (auto simp: pages_def)

lemma PGROUNDDOWN_eq: "pg_aligned a \<Longrightarrow> PGROUNDDOWN va = a \<longleftrightarrow> page a = page va"
proof
  assume "PGROUNDDOWN va = a"
  then show "page a = page va"
    by (auto simp: page_def unat_PGROUNDDOWN)
qed (rule PGROUNDDOWN_page)

definition unmap_result ::
  "u64 \<Rightarrow> phys \<Rightarrow> u64 list \<Rightarrow> u64 set \<Rightarrow> u64 set \<Rightarrow> phys \<Rightarrow> u64 list \<Rightarrow> bool" where
  "unmap_result p s fs A X s' fs' \<longleftrightarrow>
     umapped s' p fs' (A - X) \<and> kend s' = kend s \<and>
     tables 2 (pmem s') p = tables 2 (pmem s) p \<and>
     set fs' = set fs \<union> frame (pmem s) p ` X \<and>
     same_outside (footprint s p X) (pmem s) (pmem s') \<and>
     (\<forall>va<MAXVA. leaf 2 (pmem s') p va = (if PGROUNDDOWN va \<in> X then 0 else leaf 2 (pmem s) p va))"

lemma unmap_result_step:
  assumes u: "umapped s p fs A" and a: "a \<in> A" "a \<notin> X" "X \<subseteq> A"
    and one: "unmapped_one p s fs A a s1"
    and rest: "unmap_result p s1 (frame (pmem s) p a # fs) (A - {a}) X s' fs'"
  shows "unmap_result p s fs A (insert a X) s' fs'"
proof -
  note one = one [unfolded unmapped_one_def, THEN conjunct1] one [unfolded unmapped_one_def, THEN conjunct2]
  have al: "pg_aligned a"
    using u a by (simp add: umapped_def)
  have fr: "frame (pmem s1) p x = frame (pmem s) p x" if "x \<in> X" for x
  proof -
    have "x < MAXVA" "pg_aligned x" "x \<noteq> a"
      using that u a by (auto simp: umapped_def)
    then show ?thesis
      using one page_aligned_inj [OF al, of x] by (auto simp: frame_def)
  qed
  then have im: "frame (pmem s1) p ` X = frame (pmem s) p ` X"
    by (rule image_cong [OF refl])
  have "A - {a} - X = A - insert a X"
    by auto
  moreover have "same_outside (footprint s p (insert a X)) (pmem s) (pmem s')"
    using one rest im
    by (auto simp: unmap_result_def footprint_def intro: same_outside_comp)
  ultimately show ?thesis
    using rest one im PGROUNDDOWN_eq [OF al] by (auto simp: unmap_result_def)
qed

lemma unmap_result_refl: "umapped s p fs A \<Longrightarrow> unmap_result p s fs A {} s fs"
  by (simp add: unmap_result_def)

lemma uvmunmap_from_free:
  "umapped s p fs A \<Longrightarrow> pages a (unat lim) \<subseteq> A \<Longrightarrow> pg_aligned a \<Longrightarrow> lim \<le> MAXVA \<Longrightarrow>
   \<exists>s' fs'. uvmunmap_from p a lim True s = Ok s' \<and> unmap_result p s fs A (pages a (unat lim)) s' fs'"
proof (induction p a lim True s arbitrary: fs A rule: uvmunmap_from.induct)
  case (1 p a lim s)
  show ?case
  proof (cases "a < lim")
    case False
    then have "pages a (unat lim) = {}"
      by (intro pages_empty) (simp add: word_less_nat_alt not_less)
    then show ?thesis
      using False unmap_result_refl [OF "1.prems"(1)] by (auto simp: uvmunmap_from.simps [of p a])
  next
    case True
    then have aM: "a < MAXVA" and "unat a < unat lim"
      using "1.prems"(4) by (auto simp: word_less_nat_alt word_le_nat_alt)
    note step = pages_step [OF "1.prems"(3) this]
    have aA: "a \<in> A"
      using step "1.prems"(2) by blast
    have ok: "pt_ok 2 s p fs" and la: "valid (leaf 2 (pmem s) p a)" "PTE_FLAGS (leaf 2 (pmem s) p a) \<noteq> PTE_V"
      using "1.prems"(1) aA by (simp_all add: umapped_def)
    obtain t where t: "ltab 2 (pmem s) p a = Some t"
      using la(1) by (rule valid_leaf_ltab)
    let ?pte = "t + 8 * PX 0 a"
    have w: "walk p a False s = Ok (?pte, s)"
      using walk_no_alloc [OF ok aM] t by simp
    note wp = walked_pte [OF ok t]
    have e: "load64 (pmem s) (unat ?pte) = leaf 2 (pmem s) p a"
      using wp by simp
    obtain s1 where k: "kfree (frame (pmem s) p a) s = Ok s1"
      and one: "unmapped_one p s fs A a (s1\<lparr>pmem := store64 (pmem s1) (unat ?pte) 0\<rparr>)"
      using unmap_one [OF "1.prems"(1) aA t] by blast
    let ?s2 = "s1\<lparr>pmem := store64 (pmem s1) (unat ?pte) 0\<rparr>"
    have "\<exists>s' fs'. uvmunmap_from p (a + PGSIZE) lim True ?s2 = Ok s' \<and>
        unmap_result p ?s2 (frame (pmem s) p a # fs) (A - {a}) (pages (a + PGSIZE) (unat lim)) s' fs'"
    proof (rule "1.hyps" [OF True w refl wp(3) refl])
      show "umapped ?s2 p (frame (pmem s) p a # fs) (A - {a})"
        using one by (simp only: unmapped_one_def)
      show "pages (a + PGSIZE) (unat lim) \<subseteq> A - {a}"
        using step "1.prems"(2) by auto
    qed (use e la k "1.prems"(3,4) pg_aligned_add_page in \<open>simp_all add: frame_def\<close>)
    then obtain s' fs' where r: "uvmunmap_from p (a + 4096) lim True ?s2 = Ok s'"
        "unmap_result p ?s2 (frame (pmem s) p a # fs) (A - {a}) (pages (a + 4096) (unat lim)) s' fs'"
      by auto
    have sub: "pages (a + 4096) (unat lim) \<subseteq> A"
      using step "1.prems"(2) by auto
    have "unmap_result p s fs A (pages a (unat lim)) s' fs'"
      unfolding step(1) by (rule unmap_result_step [OF "1.prems"(1) aA step(2) sub one r(2)])
    moreover have "uvmunmap_from p a lim True s = Ok s'"
      using True w wp(3) e la k r(1) by (subst uvmunmap_from.simps) (simp add: frame_def)
    ultimately show ?thesis
      by blast
  qed
qed

section \<open>uvmalloc and uvmdealloc\<close>

lemma mappages_page:
  "pg_aligned a \<Longrightarrow> mappages p a PGSIZE pa perm s = mappages_from p a a pa perm s"
  by (simp add: mappages_def pg_aligned_def)

text \<open>Mapping one page that is not mapped yet.\<close>

lemma mappages_one:
  assumes "pt_ok 2 s p fs" and "pg_aligned a" and "a < MAXVA" and "\<not> valid (leaf 2 (pmem s) p a)"
  obtains s' ns fs' where "mappages p a PGSIZE pa perm s = Ok (0, s')" "pt_ext p s fs s' ns fs'"
      "\<forall>va<MAXVA. leaf 2 (pmem s') p va =
        (if PGROUNDDOWN va = a then PA2PTE pa OR perm OR PTE_V else leaf 2 (pmem s) p va)"
  | s' ns where "mappages p a PGSIZE pa perm s = Ok (- 1, s')" "pt_ext p s fs s' ns []"
      "\<forall>va<MAXVA. leaf 2 (pmem s') p va = leaf 2 (pmem s) p va"
proof -
  have "\<not> valid (leaf 2 (pmem s) p va)" if va: "va < MAXVA" "unat a \<le> unat va \<and> unat va < unat a + 4096" for va
    using leaf_same_path [of 2 a va "pmem s" p] same_path_page [OF assms(3) va(1)]
      page_eq [OF assms(2), of va] va(2) assms(4) by simp
  then obtain r s' where r: "mappages_from p a a pa perm s = Ok (r, s')"
    and "map_result p s fs a (unat a + 4096) pa perm r s'"
    using mappages_from_ok [OF assms(1,2,2) _ assms(3)] by blast
  then obtain ns fs' b where e: "pt_ext p s fs s' ns fs'"
    and mu: "mapped_upto (pmem s) (pmem s') p a b pa perm" and ab: "unat a \<le> b"
    and b: "r = 0 \<and> b = unat a + 4096 \<or> r = - 1 \<and> fs' = [] \<and> b mod 4096 = 0 \<and> b < unat a + 4096"
    by (auto simp: map_result_def)
  have rng: "unat a \<le> unat va \<and> unat va < unat a + 4096 \<longleftrightarrow> PGROUNDDOWN va = a" for va
    using page_eq [OF assms(2)] PGROUNDDOWN_eq [OF assms(2)] by simp
  from b show thesis
  proof
    assume *: "r = 0 \<and> b = unat a + 4096"
    then have "\<forall>va<MAXVA. leaf 2 (pmem s') p va =
        (if PGROUNDDOWN va = a then PA2PTE pa OR perm OR PTE_V else leaf 2 (pmem s) p va)"
      using mu rng by (auto simp: mapped_upto_def)
    then show thesis
      using that(1) [of s' ns fs'] * r e mappages_page [OF assms(2)] by simp
  next
    assume *: "r = - 1 \<and> fs' = [] \<and> b mod 4096 = 0 \<and> b < unat a + 4096"
    have "unat a mod 4096 = 0"
      using assms(2) by (simp only: pg_aligned_unat)
    then have "b = unat a"
      using aligned_less [of "unat a" b] * ab by fastforce
    then have "\<forall>va<MAXVA. leaf 2 (pmem s') p va = leaf 2 (pmem s) p va"
      using mu by (auto simp: mapped_upto_def)
    then show thesis
      using that(2) [of s' ns] * r e mappages_page [OF assms(2)] by simp
  qed
qed

text \<open>A mapping of one page needs at most two tables, so it succeeds when three pages are free.\<close>

lemma mappages_enough:
  assumes ok: "pt_ok 2 s p fs" and a: "pg_aligned a" "a < MAXVA" and un: "\<not> valid (leaf 2 (pmem s) p a)"
    and n: "2 < length fs"
  obtains s' ns fs' where "mappages p a PGSIZE pa perm s = Ok (0, s')" "pt_ext p s fs s' ns fs'"
      "length ns \<le> 2"
      "\<forall>va<MAXVA. leaf 2 (pmem s') p va =
        (if PGROUNDDOWN va = a then PA2PTE pa OR perm OR PTE_V else leaf 2 (pmem s) p va)"
proof -
  obtain pte s1 where w: "walk_level 2 p a True s = (pte, s1)"
    by fastforce
  let ?s = "s1\<lparr>pmem := store64 (pmem s1) (unat pte) (PA2PTE pa OR perm OR PTE_V)\<rparr>"
  note one = map_one [OF ok a(2,1) un w, of pa perm]
  have pte: "pte \<noteq> 0"
    using one n by (auto simp: grown_def)
  then obtain ns fs' where e: "\<not> valid (load64 (pmem s1) (unat pte))" "pt_ext p s fs ?s ns fs'" "length ns \<le> 2"
    and m: "mapped_upto (pmem s) (pmem ?s) p a (unat a + 4096) pa perm"
    using one by auto
  have "walk p a True s = Ok (pte, s1)"
    using w a(2) by (simp add: walk_def)
  then have "mappages p a PGSIZE pa perm s = Ok (0, ?s)"
    using pte e(1) mappages_page [OF a(1)] by (simp add: mappages_from.simps [of p a a])
  moreover have "unat a \<le> unat va \<and> unat va < unat a + 4096 \<longleftrightarrow> PGROUNDDOWN va = a" for va
    using page_eq [OF a(1)] PGROUNDDOWN_eq [OF a(1)] by simp
  then have "\<forall>va<MAXVA. leaf 2 (pmem ?s) p va =
      (if PGROUNDDOWN va = a then PA2PTE pa OR perm OR PTE_V else leaf 2 (pmem s) p va)"
    using m by (auto simp: mapped_upto_def)
  ultimately show thesis
    using that e(2,3) by blast
qed

lemma umapped_same:
  assumes u: "umapped s p fs A" and ok: "pt_ok 2 s' p fs'" and k: "kend s' = kend s"
    and lf: "\<forall>a\<in>A. leaf 2 (pmem s') p a = leaf 2 (pmem s) p a"
    and sub: "tables 2 (pmem s') p \<union> set fs' \<subseteq> tables 2 (pmem s) p \<union> set fs"
  shows "umapped s' p fs' A" and "frame (pmem s') p ` A = frame (pmem s) p ` A"
proof -
  have fr: "\<forall>a\<in>A. frame (pmem s') p a = frame (pmem s) p a"
    using lf by (simp add: frame_def)
  then show im: "frame (pmem s') p ` A = frame (pmem s) p ` A"
    by (intro image_cong) auto
  have "inj_on (frame (pmem s') p) A"
    using u fr by (auto simp: umapped_def inj_on_def)
  then show "umapped s' p fs' A"
    using u ok k lf sub fr im by (auto simp: umapped_def ram_page_def)
qed

text \<open>
  \<open>alloc_result p s fs A X perm s' fs'\<close>: the pages \<open>X\<close> have been added, zeroed and with the
  permissions \<open>perm\<close>; nothing that was mapped has changed, and no page of RAM is lost.
\<close>

definition ubyte :: "mem \<Rightarrow> u64 \<Rightarrow> u64 \<Rightarrow> u8" where
  "ubyte m p va = m (unat (frame m p va) + unat va mod 4096)"

definition alloc_result ::
  "u64 \<Rightarrow> phys \<Rightarrow> u64 list \<Rightarrow> u64 set \<Rightarrow> u64 set \<Rightarrow> u64 \<Rightarrow> phys \<Rightarrow> u64 list \<Rightarrow> bool" where
  "alloc_result p s fs A X perm s' fs' \<longleftrightarrow>
     umapped s' p fs' (A \<union> X) \<and> kend s' = kend s \<and>
     set fs' \<union> footprint s' p (A \<union> X) = set fs \<union> footprint s p A \<and>
     same_outside (tables 2 (pmem s) p \<union> set fs) (pmem s) (pmem s') \<and>
     (\<forall>va<MAXVA. if PGROUNDDOWN va \<in> X
        then ubyte (pmem s') p va = 0 \<and> PTE_FLAGS (leaf 2 (pmem s') p va) = perm OR PTE_V
        else leaf 2 (pmem s') p va = leaf 2 (pmem s) p va)"

text \<open>The state after \<^verbatim>\<open>kalloc\<close> returned \<open>q\<close> and the page was zeroed.\<close>

definition zeroed :: "u64 \<Rightarrow> phys \<Rightarrow> u64 \<Rightarrow> u64 list \<Rightarrow> u64 set \<Rightarrow> phys \<Rightarrow> bool" where
  "zeroed p s q qs A s2 \<longleftrightarrow>
     umapped s2 p qs A \<and> kend s2 = kend s \<and> same_outside {q} (pmem s) (pmem s2) \<and>
     tables 2 (pmem s2) p = tables 2 (pmem s) p \<and>
     (\<forall>va. leaf 2 (pmem s2) p va = leaf 2 (pmem s) p va) \<and> (\<forall>x. in_page q x \<longrightarrow> pmem s2 x = 0)"

lemma kalloc_zero:
  assumes u: "umapped s p (q # qs) A"
  obtains s1 where "kalloc s = (q, s1)"
    "zeroed p s q qs A (s1\<lparr>pmem := memset (pmem s1) (unat q) 0 (ucast PGSIZE)\<rparr>)"
proof -
  have ok: "pt_ok 2 s p (q # qs)" and inv: "kmem_inv s (q # qs)" and wf: "pt_wf 2 (pmem s) p"
    and d: "tables 2 (pmem s) p \<inter> set (q # qs) = {}"
    using u by (simp_all add: umapped_def pt_ok_def)
  obtain s1 where k: "kalloc s = (q, s1)" and s1: "kmem_inv s1 qs" "kend s1 = kend s"
      "same_outside {q} (pmem s) (pmem s1)"
    using kalloc_Cons [OF inv] by blast
  let ?s2 = "s1\<lparr>pmem := memset (pmem s1) (unat q) 0 (ucast PGSIZE)\<rparr>"
  have q: "pg_aligned q" "q \<notin> set qs"
    using inv kmem_inv_aligned [OF inv, of q] by (auto simp: kmem_inv_def)
  have z: "same_outside {q} (pmem s1) (pmem ?s2)"
    by (simp add: same_outside_def memset_eq in_page_def)
  have fr: "same_outside {q} (pmem s) (pmem ?s2)"
    using same_outside_comp [OF s1(3) z] by simp
  have i2: "kmem_inv ?s2 qs"
    using kmem_inv_same_outside [OF s1(1) z] q by simp
  have qd: "\<forall>x\<in>{q}. pg_aligned x" "{q} \<inter> tables 2 (pmem s) p = {}" "{q} \<inter> inner 2 (pmem s) p = {}"
    using q d inner_tables [of 2 "pmem s" p] by auto
  have T: "tables 2 (pmem ?s2) p = tables 2 (pmem s) p" "pt_wf 2 (pmem ?s2) p"
    using tree_frame [OF fr qd(1) wf qd(3)] by simp_all
  have lf: "\<forall>va. leaf 2 (pmem ?s2) p va = leaf 2 (pmem s) p va"
    using leaf_frame [OF fr qd(1) wf qd(2)] by blast
  have "pt_ok 2 ?s2 p qs"
    using T i2 d by (simp add: pt_ok_def)
  then have "umapped ?s2 p qs A"
    using umapped_same(1) [OF u, of ?s2 qs] lf T s1(2) by auto
  then show thesis
    using that [OF k] fr T lf s1(2) by (simp add: zeroed_def memset_eq in_page_def)
qed

end
