(* ===== verification/Xv6_Uvm.thy ===== *)
theory Xv6_Uvm
  imports Xv6_Address_Space
begin

text \<open>
  Growing, shrinking and freeing user memory (\<^verbatim>\<open>uvmalloc\<close>, \<^verbatim>\<open>uvmdealloc\<close>, \<^verbatim>\<open>uvmunmap\<close> of
  \<^verbatim>\<open>kernel/vm.c\<close>) on address spaces that own their pages.
\<close>

section \<open>Adding one page\<close>

lemma perm_flags:
  assumes "perm < 1024" and "bit perm 1"
  shows "perm OR PTE_V < 1024" and "perm OR PTE_V \<noteq> PTE_V" and "valid (PA2PTE q OR perm OR PTE_V)"
proof -
  have "take_bit 10 (perm OR PTE_V) = perm OR PTE_V"
    by (intro bit_word_eqI) (auto simp: bit_simps PTE_V_def dest: flag_bits [OF assms(1)])
  then have "(perm OR PTE_V) mod 1024 = perm OR PTE_V"
    by (simp add: take_bit_eq_mod)
  then have "unat (perm OR PTE_V) = unat ((perm OR PTE_V) mod 1024)"
    by (rule arg_cong [OF sym])
  also have "\<dots> = unat (perm OR PTE_V) mod 1024"
    by (simp add: unat_mod)
  also have "\<dots> < 1024"
    by simp
  finally show "perm OR PTE_V < 1024"
    by (simp add: word_less_nat_alt)
  show "perm OR PTE_V \<noteq> PTE_V"
  proof
    assume "perm OR PTE_V = PTE_V"
    then have "bit PTE_V 1"
      using assms(2) by (metis bit_or_iff)
    then show False
      by (simp add: PTE_V_def bit_simps)
  qed
  show "valid (PA2PTE q OR perm OR PTE_V)"
    unfolding pte_flag_bits by (simp add: bit_simps PTE_V_def)
qed

lemma add_page:
  assumes u: "umapped s p qs A" and q: "ram_page s q" "q \<notin> set qs" "q \<notin> footprint s p A"
    and e: "pt_ext p s qs s' ns fs'" and a: "pg_aligned a" "a < MAXVA" "a \<notin> A"
    and perm: "perm < 1024" "bit perm 1"
    and lf: "\<forall>va<MAXVA. leaf 2 (pmem s') p va =
        (if PGROUNDDOWN va = a then PA2PTE q OR perm OR PTE_V else leaf 2 (pmem s) p va)"
  shows "umapped s' p fs' (insert a A)" and "frame (pmem s') p a = q"
    and "PTE_FLAGS (leaf 2 (pmem s') p a) = perm OR PTE_V"
    and "frame (pmem s') p ` A = frame (pmem s) p ` A"
proof -
  note pf = perm_flags [OF perm]
  have rd: "PGROUNDDOWN x = x" if "pg_aligned x" for x
    using PGROUNDDOWN_page [OF that refl] .
  have la: "leaf 2 (pmem s') p a = PA2PTE q OR perm OR PTE_V"
    using lf a rd by simp
  have ql: "pg_aligned q"
    using q(1) by (rule ram_page_aligned)
  show fa: "frame (pmem s') p a = q"
    using PTE2PA_PA2PTE [OF ql pf(1)] la by (simp add: frame_def or.assoc)
  show fl: "PTE_FLAGS (leaf 2 (pmem s') p a) = perm OR PTE_V"
    using PTE_FLAGS_PA2PTE [OF pf(1)] la by (simp add: or.assoc)
  have "\<forall>x\<in>A. pg_aligned x \<and> x < MAXVA"
    using u by (simp add: umapped_def)
  then have lA: "\<forall>x\<in>A. leaf 2 (pmem s') p x = leaf 2 (pmem s) p x"
    using lf a(3) rd by metis
  have ok: "pt_ok 2 s' p fs'" and k: "kend s' = kend s" and qs: "qs = ns @ fs'"
    and T: "tables 2 (pmem s') p = tables 2 (pmem s) p \<union> set ns"
    using e by (simp_all add: pt_ext_def)
  have sub: "tables 2 (pmem s') p \<union> set fs' \<subseteq> tables 2 (pmem s) p \<union> set qs"
    using T qs by auto
  note us = umapped_same [OF u ok k lA sub]
  then show im: "frame (pmem s') p ` A = frame (pmem s) p ` A"
    by simp
  have qn: "q \<notin> tables 2 (pmem s') p \<union> set fs'" "q \<notin> frame (pmem s) p ` A"
    using q sub by (auto simp: footprint_def)
  have "inj_on (frame (pmem s') p) (insert a A)"
    using us(1) qn im fa a(3) by (auto simp: umapped_def)
  moreover have "ram_page s' q"
    using q(1) k by (simp add: ram_page_def)
  ultimately show "umapped s' p fs' (insert a A)"
    using us(1) a fa fl la pf qn(1) by (simp add: umapped_def)
qed

text \<open>The two outcomes of the body of the loop of \<^verbatim>\<open>uvmalloc\<close>.\<close>

lemma zeroedD:
  assumes "umapped s p (q # qs) A" and "zeroed p s q qs A s2"
  shows "ram_page s2 q" "q \<noteq> 0" "pg_aligned q" "q \<notin> set qs" "q \<notin> footprint s2 p A"
    and "footprint s2 p A = footprint s p A" "tables 2 (pmem s2) p = tables 2 (pmem s) p"
    and "kend s2 = kend s" "umapped s2 p qs A"
    and "leaf 2 (pmem s2) p va = leaf 2 (pmem s) p va" "in_page q x \<Longrightarrow> pmem s2 x = 0"
    and "same_outside {q} (pmem s) (pmem s2)"
proof -
  show 1: "tables 2 (pmem s2) p = tables 2 (pmem s) p" "kend s2 = kend s" "umapped s2 p qs A"
      "same_outside {q} (pmem s) (pmem s2)" "leaf 2 (pmem s2) p va = leaf 2 (pmem s) p va"
      "in_page q x \<Longrightarrow> pmem s2 x = 0"
    using assms(2) by (simp_all add: zeroed_def)
  show 2: "footprint s2 p A = footprint s p A"
    using assms(2) by (simp add: zeroed_def footprint_def frame_def)
  have "ram_page s q"
    using assms(1) by (simp add: umapped_def pt_ok_def kmem_inv_def)
  then show "ram_page s2 q" "pg_aligned q"
    using 1(2) by (auto simp: ram_page_def)
  show "q \<noteq> 0" "q \<notin> set qs" "q \<notin> footprint s2 p A"
    using assms(1) 2 by (auto simp: umapped_def pt_ok_def kmem_inv_def footprint_def)
qed

lemma in_page_frame: "in_page (frame m p va) (unat (frame m p va) + unat va mod 4096)"
  by (simp add: in_page_def)

lemma alloc_ok:
  assumes u: "umapped s p (q # qs) A" and z: "zeroed p s q qs A s2"
    and a: "pg_aligned a" "a < MAXVA" "a \<notin> A" and perm: "perm < 1024" "bit perm 1"
    and e: "pt_ext p s2 qs s3 ns fs3"
    and lf: "\<forall>va<MAXVA. leaf 2 (pmem s3) p va =
        (if PGROUNDDOWN va = a then PA2PTE q OR perm OR PTE_V else leaf 2 (pmem s2) p va)"
  shows "alloc_result p s (q # qs) A {a} perm s3 fs3"
proof -
  note zd = zeroedD [OF u z]
  note ap = add_page [OF zd(9) zd(1,4,5) e a perm lf]
  have T3: "tables 2 (pmem s3) p = tables 2 (pmem s) p \<union> set ns" and qs: "qs = ns @ fs3"
    and k3: "kend s3 = kend s" and so3: "same_outside (tables 2 (pmem s) p \<union> set ns) (pmem s2) (pmem s3)"
    using e zd by (simp_all add: pt_ext_def)
  have new: "ubyte (pmem s3) p va = 0 \<and> PTE_FLAGS (leaf 2 (pmem s3) p va) = perm OR PTE_V"
    if va: "va < MAXVA" "PGROUNDDOWN va = a" for va
  proof -
    have "leaf 2 (pmem s3) p va = leaf 2 (pmem s3) p a"
      using lf va a PGROUNDDOWN_page [OF a(1) refl] by simp
    then have fr: "frame (pmem s3) p va = q" "PTE_FLAGS (leaf 2 (pmem s3) p va) = perm OR PTE_V"
      using ap(2,3) by (simp_all add: frame_def)
    let ?x = "unat q + unat va mod 4096"
    have x: "in_page q ?x"
      by (simp add: in_page_def)
    have "\<not> in_page r ?x" if "r \<in> tables 2 (pmem s) p \<union> set ns" for r
    proof -
      have "pg_aligned r" "r \<noteq> q"
        using that u qs zd(4,5) zd(6) by (auto simp: umapped_def pt_ok_def kmem_inv_def
            footprint_def dest: tables_aligned)
      then show ?thesis
        using in_page_same [OF _ zd(3) _ x, of r] by blast
    qed
    then have "pmem s3 ?x = pmem s2 ?x"
      using so3 by (simp add: same_outside_def)
    then show ?thesis
      using fr zd(11) [OF x] by (simp add: ubyte_def)
  qed
  have "set fs3 \<union> footprint s3 p (insert a A) = set (q # qs) \<union> footprint s p A"
    using T3 qs ap zd(6,7) by (auto simp: footprint_def)
  moreover have "same_outside (tables 2 (pmem s) p \<union> set (q # qs)) (pmem s) (pmem s3)"
    using zd(12) so3 qs by (auto intro: same_outside_comp)
  ultimately show ?thesis
    using ap(1) k3 new lf zd(10) by (auto simp: alloc_result_def)
qed

lemma alloc_fail:
  assumes u: "umapped s p (q # qs) A" and z: "zeroed p s q qs A s2"
    and e: "pt_ext p s2 qs s3 ns []"
    and lf: "\<forall>va<MAXVA. leaf 2 (pmem s3) p va = leaf 2 (pmem s2) p va"
  shows "\<exists>s4. kfree q s3 = Ok s4 \<and> alloc_result p s (q # qs) A {} perm s4 [q]"
proof -
  note zd = zeroedD [OF u z]
  have T3: "tables 2 (pmem s3) p = tables 2 (pmem s) p \<union> set qs" and qs: "qs = ns"
    and k3: "kend s3 = kend s" and so3: "same_outside (tables 2 (pmem s) p \<union> set qs) (pmem s2) (pmem s3)"
    and ok3: "pt_ok 2 s3 p []"
    using e zd by (simp_all add: pt_ext_def)
  have lA: "\<forall>x\<in>A. leaf 2 (pmem s3) p x = leaf 2 (pmem s2) p x"
    using lf u by (simp add: umapped_def)
  have u3: "umapped s3 p [] A" and im: "frame (pmem s3) p ` A = frame (pmem s2) p ` A"
    using umapped_same [OF zd(9) ok3 _ lA] T3 k3 zd(7,8) by auto
  have inv3: "kmem_inv s3 []" and wf3: "pt_wf 2 (pmem s3) p"
    using ok3 by (simp_all add: pt_ok_def)
  have "ram_page s3 q"
    using zd(1,8) k3 by (simp add: ram_page_def)
  then obtain s4 where s4: "kfree q s3 = Ok s4" "kmem_inv s4 [q]" "kend s4 = kend s3"
      "same_outside {q} (pmem s3) (pmem s4)"
    using kfree_ok [OF inv3, of q] by auto
  have qT: "q \<notin> tables 2 (pmem s3) p"
    using T3 zd(4,5,6) by (auto simp: footprint_def)
  then have qd: "\<forall>x\<in>{q}. pg_aligned x" "{q} \<inter> tables 2 (pmem s3) p = {}" "{q} \<inter> inner 2 (pmem s3) p = {}"
    using zd(3) inner_tables [of 2 "pmem s3" p] by auto
  have T4: "tables 2 (pmem s4) p = tables 2 (pmem s3) p" "pt_wf 2 (pmem s4) p"
    using tree_frame [OF s4(4) qd(1) wf3 qd(3)] by simp_all
  have l4: "leaf 2 (pmem s4) p va = leaf 2 (pmem s3) p va" for va
    by (rule leaf_frame [OF s4(4) qd(1) wf3 qd(2)])
  have fr4: "frame (pmem s4) p = frame (pmem s3) p"
    using l4 by (simp add: frame_def fun_eq_iff)
  have "umapped s4 p [q] A"
    using u3 s4 T4 l4 fr4 im zd(5) qT
    by (auto simp: umapped_def pt_ok_def ram_page_def footprint_def)
  moreover have so13: "same_outside (tables 2 (pmem s) p \<union> set (q # qs)) (pmem s) (pmem s3)"
    by (rule same_outside_comp [OF zd(12) so3]) auto
  moreover have "set [q] \<union> footprint s4 p A = set (q # qs) \<union> footprint s p A"
    using T3 T4 fr4 im zd(6,7) by (auto simp: footprint_def)
  moreover have "same_outside (tables 2 (pmem s) p \<union> set (q # qs)) (pmem s) (pmem s4)"
    by (rule same_outside_comp [OF so13 s4(4)]) auto
  ultimately have "alloc_result p s (q # qs) A {} perm s4 [q]"
    using s4(3) k3 l4 lf zd(10) by (simp add: alloc_result_def)
  then show ?thesis
    using s4(1) by blast
qed

lemma alloc_one:
  assumes u: "umapped s p (q # qs) A" and a: "pg_aligned a" "a < MAXVA" "\<not> valid (leaf 2 (pmem s) p a)"
    and perm: "perm < 1024" "bit perm 1"
  obtains s1 s3 fs3 where "kalloc s = (q, s1)" "q \<noteq> 0"
      "mappages p a PGSIZE q perm (s1\<lparr>pmem := memset (pmem s1) (unat q) 0 (ucast PGSIZE)\<rparr>) = Ok (0, s3)"
      "alloc_result p s (q # qs) A {a} perm s3 fs3"
  | s1 s3 s4 where "kalloc s = (q, s1)" "q \<noteq> 0"
      "mappages p a PGSIZE q perm (s1\<lparr>pmem := memset (pmem s1) (unat q) 0 (ucast PGSIZE)\<rparr>) = Ok (- 1, s3)"
      "kfree q s3 = Ok s4" "alloc_result p s (q # qs) A {} perm s4 [q]"
proof -
  obtain s1 where k: "kalloc s = (q, s1)"
    and z: "zeroed p s q qs A (s1\<lparr>pmem := memset (pmem s1) (unat q) 0 (ucast PGSIZE)\<rparr>)"
    using kalloc_zero [OF u] by blast
  note zd = zeroedD [OF u z]
  have ok2: "pt_ok 2 (s1\<lparr>pmem := memset (pmem s1) (unat q) 0 (ucast PGSIZE)\<rparr>) p qs"
    using zd(9) by (simp add: umapped_def)
  have aA: "a \<notin> A"
    using u a(3) by (auto simp: umapped_def)
  have inv: "\<not> valid (leaf 2 (pmem (s1\<lparr>pmem := memset (pmem s1) (unat q) 0 (ucast PGSIZE)\<rparr>)) p a)"
    using a(3) by (simp only: zd(10) simp_thms)
  show thesis
    by (rule mappages_one [OF ok2 a(1,2) inv, of q perm])
      (use that(1) [OF k zd(2)] that(2) [OF k zd(2)] alloc_ok [OF u z a(1,2) aA perm]
        alloc_fail [OF u z] in blast)+
qed

section \<open>uvmdealloc\<close>

lemma PGROUNDUP_aligned:
  assumes "pg_aligned a"
  shows "PGROUNDUP a = a"
proof -
  obtain k where k: "unat a = 4096 * k"
    using assms by (rule pg_alignedE)
  have "4096 * k < 2 ^ 64"
    using unsigned_less [of a, where ?'a = nat] k by simp
  then have "unat a + 4095 < 2 ^ 64"
    using k by (simp; linarith)
  then have "unat (PGROUNDUP a) = unat a"
    using k by (simp add: unat_PGROUNDUP)
  then show ?thesis
    by (simp add: word_unat_eq_iff)
qed

lemma PGROUNDUP_bounds:
  assumes "a \<le> MAXVA"
  shows "unat a \<le> unat (PGROUNDUP a)" "unat (PGROUNDUP a) < unat a + 4096" "PGROUNDUP a \<le> MAXVA"
proof -
  have a: "unat a \<le> 4096 * 67108864"
    using assms by (simp add: word_le_nat_alt)
  then have u: "unat (PGROUNDUP a) = (unat a + 4095) div 4096 * 4096"
    by (intro unat_PGROUNDUP) simp
  have *: "unat a \<le> (unat a + 4095) div 4096 * 4096" "(unat a + 4095) div 4096 * 4096 < unat a + 4096"
    by linarith+
  then show "unat a \<le> unat (PGROUNDUP a)" "unat (PGROUNDUP a) < unat a + 4096"
    by (simp_all add: u)
  have "(unat a + 4095) div 4096 \<le> 67108864"
    using a by linarith
  then show "PGROUNDUP a \<le> MAXVA"
    by (simp add: word_le_nat_alt u)
qed

text \<open>The page count of \<^verbatim>\<open>uvmdealloc\<close> fits its \<^verbatim>\<open>int\<close>.\<close>

lemma npages_int:
  assumes "x \<le> MAXVA"
  shows "scast (ucast (x div 4096) :: c_int) = x div 4096"
proof -
  have "unat (x div 4096) \<le> 67108864"
    using assms by (simp add: word_le_nat_alt unat_div; linarith)
  then show ?thesis
    by (intro scast_ucast_small) simp
qed

lemma uvmdealloc_pages:
  assumes "umapped s p fs A" and "newsz < oldsz" and "oldsz \<le> MAXVA"
    and "pages (PGROUNDUP newsz) (unat (PGROUNDUP oldsz)) \<subseteq> A"
  shows "\<exists>s' fs'. uvmdealloc p oldsz newsz s = Ok (newsz, s') \<and>
    unmap_result p s fs A (pages (PGROUNDUP newsz) (unat (PGROUNDUP oldsz))) s' fs'"
proof (cases "PGROUNDUP newsz < PGROUNDUP oldsz")
  case True
  let ?n = "PGROUNDUP newsz" and ?o = "PGROUNDUP oldsz"
  have o: "?o \<le> MAXVA" and le: "?n \<le> ?o"
    using PGROUNDUP_bounds [OF assms(3)] True by simp_all
  obtain i j where ij: "unat ?n = 4096 * i" "unat ?o = 4096 * j"
    using pg_aligned_PGROUNDUP by (meson pg_alignedE)
  have sub: "unat (?o - ?n) = 4096 * (j - i)"
    using ij le by (simp add: unat_sub diff_mult_distrib2)
  then have "unat ((?o - ?n) div 4096) = j - i"
    by (simp add: unat_div)
  then have "(?o - ?n) div 4096 * 4096 = ?o - ?n"
    using sub unsigned_less [of "?o - ?n", where ?'a = nat]
    by (simp add: word_unat_eq_iff unat_word_ariths(2) mult.commute)
  moreover have "?o - ?n \<le> MAXVA"
    using sub ij o by (simp add: word_le_nat_alt)
  ultimately have "?n + scast (ucast ((?o - ?n) div 4096) :: c_int) * 4096 = ?o"
    by (simp add: npages_int)
  moreover have "?n mod 4096 = 0"
    using pg_aligned_PGROUNDUP [of newsz] by (simp add: pg_aligned_def)
  ultimately have "uvmdealloc p oldsz newsz s = rbind (uvmunmap_from p ?n ?o True s) (\<lambda>s. Ok (newsz, s))"
    using assms(2) [folded not_le] True by (simp add: uvmdealloc_def uvmunmap_def Let_def)
  then show ?thesis
    using uvmunmap_from_free [OF assms(1,4) pg_aligned_PGROUNDUP o] by auto
next
  case False
  then have "pages (PGROUNDUP newsz) (unat (PGROUNDUP oldsz)) = {}"
    by (intro pages_empty) (simp add: word_less_nat_alt)
  then show ?thesis
    using False assms(2) [folded not_le] unmap_result_refl [OF assms(1)] by (auto simp: uvmdealloc_def)
qed

section \<open>uvmalloc\<close>

lemma leaf_PGROUNDDOWN:
  assumes "va < MAXVA"
  shows "leaf 2 m p (PGROUNDDOWN va) = leaf 2 m p va"
proof -
  have "page (PGROUNDDOWN va) = page va"
    by (simp add: page_def unat_PGROUNDDOWN)
  moreover have "PGROUNDDOWN va < MAXVA"
    using assms div_times_less_eq_dividend [of "unat va" 4096]
    by (simp add: word_less_nat_alt unat_PGROUNDDOWN)
  ultimately show ?thesis
    using leaf_same_path same_path_page assms by blast
qed

lemma umapped_frame_disjoint:
  assumes u: "umapped s p fs A" and va: "PGROUNDDOWN va \<in> A" "va < MAXVA"
    and q: "q \<in> tables 2 (pmem s) p \<union> set fs"
  shows "\<not> in_page q (unat (frame (pmem s) p va) + unat va mod 4096)"
proof -
  have fr: "frame (pmem s) p va \<in> frame (pmem s) p ` A"
    using imageI [OF va(1), of "frame (pmem s) p"] leaf_PGROUNDDOWN [OF va(2)] by (simp add: frame_def)
  then have "q \<noteq> frame (pmem s) p va"
    using u q by (auto simp: umapped_def)
  moreover have "pg_aligned q" "pg_aligned (frame (pmem s) p va)"
    using u q by (auto simp: umapped_def pt_ok_def kmem_inv_def frame_def dest: tables_aligned)
  ultimately show ?thesis
    using in_page_same in_page_frame by blast
qed

lemma ubyte_same:
  assumes "umapped s p fs A" and "PGROUNDDOWN va \<in> A" "va < MAXVA"
    and "same_outside (tables 2 (pmem s) p \<union> set fs) (pmem s) m'"
    and "leaf 2 m' p va = leaf 2 (pmem s) p va"
  shows "ubyte m' p va = ubyte (pmem s) p va"
proof -
  have "frame m' p va = frame (pmem s) p va"
    using assms(5) by (simp add: frame_def)
  then show ?thesis
    using assms(4) umapped_frame_disjoint [OF assms(1-3)] by (simp add: ubyte_def same_outside_def)
qed

lemma set_shrink:
  "F1 \<union> (T1 \<union> (A \<union> X)) = F \<union> (T \<union> A) \<Longrightarrow> (A \<union> X) \<inter> (T1 \<union> F1) = {} \<Longrightarrow> A \<inter> X = {} \<Longrightarrow>
   T1 \<union> F1 \<union> X \<subseteq> T \<union> F"
  by blast

lemma alloc_resultD:
  assumes "alloc_result p s fs A X perm s1 fs1" and "A \<inter> X = {}"
  shows "\<And>x. x \<in> A \<Longrightarrow> frame (pmem s1) p x = frame (pmem s) p x"
    and "tables 2 (pmem s1) p \<union> set fs1 \<union> frame (pmem s1) p ` X \<subseteq> tables 2 (pmem s) p \<union> set fs"
proof -
  have u1: "umapped s1 p fs1 (A \<union> X)"
    and c1: "set fs1 \<union> footprint s1 p (A \<union> X) = set fs \<union> footprint s p A"
    using assms(1) by (simp_all add: alloc_result_def)
  show fr: "frame (pmem s1) p x = frame (pmem s) p x" if "x \<in> A" for x
  proof -
    have "x < MAXVA" "PGROUNDDOWN x = x" "x \<notin> X"
      using that u1 PGROUNDDOWN_page [OF _ refl] assms(2) by (auto simp: umapped_def)
    then show ?thesis
      using assms(1) by (auto simp: alloc_result_def frame_def)
  qed
  then have im: "frame (pmem s1) p ` A = frame (pmem s) p ` A"
    by (rule image_cong [OF refl])
  show "tables 2 (pmem s1) p \<union> set fs1 \<union> frame (pmem s1) p ` X \<subseteq> tables 2 (pmem s) p \<union> set fs"
  proof (rule set_shrink)
    show "set fs1 \<union> (tables 2 (pmem s1) p \<union> (frame (pmem s1) p ` A \<union> frame (pmem s1) p ` X)) =
        set fs \<union> (tables 2 (pmem s) p \<union> frame (pmem s1) p ` A)"
      using c1 im by (simp add: footprint_def image_Un)
    show "(frame (pmem s1) p ` A \<union> frame (pmem s1) p ` X) \<inter> (tables 2 (pmem s1) p \<union> set fs1) = {}"
      using u1 by (simp add: umapped_def image_Un)
    show "frame (pmem s1) p ` A \<inter> frame (pmem s1) p ` X = {}"
      using inj_on_image_Int [of "frame (pmem s1) p" "A \<union> X" A X] u1 assms(2)
      by (simp add: umapped_def)
  qed
qed

lemma alloc_result_trans:
  assumes 1: "alloc_result p s fs A X perm s1 fs1" and 2: "alloc_result p s1 fs1 (A \<union> X) Y perm s2 fs2"
    and d: "A \<inter> X = {}" "X \<inter> Y = {}"
  shows "alloc_result p s fs A (X \<union> Y) perm s2 fs2"
proof -
  have u1: "umapped s1 p fs1 (A \<union> X)"
    and l1: "\<And>va. va < MAXVA \<Longrightarrow> if PGROUNDDOWN va \<in> X
        then ubyte (pmem s1) p va = 0 \<and> PTE_FLAGS (leaf 2 (pmem s1) p va) = perm OR PTE_V
        else leaf 2 (pmem s1) p va = leaf 2 (pmem s) p va"
    using 1 by (simp_all add: alloc_result_def)
  have so1: "same_outside (tables 2 (pmem s) p \<union> set fs) (pmem s) (pmem s1)"
    using 1 by (simp add: alloc_result_def)
  have so2: "same_outside (tables 2 (pmem s1) p \<union> set fs1) (pmem s1) (pmem s2)"
    and l2: "\<And>va. va < MAXVA \<Longrightarrow> if PGROUNDDOWN va \<in> Y
        then ubyte (pmem s2) p va = 0 \<and> PTE_FLAGS (leaf 2 (pmem s2) p va) = perm OR PTE_V
        else leaf 2 (pmem s2) p va = leaf 2 (pmem s1) p va"
    using 2 by (simp_all add: alloc_result_def)
  have so: "same_outside (tables 2 (pmem s) p \<union> set fs) (pmem s) (pmem s2)"
    by (rule same_outside_comp [OF so1 so2]) (use alloc_resultD(2) [OF 1 d(1)] in auto)
  have "if PGROUNDDOWN va \<in> X \<union> Y
        then ubyte (pmem s2) p va = 0 \<and> PTE_FLAGS (leaf 2 (pmem s2) p va) = perm OR PTE_V
        else leaf 2 (pmem s2) p va = leaf 2 (pmem s) p va" if va: "va < MAXVA" for va
    using l1 [OF va] l2 [OF va] d(2) ubyte_same [OF u1 _ va so2] by (auto split: if_splits)
  then show ?thesis
    using 1 2 so by (simp add: alloc_result_def Un_assoc)
qed

text \<open>
  The failing path: \<^verbatim>\<open>uvmdealloc\<close> takes back the pages \<open>B\<close> added so far. A PTE that was not valid
  need not be restored bit by bit.
\<close>

definition same_pte :: "u64 \<Rightarrow> u64 \<Rightarrow> bool" where
  "same_pte e e' \<longleftrightarrow> e = e' \<or> \<not> valid e \<and> \<not> valid e'"

definition undo_result ::
  "u64 \<Rightarrow> phys \<Rightarrow> u64 list \<Rightarrow> u64 set \<Rightarrow> u64 set \<Rightarrow> phys \<Rightarrow> u64 list \<Rightarrow> bool" where
  "undo_result p s fs A B s' fs' \<longleftrightarrow>
     umapped s' p fs' A \<and> kend s' = kend s \<and>
     set fs' \<union> footprint s' p A = set fs \<union> footprint s p (A \<union> B) \<and>
     same_outside (tables 2 (pmem s) p \<union> set fs \<union> frame (pmem s) p ` B) (pmem s) (pmem s') \<and>
     (\<forall>va<MAXVA. if PGROUNDDOWN va \<in> B then \<not> valid (leaf 2 (pmem s') p va)
        else same_pte (leaf 2 (pmem s) p va) (leaf 2 (pmem s') p va))"

lemma unmap_undo:
  assumes "unmap_result p s fs (A \<union> B) B s' fs'" and "umapped s p fs (A \<union> B)" and "A \<inter> B = {}"
  shows "undo_result p s fs A B s' fs'"
proof -
  have eq: "A \<union> B - B = A"
    using assms(3) by auto
  have r: "umapped s' p fs' A" "kend s' = kend s" "tables 2 (pmem s') p = tables 2 (pmem s) p"
    "set fs' = set fs \<union> frame (pmem s) p ` B"
    "same_outside (footprint s p B) (pmem s) (pmem s')"
    "\<forall>va<MAXVA. leaf 2 (pmem s') p va = (if PGROUNDDOWN va \<in> B then 0 else leaf 2 (pmem s) p va)"
    using assms(1) unfolding unmap_result_def eq by blast+
  have "frame (pmem s') p ` A = frame (pmem s) p ` A"
  proof (rule image_cong [OF refl])
    fix x
    assume "x \<in> A"
    moreover from this have "x < MAXVA" "PGROUNDDOWN x = x"
      using assms(2) PGROUNDDOWN_page [OF _ refl] by (auto simp: umapped_def)
    ultimately show "frame (pmem s') p x = frame (pmem s) p x"
      using r(6) assms(3) by (auto simp: frame_def)
  qed
  then have "set fs' \<union> footprint s' p A = set fs \<union> footprint s p (A \<union> B)"
    using r(3,4) by (auto simp: footprint_def)
  moreover have "same_outside (tables 2 (pmem s) p \<union> set fs \<union> frame (pmem s) p ` B) (pmem s) (pmem s')"
    using r(5) by (rule same_outside_mono) (auto simp: footprint_def)
  ultimately show ?thesis
    using r by (auto simp: undo_result_def same_pte_def)
qed

lemma alloc_undo:
  assumes 1: "alloc_result p s fs (A \<union> B) X perm s1 fs1" and 2: "undo_result p s1 fs1 A (B \<union> X) s2 fs2"
    and d: "(A \<union> B) \<inter> X = {}" and un: "\<forall>x\<in>X. \<not> valid (leaf 2 (pmem s) p x)"
  shows "undo_result p s fs A B s2 fs2"
proof -
  note sh = alloc_resultD [OF 1 d]
  have c1: "set fs1 \<union> footprint s1 p (A \<union> B \<union> X) = set fs \<union> footprint s p (A \<union> B)"
    and l1: "\<forall>va<MAXVA. PGROUNDDOWN va \<notin> X \<longrightarrow> leaf 2 (pmem s1) p va = leaf 2 (pmem s) p va"
    using 1 by (simp_all add: alloc_result_def)
  have "frame (pmem s1) p ` B = frame (pmem s) p ` B"
    using sh(1) by (intro image_cong) auto
  then have fp: "tables 2 (pmem s1) p \<union> set fs1 \<union> frame (pmem s1) p ` (B \<union> X) \<subseteq>
      tables 2 (pmem s) p \<union> set fs \<union> frame (pmem s) p ` B"
    using sh(2) by auto
  have "same_outside (tables 2 (pmem s) p \<union> set fs) (pmem s) (pmem s1)"
    "same_outside (tables 2 (pmem s1) p \<union> set fs1 \<union> frame (pmem s1) p ` (B \<union> X)) (pmem s1) (pmem s2)"
    using 1 2 by (simp_all add: alloc_result_def undo_result_def)
  then have so: "same_outside (tables 2 (pmem s) p \<union> set fs \<union> frame (pmem s) p ` B) (pmem s) (pmem s2)"
    by (rule same_outside_comp [OF _ _ _ fp]) auto
  have "if PGROUNDDOWN va \<in> B then \<not> valid (leaf 2 (pmem s2) p va)
        else same_pte (leaf 2 (pmem s) p va) (leaf 2 (pmem s2) p va)" if va: "va < MAXVA" for va
  proof (cases "PGROUNDDOWN va \<in> X")
    case True
    then have "\<not> valid (leaf 2 (pmem s) p va)" "\<not> valid (leaf 2 (pmem s2) p va)"
      using un leaf_PGROUNDDOWN [OF va] 2 va by (auto simp: undo_result_def)
    then show ?thesis
      by (simp add: same_pte_def)
  next
    case False
    moreover have "if PGROUNDDOWN va \<in> B \<union> X then \<not> valid (leaf 2 (pmem s2) p va)
        else same_pte (leaf 2 (pmem s1) p va) (leaf 2 (pmem s2) p va)"
      using 2 va unfolding undo_result_def by blast
    ultimately show ?thesis
      using l1 va by (auto split: if_splits)
  qed
  then show ?thesis
    using 1 2 so c1 by (simp add: undo_result_def alloc_result_def Un_assoc)
qed

lemma kalloc_none: "umapped s p [] A \<Longrightarrow> kalloc s = (0, s)"
  by (rule kalloc_Nil) (simp add: umapped_def pt_ok_def)

lemma dealloc_undo:
  assumes "umapped s p fs (A \<union> pages b (unat a))" and "A \<inter> pages b (unat a) = {}"
    and "pg_aligned a" "pg_aligned b" and "b \<le> a" "a \<le> MAXVA"
  shows "\<exists>r s' fs'. uvmdealloc p a b s = Ok (r, s') \<and> undo_result p s fs A (pages b (unat a)) s' fs'"
proof (cases "b = a")
  case True
  have "umapped s p fs A"
    using assms(1) True pages_empty [of "unat a" a] by simp
  then have "undo_result p s fs A (pages b (unat a)) s fs"
    using True pages_empty [of "unat a" a] by (simp add: undo_result_def same_pte_def)
  then show ?thesis
    using True by (auto simp: uvmdealloc_def)
next
  case False
  then have "b < a"
    using assms(5) by simp
  moreover have "pages (PGROUNDUP b) (unat (PGROUNDUP a)) = pages b (unat a)"
    using assms(3,4) by (simp add: PGROUNDUP_aligned)
  ultimately obtain s' fs' where "uvmdealloc p a b s = Ok (b, s')"
    and r: "unmap_result p s fs (A \<union> pages b (unat a)) (pages b (unat a)) s' fs'"
    using uvmdealloc_pages [OF assms(1), of b a] assms(6) by auto
  then show ?thesis
    using unmap_undo [OF r assms(1,2)] by blast
qed

definition grow_result ::
  "u64 \<Rightarrow> phys \<Rightarrow> u64 list \<Rightarrow> u64 set \<Rightarrow> u64 set \<Rightarrow> u64 set \<Rightarrow> u64 \<Rightarrow> u64 \<Rightarrow> u64 \<Rightarrow> phys \<Rightarrow> bool" where
  "grow_result p s fs A B X newsz perm r s' \<longleftrightarrow>
     (\<exists>fs'. r = newsz \<and> alloc_result p s fs (A \<union> B) X perm s' fs' \<or>
            r = 0 \<and> undo_result p s fs A B s' fs')"

lemma grow_result_step:
  assumes 1: "alloc_result p s fs (A \<union> B) {a} perm s1 fs1"
    and g: "grow_result p s1 fs1 A (insert a B) X newsz perm r s'"
    and d: "a \<notin> A \<union> B" "a \<notin> X" and un: "\<not> valid (leaf 2 (pmem s) p a)"
  shows "grow_result p s fs A B (insert a X) newsz perm r s'"
proof -
  obtain fs' where "r = newsz \<and> alloc_result p s1 fs1 (A \<union> insert a B) X perm s' fs' \<or>
      r = 0 \<and> undo_result p s1 fs1 A (insert a B) s' fs'"
    using g unfolding grow_result_def by blast
  then show ?thesis
  proof
    assume *: "r = newsz \<and> alloc_result p s1 fs1 (A \<union> insert a B) X perm s' fs'"
    then have "alloc_result p s1 fs1 (A \<union> B \<union> {a}) X perm s' fs'"
      by simp
    then have "alloc_result p s fs (A \<union> B) ({a} \<union> X) perm s' fs'"
      by (rule alloc_result_trans [OF 1]) (use d in auto)
    then show ?thesis
      using * unfolding grow_result_def by auto
  next
    assume *: "r = 0 \<and> undo_result p s1 fs1 A (insert a B) s' fs'"
    then have "undo_result p s1 fs1 A (B \<union> {a}) s' fs'"
      by simp
    then have "undo_result p s fs A B s' fs'"
      by (rule alloc_undo [OF 1]) (use d un in auto)
    then show ?thesis
      using * unfolding grow_result_def by auto
  qed
qed

lemma pages_extend:
  assumes "pg_aligned a" "a < MAXVA" "unat b \<le> unat a" "pg_aligned b"
  shows "pages b (unat (a + 4096)) = insert a (pages b (unat a))"
proof -
  have step: "unat (a + 4096) = unat a + 4096"
    using page_step [of a] assms(2) by simp
  have "unat x < unat a + 4096 \<longleftrightarrow> x = a \<or> unat x < unat a" if "pg_aligned x" for x
  proof -
    have "unat a mod 4096 = 0" "unat x mod 4096 = 0"
      using assms(1) that by (simp_all only: pg_aligned_unat)
    then show ?thesis
      using aligned_less [of "unat a" "unat x"]
      by (cases "unat a < unat x") (auto simp: word_unat_eq_iff)
  qed
  then show ?thesis
    using assms step by (auto simp: pages_def)
qed

lemma uvmalloc_from_ok:
  assumes "umapped s p fs (A \<union> pages b (unat a))" and "A \<inter> pages b (unat newsz) = {}"
    and "pg_aligned a" "pg_aligned b" "b \<le> a" "newsz \<le> MAXVA"
    and "\<forall>x\<in>pages a (unat newsz). \<not> valid (leaf 2 (pmem s) p x)"
    and "PTE_R OR PTE_U OR xperm < 1024"
  shows "\<exists>r s'. uvmalloc_from p a b newsz xperm s = Ok (r, s') \<and>
    grow_result p s fs A (pages b (unat a)) (pages a (unat newsz)) newsz (PTE_R OR PTE_U OR xperm) r s'"
  using assms
proof (induction p a b newsz xperm s arbitrary: fs rule: uvmalloc_from.induct)
  case (1 p a b newsz xperm s)
  let ?perm = "PTE_R OR PTE_U OR xperm" and ?B = "pages b (unat a)"
  have perm: "?perm < 1024" "bit ?perm 1"
    using "1.prems"(8) by (simp_all add: bit_simps PTE_R_def)
  show ?case
  proof (cases "a < newsz")
    case False
    then have "pages a (unat newsz) = {}"
      by (intro pages_empty) (simp add: word_less_nat_alt)
    then have "alloc_result p s fs (A \<union> ?B) (pages a (unat newsz)) ?perm s fs"
      using "1.prems"(1) by (simp add: alloc_result_def)
    then show ?thesis
      using False by (auto simp: uvmalloc_from.simps [of p a] grow_result_def)
  next
    case True
    then have aM: "a < MAXVA" and an: "unat a < unat newsz"
      using "1.prems"(6) by (auto simp: word_less_nat_alt word_le_nat_alt)
    note step = pages_step [OF "1.prems"(3) aM an]
    have un: "\<not> valid (leaf 2 (pmem s) p a)"
      using "1.prems"(7) step(1) by simp
    have later: "\<forall>x\<in>pages (a + 4096) (unat newsz).
        \<not> valid (leaf 2 (pmem s) p x) \<and> x < MAXVA \<and> PGROUNDDOWN x = x \<and> x \<noteq> a"
      using "1.prems"(6,7) step PGROUNDDOWN_page [OF _ refl]
      by (auto simp: pages_def word_less_nat_alt word_le_nat_alt)
    have ba: "unat b \<le> unat a"
      using "1.prems"(5) by (simp add: word_le_nat_alt)
    have sub: "?B \<subseteq> pages b (unat newsz)"
      using an by (auto simp: pages_def)
    then have dB: "A \<inter> ?B = {}"
      using "1.prems"(2) by blast
    have aB: "a \<notin> A \<union> ?B"
      using "1.prems"(1) un by (auto simp: umapped_def)
    have undo: "\<exists>r s' fs'. uvmdealloc p a b t = Ok (r, s') \<and> undo_result p t gs A ?B s' fs'"
      if "umapped t p gs (A \<union> ?B)" for t gs
      using dealloc_undo [OF that dB "1.prems"(3-5)] aM by (simp add: order_less_imp_le)
    show ?thesis
    proof (cases fs)
      case Nil
      then have k: "kalloc s = (0, s)"
        using "1.prems"(1) kalloc_none by simp
      obtain r s' fs' where d: "uvmdealloc p a b s = Ok (r, s')" "undo_result p s fs A ?B s' fs'"
        using undo [OF "1.prems"(1)] by blast
      then have "uvmalloc_from p a b newsz xperm s = Ok (0, s')"
        using True k by (simp add: uvmalloc_from.simps [of p a])
      then show ?thesis
        using d(2) by (auto simp: grow_result_def)
    next
      case (Cons q qs)
      have u: "umapped s p (q # qs) (A \<union> ?B)"
        using "1.prems"(1) Cons by simp
      show ?thesis
      proof (rule alloc_one [OF u "1.prems"(3) aM un perm])
        fix s1 s3 fs3
        assume k: "kalloc s = (q, s1)" "q \<noteq> 0"
          and m: "mappages p a PGSIZE q ?perm
             (s1\<lparr>pmem := memset (pmem s1) (unat q) 0 (ucast PGSIZE)\<rparr>) = Ok (0, s3)"
          and a: "alloc_result p s (q # qs) (A \<union> ?B) {a} ?perm s3 fs3"
        have B: "pages b (unat (a + PGSIZE)) = insert a ?B"
          using pages_extend [OF "1.prems"(3) aM ba "1.prems"(4)] by simp
        have "\<exists>r s'. uvmalloc_from p (a + PGSIZE) b newsz xperm s3 = Ok (r, s') \<and>
          grow_result p s3 fs3 A (pages b (unat (a + PGSIZE))) (pages (a + PGSIZE) (unat newsz)) newsz ?perm r s'"
        proof (rule "1.IH" [OF True k(1) [symmetric] k(2) m refl])
          show "umapped s3 p fs3 (A \<union> pages b (unat (a + PGSIZE)))"
            unfolding B using a by (simp add: alloc_result_def)
          show "b \<le> a + PGSIZE"
            using ba page_step [OF aM] by (simp add: word_le_nat_alt)
          show "\<forall>x\<in>pages (a + PGSIZE) (unat newsz). \<not> valid (leaf 2 (pmem s3) p x)"
            using later a by (auto simp: alloc_result_def)
        qed (use "1.prems" pg_aligned_add_page in simp_all)
        then obtain r s' where r: "uvmalloc_from p (a + PGSIZE) b newsz xperm s3 = Ok (r, s')"
          and g: "grow_result p s3 fs3 A (insert a ?B) (pages (a + 4096) (unat newsz)) newsz ?perm r s'"
          using B by auto
        have "uvmalloc_from p a b newsz xperm s = Ok (r, s')"
          using True k m r by (subst uvmalloc_from.simps) simp
        then show ?thesis
          using grow_result_step [OF a g aB step(2) un] Cons step(1) by auto
      next
        fix s1 s3 s4
        assume k: "kalloc s = (q, s1)" "q \<noteq> 0"
          and m: "mappages p a PGSIZE q ?perm
             (s1\<lparr>pmem := memset (pmem s1) (unat q) 0 (ucast PGSIZE)\<rparr>) = Ok (- 1, s3)"
          and f: "kfree q s3 = Ok s4" and a: "alloc_result p s (q # qs) (A \<union> ?B) {} ?perm s4 [q]"
        have "umapped s4 p [q] (A \<union> ?B)"
          using a by (simp add: alloc_result_def)
        then obtain r s' fs' where d: "uvmdealloc p a b s4 = Ok (r, s')" "undo_result p s4 [q] A ?B s' fs'"
          using undo by blast
        have "undo_result p s (q # qs) A ?B s' fs'"
          using alloc_undo [OF a, of s' fs'] d(2) by simp
        moreover have "uvmalloc_from p a b newsz xperm s = Ok (0, s')"
          using True k m f d(1) by (subst uvmalloc_from.simps) simp
        ultimately show ?thesis
          using Cons by (auto simp: grow_result_def)
      qed
    qed
  qed
qed

end
