(* ===== verification/Xv6_Copy.thy ===== *)
theory Xv6_Copy
  imports Xv6_Uvm
begin

text \<open>
  \<^verbatim>\<open>copyout\<close>, \<^verbatim>\<open>copyin\<close> and \<^verbatim>\<open>copyinstr\<close> of \<^verbatim>\<open>kernel/vm.c\<close> as reads and writes of user memory:
  \<open>ubyte m p va\<close> is the byte a process with the table \<open>p\<close> sees at \<open>va\<close>. The assumption of the
  section is that every page the process may access is one of the pages \<open>A\<close> it owns.
\<close>

section \<open>Accessible addresses\<close>

definition uacc :: "mem \<Rightarrow> u64 \<Rightarrow> u64 \<Rightarrow> bool" where
  "uacc m p va \<longleftrightarrow> va < MAXVA \<and> bit (leaf 2 m p va) 0 \<and> bit (leaf 2 m p va) 4"

definition uwritable :: "mem \<Rightarrow> u64 \<Rightarrow> u64 \<Rightarrow> bool" where
  "uwritable m p va \<longleftrightarrow> uacc m p va \<and> bit (leaf 2 m p va) 2"

definition user_space :: "phys \<Rightarrow> u64 \<Rightarrow> u64 list \<Rightarrow> u64 set \<Rightarrow> bool" where
  "user_space s p fs A \<longleftrightarrow>
     umapped s p fs A \<and> (\<forall>va. uacc (pmem s) p va \<longrightarrow> PGROUNDDOWN va \<in> A)"

lemma PGROUNDDOWN_less: "PGROUNDDOWN va < MAXVA \<longleftrightarrow> va < MAXVA"
proof -
  have "unat va div 4096 * 4096 < 0x4000000000 \<longleftrightarrow> unat va < 0x4000000000"
    by (simp add: div_less_iff_less_mult)
  then show ?thesis
    by (simp add: word_less_nat_alt unat_PGROUNDDOWN)
qed

lemma walk_page:
  assumes "pt_ok 2 s p fs" and "va < MAXVA"
  obtains pte where "walk p (PGROUNDDOWN va) False s = Ok (pte, s)"
    "pte = 0 \<Longrightarrow> leaf 2 (pmem s) p va = 0"
    "pte \<noteq> 0 \<Longrightarrow> load64 (pmem s) (unat pte) = leaf 2 (pmem s) p va"
proof -
  have va0: "PGROUNDDOWN va < MAXVA"
    using assms(2) PGROUNDDOWN_less by simp
  note w = walk_no_alloc [OF assms(1) va0] and lf = leaf_PGROUNDDOWN [OF assms(2)]
  show thesis
  proof (cases "ltab 2 (pmem s) p (PGROUNDDOWN va)")
    case None
    then have "leaf 2 (pmem s) p va = 0"
      using lf by (metis leaf_def option.case(1))
    then show thesis
      using that [of 0] w None by simp
  next
    case (Some t)
    note wp = walked_pte [OF assms(1) Some]
    then show thesis
      using that [of "t + 8 * PX 0 (PGROUNDDOWN va)"] w Some lf by simp
  qed
qed

lemma frame_offset:
  "unat (PTE2PA e + (va - PGROUNDDOWN va)) = unat (PTE2PA e) + unat va mod 4096"
proof -
  obtain k where k: "unat (PTE2PA e) = 4096 * k"
    using pg_aligned_PTE2PA by (rule pg_alignedE)
  have "4096 * k < 2 ^ 64"
    using unsigned_less [of "PTE2PA e", where ?'a = nat] k by simp
  then have "4096 * k + unat va mod 4096 < 2 ^ 64"
    using mod_less_divisor [of 4096 "unat va"] by (simp; linarith)
  then show ?thesis
    using k by (simp add: unat_word_ariths(1) unat_page_offset)
qed

lemma user_frame:
  assumes "user_space s p fs A" and "uacc (pmem s) p va"
  shows "PGROUNDDOWN va \<in> A" "frame (pmem s) p va \<in> frame (pmem s) p ` A"
    "pg_aligned (frame (pmem s) p va)" "frame (pmem s) p va \<noteq> 0"
    "frame (pmem s) p va \<notin> tables 2 (pmem s) p \<union> set fs"
proof -
  show A: "PGROUNDDOWN va \<in> A"
    using assms by (simp add: user_space_def)
  have va: "va < MAXVA"
    using assms(2) by (simp add: uacc_def)
  have eq: "frame (pmem s) p va = frame (pmem s) p (PGROUNDDOWN va)"
    using leaf_PGROUNDDOWN [OF va] by (simp add: frame_def)
  then show fA: "frame (pmem s) p va \<in> frame (pmem s) p ` A"
    using A by simp
  have r: "ram_page s (frame (pmem s) p va)" and k: "0 < kend s"
    using assms(1) A eq by (simp_all add: user_space_def umapped_def pt_ok_def kmem_inv_def)
  show "pg_aligned (frame (pmem s) p va)"
    by (simp add: frame_def)
  show "frame (pmem s) p va \<noteq> 0"
    using r k by (auto simp: ram_page_def)
  show "frame (pmem s) p va \<notin> tables 2 (pmem s) p \<union> set fs"
    using assms(1) fA by (auto simp: user_space_def umapped_def)
qed

section \<open>copyout\<close>

definition written :: "mem \<Rightarrow> mem \<Rightarrow> u64 \<Rightarrow> u64 set \<Rightarrow> u64 \<Rightarrow> u8 list \<Rightarrow> bool" where
  "written m m' p A dst bs \<longleftrightarrow>
     (\<forall>va<MAXVA. leaf 2 m' p va = leaf 2 m p va \<and>
        (PGROUNDDOWN va \<in> A \<longrightarrow> ubyte m' p va =
           (if unat dst \<le> unat va \<and> unat va < unat dst + length bs then bs ! (unat va - unat dst)
            else ubyte m p va)))"

lemma page_PGROUNDDOWN: "page (PGROUNDDOWN va) = page va"
  by (simp add: page_def unat_PGROUNDDOWN)

lemma chunk_range:
  assumes "page va = page dst"
  shows "f + unat dst mod 4096 \<le> f + unat va mod 4096 \<longleftrightarrow> unat dst \<le> unat va"
    and "f + unat va mod 4096 < f + unat dst mod 4096 + n \<longleftrightarrow> unat va < unat dst + n"
    and "f + unat va mod 4096 - (f + unat dst mod 4096) = unat va - unat dst"
proof -
  have "unat va = 4096 * page va + unat va mod 4096" "unat dst = 4096 * page va + unat dst mod 4096"
    using assms div_mult_mod_eq [of "unat va" 4096] div_mult_mod_eq [of "unat dst" 4096]
    unfolding page_def by linarith+
  then show "f + unat dst mod 4096 \<le> f + unat va mod 4096 \<longleftrightarrow> unat dst \<le> unat va"
    "f + unat va mod 4096 < f + unat dst mod 4096 + n \<longleftrightarrow> unat va < unat dst + n"
    "f + unat va mod 4096 - (f + unat dst mod 4096) = unat va - unat dst"
    by linarith+
qed

lemma out_of_page:
  assumes "page va \<noteq> page dst" and "unat dst mod 4096 + n \<le> 4096"
  shows "\<not> (unat dst \<le> unat va \<and> unat va < unat dst + n)"
proof
  assume *: "unat dst \<le> unat va \<and> unat va < unat dst + n"
  have "unat dst = 4096 * page dst + unat dst mod 4096"
    by (simp add: page_def)
  then have "4096 * page dst \<le> unat va" "unat va < 4096 * page dst + 4096"
    using * assms(2) by linarith+
  then have "page va = page dst"
    by (simp add: page_def)
  then show False
    using assms(1) by simp
qed

text \<open>One chunk: bytes that fit the page of \<open>dst\<close>.\<close>

lemma write_chunk:
  assumes us: "user_space s p fs A" and acc: "uacc (pmem s) p dst"
    and fit: "unat dst mod 4096 + length bs \<le> 4096"
    and s': "s' = s\<lparr>pmem := mem_write (pmem s) (unat (frame (pmem s) p dst) + unat dst mod 4096) bs\<rparr>"
  shows "user_space s' p fs A" and "written (pmem s) (pmem s') p A dst bs"
    and "same_outside (frame (pmem s) p ` A) (pmem s) (pmem s')"
    and "tables 2 (pmem s') p = tables 2 (pmem s) p"
proof -
  let ?m = "pmem s" and ?f = "frame (pmem s) p dst"
  note uf = user_frame [OF us acc]
  have u: "umapped s p fs A" and wf: "pt_wf 2 ?m p" and inv: "kmem_inv s fs" and dst: "dst < MAXVA"
    and ok: "pt_ok 2 s p fs"
    using us acc by (simp_all add: user_space_def umapped_def pt_ok_def uacc_def)
  have so: "same_outside {?f} ?m (pmem s')"
    using fit by (auto simp: s' same_outside_def in_page_def mem_write_def)
  then show "same_outside (frame (pmem s) p ` A) (pmem s) (pmem s')"
    by (rule same_outside_mono) (use uf(2) in simp)
  have fd: "\<forall>x\<in>{?f}. pg_aligned x" "{?f} \<inter> tables 2 ?m p = {}" "{?f} \<inter> inner 2 ?m p = {}"
    using uf inner_tables [of 2 ?m p] by auto
  have T: "tables 2 (pmem s') p = tables 2 ?m p" "pt_wf 2 (pmem s') p"
    using tree_frame [OF so fd(1) wf fd(3)] by simp_all
  then show "tables 2 (pmem s') p = tables 2 (pmem s) p"
    by simp
  have lf: "leaf 2 (pmem s') p va = leaf 2 ?m p va" for va
    by (rule leaf_frame [OF so fd(1) wf fd(2)])
  have "kmem_inv s' fs"
    using kmem_inv_same_outside [OF inv so] uf by (simp add: s')
  then have "pt_ok 2 s' p fs"
    using T ok by (simp add: pt_ok_def)
  then have "umapped s' p fs A"
    using umapped_same(1) [OF u, of s' fs] lf T by (simp add: s')
  then show "user_space s' p fs A"
    using us lf by (simp add: user_space_def uacc_def)
  show "written ?m (pmem s') p A dst bs"
    unfolding written_def
  proof (intro allI impI conjI lf)
    fix va
    assume va: "va < MAXVA" "PGROUNDDOWN va \<in> A"
    let ?x = "unat (frame ?m p va) + unat va mod 4096"
    have ub: "ubyte (pmem s') p va = pmem s' ?x"
      using lf by (simp add: ubyte_def frame_def)
    show "ubyte (pmem s') p va = (if unat dst \<le> unat va \<and> unat va < unat dst + length bs
        then bs ! (unat va - unat dst) else ubyte ?m p va)"
    proof (cases "page va = page dst")
      case True
      then have "frame ?m p va = ?f"
        using leaf_same_path same_path_page [OF va(1) dst] by (metis frame_def)
      then show ?thesis
        using True chunk_range [OF True, of "length bs"] ub
        by (auto simp: s' mem_write_def ubyte_def)
    next
      case False
      have "PGROUNDDOWN va \<noteq> PGROUNDDOWN dst"
        using False by (metis page_PGROUNDDOWN)
      then have "frame ?m p (PGROUNDDOWN va) \<noteq> frame ?m p (PGROUNDDOWN dst)"
        using u va(2) uf(1) by (auto simp: umapped_def inj_on_def)
      then have ne: "frame ?m p va \<noteq> ?f"
        using leaf_PGROUNDDOWN va(1) dst by (simp add: frame_def)
      have al: "pg_aligned (frame ?m p va)"
        by (simp add: frame_def)
      have "\<not> in_page ?f ?x"
        using in_page_same [OF uf(3) al _ in_page_frame] ne by metis
      then have "pmem s' ?x = ?m ?x"
        using so by (simp add: same_outside_def)
      then show ?thesis
        using ub out_of_page [OF False fit] by (auto simp: ubyte_def)
    qed
  qed
qed

lemma written_trans:
  assumes "written m m1 p A dst bs" and "written m1 m2 p A dst' cs"
    and "unat dst' = unat dst + length bs"
  shows "written m m2 p A dst (bs @ cs)"
  using assms by (auto simp: written_def nth_append)

lemma uacc_written:
  "written m m' p A dst bs \<Longrightarrow> uacc m' p va = uacc m p va"
  "written m m' p A dst bs \<Longrightarrow> uwritable m' p va = uwritable m p va"
  by (auto simp: written_def uacc_def uwritable_def)

definition out_result :: "u64 \<Rightarrow> phys \<Rightarrow> u64 list \<Rightarrow> u64 set \<Rightarrow> u64 \<Rightarrow> u8 list \<Rightarrow> c_int \<Rightarrow> phys \<Rightarrow> bool" where
  "out_result p s fs A dst bs r s' \<longleftrightarrow>
     (\<exists>n\<le>length bs. written (pmem s) (pmem s') p A dst (take n bs) \<and> user_space s' p fs A \<and>
        same_outside (frame (pmem s) p ` A) (pmem s) (pmem s') \<and>
        (\<forall>i<n. uwritable (pmem s) p (dst + of_nat i)) \<and>
        (r = 0 \<and> n = length bs \<or>
         r = - 1 \<and> n < length bs \<and> \<not> uwritable (pmem s) p (dst + of_nat n)))"

lemma out_result_refl:
  "user_space s p fs A \<Longrightarrow> bs \<noteq> [] \<Longrightarrow> \<not> uwritable (pmem s) p dst \<Longrightarrow> out_result p s fs A dst bs (- 1) s"
  unfolding out_result_def by (intro exI [of _ 0]) (auto simp: written_def)

lemma written_frame:
  assumes "written m m' p A dst bs" and "\<forall>a\<in>A. a < MAXVA"
  shows "frame m' p ` A = frame m p ` A"
  using assms by (intro image_cong) (auto simp: written_def frame_def)

lemma out_result_step:
  assumes w: "written (pmem s) (pmem s1) p A dst (take k bs)" and k: "k \<le> length bs"
    and so: "same_outside (frame (pmem s) p ` A) (pmem s) (pmem s1)" and us: "user_space s p fs A"
    and ok: "\<forall>i<k. uwritable (pmem s) p (dst + of_nat i)"
    and d': "unat dst' = unat dst + k" "dst' = dst + of_nat k"
    and rest: "out_result p s1 fs A dst' (drop k bs) r s'"
  shows "out_result p s fs A dst bs r s'"
proof -
  obtain n where n: "n \<le> length bs - k" "written (pmem s1) (pmem s') p A dst' (take n (drop k bs))"
    "user_space s' p fs A" "same_outside (frame (pmem s1) p ` A) (pmem s1) (pmem s')"
    "\<forall>i<n. uwritable (pmem s1) p (dst' + of_nat i)"
    "r = 0 \<and> n = length bs - k \<or> r = - 1 \<and> n < length bs - k \<and> \<not> uwritable (pmem s1) p (dst' + of_nat n)"
    using rest unfolding out_result_def by auto
  have "written (pmem s) (pmem s') p A dst (take k bs @ take n (drop k bs))"
    using written_trans [OF w n(2)] k d'(1) by simp
  then have "written (pmem s) (pmem s') p A dst (take (k + n) bs)"
    by (simp add: take_add)
  moreover have "frame (pmem s1) p ` A = frame (pmem s) p ` A"
    using written_frame [OF w] us by (simp add: user_space_def umapped_def)
  then have "same_outside (frame (pmem s) p ` A) (pmem s) (pmem s')"
    using same_outside_comp [OF so] n(4) by simp
  moreover have "uwritable (pmem s) p (dst + of_nat i)" if "i < k + n" for i
  proof (cases "i < k")
    case False
    then obtain j where j: "i = k + j"
      using le_Suc_ex not_less by blast
    then have "uwritable (pmem s1) p (dst' + of_nat j)"
      using n(5) that by simp
    then show ?thesis
      using uacc_written(2) [OF w] d'(2) j by (simp add: add.assoc)
  qed (use ok in simp)
  ultimately show ?thesis
    unfolding out_result_def using n(1,3,6) k uacc_written(2) [OF w] d'(2)
    by (intro exI [of _ "k + n"]) (auto simp: add.assoc)
qed

definition chunk :: "u64 \<Rightarrow> nat \<Rightarrow> nat" where
  "chunk va len = min (4096 - unat va mod 4096) len"

lemma copyout_bad:
  assumes "pt_ok 2 s p fs" and "bs \<noteq> []" and "\<not> uwritable (pmem s) p dst"
  shows "copyout p dst bs s = Ok (- 1, s)"
proof (cases "dst < MAXVA")
  case True
  obtain pte where w: "walk p (PGROUNDDOWN dst) False s = Ok (pte, s)"
    "pte = 0 \<Longrightarrow> leaf 2 (pmem s) p dst = 0"
    "pte \<noteq> 0 \<Longrightarrow> load64 (pmem s) (unat pte) = leaf 2 (pmem s) p dst"
    using walk_page [OF assms(1) True] by blast
  have "pte = 0 \<or> load64 (pmem s) (unat pte) AND PTE_V = 0 \<or> load64 (pmem s) (unat pte) AND PTE_U = 0 \<or>
      load64 (pmem s) (unat pte) AND PTE_W = 0"
    using assms(3) w(3) True by (auto simp: uwritable_def uacc_def pte_flag_bits)
  then show ?thesis
    using assms(2) w(1) True PGROUNDDOWN_less [of dst]
    by (subst copyout.simps) (auto simp: Let_def not_le)
next
  case False
  then show ?thesis
    using assms(2) PGROUNDDOWN_less [of dst] by (subst copyout.simps) (auto simp: Let_def)
qed

lemma copyout_good:
  assumes "pt_ok 2 s p fs" and "bs \<noteq> []" and "uwritable (pmem s) p dst"
  shows "copyout p dst bs s = copyout p (PGROUNDDOWN dst + PGSIZE) (drop (chunk dst (length bs)) bs)
    (s\<lparr>pmem := mem_write (pmem s) (unat (frame (pmem s) p dst) + unat dst mod 4096)
        (take (chunk dst (length bs)) bs)\<rparr>)"
proof -
  have dst: "dst < MAXVA"
    using assms(3) by (simp add: uwritable_def uacc_def)
  obtain pte where w: "walk p (PGROUNDDOWN dst) False s = Ok (pte, s)"
    "pte = 0 \<Longrightarrow> leaf 2 (pmem s) p dst = 0"
    "pte \<noteq> 0 \<Longrightarrow> load64 (pmem s) (unat pte) = leaf 2 (pmem s) p dst"
    using walk_page [OF assms(1) dst] by blast
  have "pte \<noteq> 0"
    using w(2) assms(3) by (auto simp: uwritable_def uacc_def)
  then have c: "\<not> (pte = 0 \<or> load64 (pmem s) (unat pte) AND PTE_V = 0 \<or>
      load64 (pmem s) (unat pte) AND PTE_U = 0 \<or> load64 (pmem s) (unat pte) AND PTE_W = 0)"
    and e: "PTE2PA (load64 (pmem s) (unat pte)) = frame (pmem s) p dst"
    using assms(3) w(3) by (auto simp: uwritable_def uacc_def pte_flag_bits frame_def)
  have k: "(if unat (PGSIZE - (dst - PGROUNDDOWN dst)) > length bs then length bs
      else unat (PGSIZE - (dst - PGROUNDDOWN dst))) = chunk dst (length bs)"
    by (simp add: unat_page_rest chunk_def del: PGSIZE_simp)
  have "\<not> PGROUNDDOWN dst \<ge> MAXVA"
    using dst PGROUNDDOWN_less [of dst] by (simp add: not_le)
  then show ?thesis
    using assms(2) c
    by (subst copyout.simps)
       (simp only: Let_def k e w(1) rbind_Ok prod.case frame_offset [folded frame_def]
         if_False if_True length_greater_0_conv not_False_eq_True simp_thms frame_def frame_offset)
qed

lemma chunk_pos: "0 < len \<Longrightarrow> 0 < chunk va len" and chunk_le: "chunk va len \<le> len"
    and chunk_fit: "unat va mod 4096 + chunk va len \<le> 4096"
  using mod_less_divisor [of 4096 "unat va"] by (auto simp: chunk_def min_def)

text \<open>Inside a chunk the address does not leave its page.\<close>

lemma chunk_page:
  assumes "va < MAXVA" and "i < chunk va len"
  shows "page (va + of_nat i) = page va" and "unat (va + of_nat i) = unat va + i"
    and "va + of_nat i < MAXVA"
proof -
  have i: "unat va mod 4096 + i < 4096"
    using chunk_fit [of va len] assms(2) by linarith
  have va: "unat va < 0x4000000000"
    using assms(1) by (simp add: word_less_nat_alt)
  show u: "unat (va + of_nat i) = unat va + i"
    using i va by (simp add: unat_word_ariths(1) unat_of_nat)
  have "unat va = 4096 * page va + unat va mod 4096"
    by (simp add: page_def)
  then have "4096 * page va \<le> unat va + i" "unat va + i < 4096 * page va + 4096"
    using i by linarith+
  then show p: "page (va + of_nat i) = page va"
    unfolding page_def u by (simp add: page_def [symmetric])
  have "unat (va + of_nat i) div 4096 < 67108864"
    using va p unfolding page_def by simp
  then have "unat (va + of_nat i) < 67108864 * 4096"
    by (simp only: div_less_iff_less_mult)
  then show "va + of_nat i < MAXVA"
    by (simp add: word_less_nat_alt)
qed

lemma chunk_leaf:
  assumes "va < MAXVA" and "i < chunk va len"
  shows "leaf 2 m p (va + of_nat i) = leaf 2 m p va"
  using leaf_same_path same_path_page [OF chunk_page(3) [OF assms] assms(1)] chunk_page(1) [OF assms]
  by blast

lemma chunk_next_unat:
  assumes "va < MAXVA"
  shows "unat (va + of_nat (chunk va len)) = unat va + chunk va len"
proof -
  have "unat va < 0x4000000000"
    using assms(1) by (simp add: word_less_nat_alt)
  then show ?thesis
    using chunk_fit [of va len] by (simp add: unat_word_ariths(1) unat_of_nat)
qed

lemma chunk_next:
  assumes "va < MAXVA" and "chunk va len < len"
  shows "va + of_nat (chunk va len) = PGROUNDDOWN va + PGSIZE"
proof -
  note u = chunk_next_unat [OF assms(1), of len]
  have c: "chunk va len = 4096 - unat va mod 4096"
    using assms(2) by (auto simp: chunk_def min_def split: if_splits)
  have "unat va = 4096 * (unat va div 4096) + unat va mod 4096" "unat va mod 4096 < 4096"
    by simp_all
  then have "unat va + chunk va len = unat va div 4096 * 4096 + 4096"
    using c by linarith
  moreover have "unat (PGROUNDDOWN va + PGSIZE) = unat va div 4096 * 4096 + 4096"
    using page_step [of "PGROUNDDOWN va"] PGROUNDDOWN_less [of va] assms(1)
    by (simp add: unat_PGROUNDDOWN)
  ultimately show "va + of_nat (chunk va len) = PGROUNDDOWN va + PGSIZE"
    using u by (simp add: word_unat_eq_iff)
qed

lemma copyout_result:
  "user_space s p fs A \<Longrightarrow>
   \<exists>r s'. copyout p dst bs s = Ok (r, s') \<and> out_result p s fs A dst bs r s'"
proof (induction "length bs" arbitrary: dst bs s rule: less_induct)
  case less
  have ok: "pt_ok 2 s p fs"
    using less.prems by (simp add: user_space_def umapped_def)
  show ?case
  proof (cases "bs = []")
    case True
    then have "out_result p s fs A dst bs 0 s"
      using less.prems by (auto simp: out_result_def written_def)
    then show ?thesis
      using True by (auto simp: copyout.simps [of p dst "[]"])
  next
    case ne: False
    show ?thesis
    proof (cases "uwritable (pmem s) p dst")
      case False
      then show ?thesis
        using copyout_bad [OF ok ne False] out_result_refl [OF less.prems ne False] by blast
    next
      case True
      let ?k = "chunk dst (length bs)"
      let ?s = "s\<lparr>pmem := mem_write (pmem s) (unat (frame (pmem s) p dst) + unat dst mod 4096)
          (take ?k bs)\<rparr>"
      have acc: "uacc (pmem s) p dst" and dst: "dst < MAXVA"
        using True by (simp_all add: uwritable_def uacc_def)
      have fit: "unat dst mod 4096 + length (take ?k bs) \<le> 4096"
        using chunk_fit [of dst "length bs"] chunk_le [of dst "length bs"] by simp
      note wc = write_chunk [OF less.prems acc fit refl]
      have wr: "\<forall>i<?k. uwritable (pmem s) p (dst + of_nat i)"
        using True chunk_leaf [OF dst] chunk_page(3) [OF dst] by (auto simp: uwritable_def uacc_def)
      note cg = copyout_good [OF ok ne True]
      have "\<exists>r s'. copyout p dst bs s = Ok (r, s') \<and>
          out_result p ?s fs A (dst + of_nat ?k) (drop ?k bs) r s'"
      proof (cases "?k < length bs")
        case lt: True
        have "length (drop ?k bs) < length bs"
          using lt ne chunk_pos [of "length bs" dst] by simp
        from less.hyps [OF this wc(1)] show ?thesis
          unfolding cg chunk_next [OF dst lt, symmetric] by blast
      next
        case False
        then have "copyout p dst bs s = Ok (0, ?s)" "drop ?k bs = []"
          using cg by (simp_all add: copyout.simps [of _ _ "[]"])
        then show ?thesis
          using wc(1) by (auto simp: out_result_def written_def)
      qed
      moreover have "unat (dst + of_nat ?k) = unat dst + ?k"
        using chunk_next_unat [OF dst] .
      ultimately show ?thesis
        using out_result_step [OF wc(2) chunk_le wc(3) less.prems wr] by blast
    qed
  qed
qed

section \<open>copyin and copyinstr\<close>

definition ubytes :: "mem \<Rightarrow> u64 \<Rightarrow> u64 \<Rightarrow> nat \<Rightarrow> u8 list" where
  "ubytes m p va n = map (\<lambda>i. ubyte m p (va + of_nat i)) [0..<n]"

lemma length_ubytes [simp]: "length (ubytes m p va n) = n"
  by (simp add: ubytes_def)

lemma ubytes_add: "ubytes m p va (j + n) = ubytes m p va j @ ubytes m p (va + of_nat j) n"
  by (rule nth_equalityI) (auto simp: ubytes_def nth_append add.assoc simp flip: of_nat_add)

lemma walkaddr_user:
  assumes us: "user_space s p fs A"
  shows "walkaddr p (PGROUNDDOWN va) s = Ok (if uacc (pmem s) p va then frame (pmem s) p va else 0)"
proof (cases "va < MAXVA")
  case True
  have ok: "pt_ok 2 s p fs"
    using us by (simp add: user_space_def umapped_def)
  obtain pte where w: "walk p (PGROUNDDOWN va) False s = Ok (pte, s)"
    "pte = 0 \<Longrightarrow> leaf 2 (pmem s) p va = 0"
    "pte \<noteq> 0 \<Longrightarrow> load64 (pmem s) (unat pte) = leaf 2 (pmem s) p va"
    using walk_page [OF ok True] by blast
  have "\<not> PGROUNDDOWN va \<ge> MAXVA"
    using True PGROUNDDOWN_less [of va] by (simp add: not_le)
  then show ?thesis
    using w True by (auto simp: walkaddr_def uacc_def frame_def pte_flag_bits Let_def)
next
  case False
  then have "PGROUNDDOWN va \<ge> MAXVA"
    using PGROUNDDOWN_less [of va] by (simp add: not_le [symmetric])
  then show ?thesis
    using False by (simp add: walkaddr_def uacc_def)
qed

lemma chunk_addr:
  assumes "va < MAXVA" and "i < chunk va len"
  shows "unat (frame m p va) + unat va mod 4096 + i =
    unat (frame m p (va + of_nat i)) + unat (va + of_nat i) mod 4096"
proof -
  have "frame m p (va + of_nat i) = frame m p va"
    using chunk_leaf [OF assms] by (simp add: frame_def)
  moreover have "unat va mod 4096 + i < 4096"
    using chunk_fit [of va len] assms(2) by linarith
  then have "(unat va + i) mod 4096 = unat va mod 4096 + i"
    by (metis mod_add_left_eq mod_less)
  ultimately show ?thesis
    using chunk_page(2) [OF assms] by simp
qed

lemma mem_read_chunk:
  assumes "va < MAXVA" and "k \<le> chunk va len"
  shows "mem_read m (unat (frame m p va) + unat va mod 4096) k = ubytes m p va k"
  using chunk_addr [OF assms(1), of _ len m p] assms(2)
  by (auto simp: mem_read_def ubytes_def ubyte_def)

lemma unat_page_rest_if:
  "(if unat (PGSIZE - (va - PGROUNDDOWN va)) > len then len
    else unat (PGSIZE - (va - PGROUNDDOWN va))) = chunk va len"
  by (simp add: unat_page_rest chunk_def del: PGSIZE_simp)

lemma copyin_unfold:
  assumes us: "user_space s p fs A" and "0 < len"
  shows "copyin_from p va len acc s =
    (if uacc (pmem s) p va
     then copyin_from p (PGROUNDDOWN va + PGSIZE) (len - chunk va len)
            (acc @ ubytes (pmem s) p va (chunk va len)) s
     else Ok (- 1, acc))"
proof (cases "uacc (pmem s) p va")
  case True
  then have "va < MAXVA" and f: "frame (pmem s) p va \<noteq> 0"
    using user_frame(4) [OF us True] by (simp_all add: uacc_def)
  then have r: "mem_read (pmem s) (unat (frame (pmem s) p va + (va - PGROUNDDOWN va))) (chunk va len) =
      ubytes (pmem s) p va (chunk va len)"
    using mem_read_chunk [of va "chunk va len" len "pmem s" p] by (simp add: frame_def frame_offset)
  show ?thesis
    using assms(2) True f
    by (subst copyin_from.simps)
       (simp only: Let_def walkaddr_user [OF us] rbind_Ok unat_page_rest_if r if_True if_False simp_thms)
next
  case False
  then show ?thesis
    using assms(2) walkaddr_user [OF us, of va] by (subst copyin_from.simps) (simp add: Let_def)
qed

lemma chunk_uacc:
  assumes "uacc m p va" and "i < chunk va len"
  shows "uacc m p (va + of_nat i)"
  using assms chunk_leaf [of va i len m p] chunk_page(3) [of va i len] by (simp add: uacc_def)

lemma copyin_result:
  assumes us: "user_space s p fs A"
  shows "\<exists>n\<le>len. (\<forall>i<n. uacc (pmem s) p (va + of_nat i)) \<and>
    (copyin_from p va len acc s = Ok (0, acc @ ubytes (pmem s) p va n) \<and> n = len \<or>
     copyin_from p va len acc s = Ok (- 1, acc @ ubytes (pmem s) p va n) \<and> n < len \<and>
       \<not> uacc (pmem s) p (va + of_nat n))"
proof (induction len arbitrary: va acc rule: less_induct)
  case (less len)
  show ?case
  proof (cases "0 < len \<and> uacc (pmem s) p va")
    case False
    then show ?thesis
      using copyin_unfold [OF us, of len va acc]
      by (cases "len = 0") (auto simp: ubytes_def copyin_from.simps [of _ _ 0])
  next
    case True
    let ?k = "chunk va len" and ?va = "va + of_nat (chunk va len)"
    let ?acc = "acc @ ubytes (pmem s) p va ?k"
    have va: "va < MAXVA"
      using True by (simp add: uacc_def)
    have lt: "len - ?k < len"
      using True chunk_pos [of len va] by simp
    have "copyin_from p va len acc s = copyin_from p ?va (len - ?k) ?acc s"
    proof (cases "?k < len")
      case False
      then show ?thesis
        using copyin_unfold [OF us, of len va acc] True by (simp add: copyin_from.simps [of _ _ 0])
    qed (use copyin_unfold [OF us, of len va acc] True chunk_next [OF va] in simp)
    moreover obtain n where "n \<le> len - ?k" "\<forall>i<n. uacc (pmem s) p (?va + of_nat i)"
      "copyin_from p ?va (len - ?k) ?acc s = Ok (0, ?acc @ ubytes (pmem s) p ?va n) \<and> n = len - ?k \<or>
       copyin_from p ?va (len - ?k) ?acc s = Ok (- 1, ?acc @ ubytes (pmem s) p ?va n) \<and> n < len - ?k \<and>
       \<not> uacc (pmem s) p (?va + of_nat n)"
      using less.IH [OF lt] by blast
    moreover have "uacc (pmem s) p (va + of_nat i)" if "i < ?k + n" for i
    proof (cases "i < ?k")
      case False
      then obtain j where "i = ?k + j"
        using le_Suc_ex not_less by blast
      then show ?thesis
        using that calculation(3) by (simp add: add.assoc)
    qed (use True chunk_uacc in blast)
    ultimately show ?thesis
      using chunk_le [of va len] ubytes_add [of "pmem s" p va ?k n]
      by (intro exI [of _ "?k + n"]) (auto simp: add.assoc)
  qed
qed

lemma least_below:
  "\<exists>i<k. P i \<Longrightarrow> (LEAST i. P i) < (k :: nat) \<and> P (LEAST i. P i) \<and> (\<forall>i. i < (LEAST i. P i) \<longrightarrow> \<not> P i)"
  by (meson LeastI Least_le le_less_trans not_less_Least)

lemma copyinstr_page_eq:
  "copyinstr_page m pos n =
     (if \<exists>i<n. m (pos + i) = 0
      then (mem_read m pos (Suc (LEAST i. m (pos + i) = 0)), True)
      else (mem_read m pos n, False))"
proof (induction n arbitrary: pos)
  case 0
  then show ?case by (simp add: mem_read_def)
next
  case (Suc n)
  have ex: "(\<exists>i<Suc n. m (pos + i) = 0) \<longleftrightarrow> m pos = 0 \<or> (\<exists>i<n. m (Suc pos + i) = 0)"
    by (auto simp: less_Suc_eq_0_disj)
  have rd: "mem_read m pos (Suc k) = m pos # mem_read m (Suc pos) k" for k
    by (simp add: mem_read_def upt_conv_Cons map_Suc_upt [symmetric] del: upt_Suc)
  show ?case
  proof (cases "m pos = 0")
    case True
    then have "(LEAST i. m (pos + i) = 0) = 0"
      by (intro Least_equality) auto
    then show ?thesis
      using True ex by (simp add: mem_read_def)
  next
    case False
    have "(LEAST i. m (pos + i) = 0) = Suc (LEAST i. m (Suc pos + i) = 0)" if nul: "\<exists>i<n. m (Suc pos + i) = 0"
    proof -
      obtain i where "m (pos + Suc i) = 0"
        using nul by auto
      then show ?thesis
        using False Least_Suc [of "\<lambda>i. m (pos + i) = 0" "Suc i"] by simp
    qed
    then show ?thesis
      using Suc.IH [of "Suc pos"] False ex by (auto simp: rd)
  qed
qed

text \<open>A result of \<^verbatim>\<open>copyinstr\<close>: a whole string with its NUL, or the bytes before the failure.\<close>

definition str_result :: "mem \<Rightarrow> u64 \<Rightarrow> u64 \<Rightarrow> nat \<Rightarrow> c_int \<times> u8 list \<Rightarrow> bool" where
  "str_result m p va mx x \<longleftrightarrow>
     (\<exists>n. (\<forall>i<n. uacc m p (va + of_nat i) \<and> ubyte m p (va + of_nat i) \<noteq> 0) \<and>
        (n < mx \<and> uacc m p (va + of_nat n) \<and> ubyte m p (va + of_nat n) = 0 \<and>
           x = (0, ubytes m p va (Suc n)) \<or>
         n \<le> mx \<and> (n = mx \<or> \<not> uacc m p (va + of_nat n)) \<and> x = (- 1, ubytes m p va n)))"

lemma copyinstr_unfold:
  assumes us: "user_space s p fs A" and "0 < mx" and acc: "uacc (pmem s) p va"
  shows "copyinstr_from p va mx acc0 s =
    (case copyinstr_page (pmem s) (unat (frame (pmem s) p va) + unat va mod 4096) (chunk va mx) of
      (bs, got_null) \<Rightarrow> if got_null then Ok (0, acc0 @ bs)
        else copyinstr_from p (PGROUNDDOWN va + PGSIZE) (mx - chunk va mx) (acc0 @ bs) s)"
proof -
  have f: "frame (pmem s) p va \<noteq> 0"
    using user_frame(4) [OF us acc] .
  have r: "unat (frame (pmem s) p va + (va - PGROUNDDOWN va)) =
      unat (frame (pmem s) p va) + unat va mod 4096"
    by (simp add: frame_def frame_offset)
  show ?thesis
    using assms(2) acc f
    by (subst copyinstr_from.simps)
       (simp only: Let_def walkaddr_user [OF us] rbind_Ok unat_page_rest_if r if_True if_False simp_thms)
qed

lemma str_result_step:
  assumes k: "\<forall>i<k. uacc m p (va + of_nat i) \<and> ubyte m p (va + of_nat i) \<noteq> 0" and "k \<le> mx"
    and r: "str_result m p (va + of_nat k) (mx - k) (r, xs)"
  shows "str_result m p va mx (r, ubytes m p va k @ xs)"
proof -
  obtain n where n: "\<forall>i<n. uacc m p (va + of_nat k + of_nat i) \<and> ubyte m p (va + of_nat k + of_nat i) \<noteq> 0"
    and c: "n < mx - k \<and> uacc m p (va + of_nat k + of_nat n) \<and> ubyte m p (va + of_nat k + of_nat n) = 0 \<and>
        (r, xs) = (0, ubytes m p (va + of_nat k) (Suc n)) \<or>
      n \<le> mx - k \<and> (n = mx - k \<or> \<not> uacc m p (va + of_nat k + of_nat n)) \<and>
        (r, xs) = (- 1, ubytes m p (va + of_nat k) n)"
    using r unfolding str_result_def by auto
  have "uacc m p (va + of_nat i) \<and> ubyte m p (va + of_nat i) \<noteq> 0" if "i < k + n" for i
  proof (cases "i < k")
    case False
    then obtain j where "i = k + j"
      using le_Suc_ex not_less by blast
    then show ?thesis
      using that n by (simp add: add.assoc)
  qed (use k in blast)
  then show ?thesis
    unfolding str_result_def
    using c assms(2) ubytes_add [of m p va k n] ubytes_add [of m p va k "Suc n"]
    by (intro exI [of _ "k + n"]) (auto simp: add.assoc)
qed

lemma copyinstr_result:
  assumes us: "user_space s p fs A"
  shows "\<exists>r xs. copyinstr_from p va mx acc s = Ok (r, acc @ xs) \<and> str_result (pmem s) p va mx (r, xs)"
proof (induction mx arbitrary: va acc rule: less_induct)
  case (less mx)
  let ?m = "pmem s"
  show ?case
  proof (cases "0 < mx \<and> uacc ?m p va")
    case False
    have "copyinstr_from p va mx acc s = Ok (- 1, acc @ [])"
    proof (cases "mx = 0")
      case neq: False
      then show ?thesis
        using False walkaddr_user [OF us, of va] by (subst copyinstr_from.simps) (simp add: Let_def)
    qed (simp add: copyinstr_from.simps [of _ _ 0])
    moreover have "str_result ?m p va mx (- 1, [])"
      unfolding str_result_def using False by (intro exI [of _ 0]) (auto simp: ubytes_def)
    ultimately show ?thesis
      by blast
  next
    case True
    let ?k = "chunk va mx" and ?pos = "unat (frame ?m p va) + unat va mod 4096"
    have va: "va < MAXVA"
      using True by (simp add: uacc_def)
    have byte: "?m (?pos + i) = ubyte ?m p (va + of_nat i)" if "i < ?k" for i
      using chunk_addr [OF va that] by (simp add: ubyte_def)
    have ua: "uacc ?m p (va + of_nat i)" if "i < ?k" for i
      using chunk_uacc that True by blast
    note unf = copyinstr_unfold [OF us conjunct1 [OF True] conjunct2 [OF True], of acc]
    show ?thesis
    proof (cases "\<exists>i<?k. ?m (?pos + i) = 0")
      case nul: True
      let ?n = "LEAST i. ?m (?pos + i) = 0"
      have n: "?n < ?k" "?m (?pos + ?n) = 0" "\<And>i. i < ?n \<Longrightarrow> ?m (?pos + i) \<noteq> 0"
        using least_below [OF nul] by blast+
      have "mem_read ?m ?pos (Suc ?n) = ubytes ?m p va (Suc ?n)"
        using n(1) by (intro mem_read_chunk [OF va]) (rule Suc_leI)
      then have "copyinstr_page ?m ?pos ?k = (ubytes ?m p va (Suc ?n), True)"
        using nul unfolding copyinstr_page_eq by (simp only: if_True)
      then have "copyinstr_from p va mx acc s = Ok (0, acc @ ubytes ?m p va (Suc ?n))"
        by (simp only: unf prod.case if_True)
      moreover have "\<forall>i<?n. uacc ?m p (va + of_nat i) \<and> ubyte ?m p (va + of_nat i) \<noteq> 0"
      proof (intro allI impI)
        fix i
        assume i: "i < ?n"
        then have "i < ?k"
          using n(1) by (rule less_trans)
        then show "uacc ?m p (va + of_nat i) \<and> ubyte ?m p (va + of_nat i) \<noteq> 0"
          using n(3) [OF i] byte ua by auto
      qed
      then have "str_result ?m p va mx (0, ubytes ?m p va (Suc ?n))"
        unfolding str_result_def
        using n(1,2) byte [OF n(1)] ua [OF n(1)] chunk_le [of va mx] by (intro exI [of _ ?n]) auto
      ultimately show ?thesis
        by blast
    next
      case no: False
      have lt: "mx - ?k < mx"
        using True chunk_pos [of mx va] by simp
      let ?va = "va + of_nat ?k" and ?acc = "acc @ ubytes ?m p va ?k"
      have "copyinstr_from p va mx acc s = copyinstr_from p (PGROUNDDOWN va + PGSIZE) (mx - ?k) ?acc s"
        using no mem_read_chunk [OF va, of ?k mx ?m p, OF order_refl]
        by (simp only: unf copyinstr_page_eq prod.case if_False)
      also have "\<dots> = copyinstr_from p ?va (mx - ?k) ?acc s"
        using chunk_next [OF va, of mx] by (cases "?k < mx") (simp_all add: copyinstr_from.simps [of _ _ 0])
      finally obtain r xs where "copyinstr_from p va mx acc s = Ok (r, ?acc @ xs)"
        "str_result ?m p ?va (mx - ?k) (r, xs)"
        using less.IH [OF lt, of ?va ?acc] by auto
      moreover have "\<forall>i<?k. uacc ?m p (va + of_nat i) \<and> ubyte ?m p (va + of_nat i) \<noteq> 0"
        using no byte ua by metis
      ultimately show ?thesis
        using str_result_step [OF _ chunk_le] by (metis append_assoc)
    qed
  qed
qed

end
