(* ===== verification/Xv6_Vm_Theorems.thy ===== *)
theory Xv6_Vm_Theorems
  imports Xv6_Copy
begin

text \<open>
  The properties of \<^verbatim>\<open>kernel/vm.c\<close>, and a small address space in memory on which their
  hypotheses are checked: one user page at virtual address 0, its three tables, and one free page.
\<close>

section \<open>A concrete address space\<close>

definition demo_root :: u64 where
  "demo_root = 0x87FF0000"

definition demo_mem :: mem where
  "demo_mem =
     store64 (store64 (store64 (\<lambda>_. 0)
       0x87FF0000 (PA2PTE 0x87FF1000 OR PTE_V))
       0x87FF1000 (PA2PTE 0x87FF2000 OR PTE_V))
       0x87FF2000 (PA2PTE 0x87FF3000 OR (PTE_R OR PTE_W OR PTE_U OR PTE_V))"

definition demo_phys :: phys where
  "demo_phys = \<lparr>pmem = demo_mem, freelist = 0x87FF4000, kend = 0x87FF0000\<rparr>"

lemma load64_zero: "load64 (\<lambda>_. 0) a = 0"
  by (rule bit_word_eqI) (simp add: bit_load64)

lemma entry_demo:
  assumes "pg_aligned q" and "i < 512"
  shows "entry demo_mem q i =
    (if q = 0x87FF2000 \<and> i = 0 then PA2PTE 0x87FF3000 OR (PTE_R OR PTE_W OR PTE_U OR PTE_V)
     else if q = 0x87FF1000 \<and> i = 0 then PA2PTE 0x87FF2000 OR PTE_V
     else if q = 0x87FF0000 \<and> i = 0 then PA2PTE 0x87FF1000 OR PTE_V else 0)"
proof -
  have st: "entry (store64 m a v) q i = (if q = of_nat a \<and> i = 0 then v else entry m q i)"
    if "pg_aligned (of_nat a)" "unat (of_nat a :: u64) = a" for m a v
    using entry_store [OF that(1) assms(1), of 0 i m v] that(2) assms(2) by auto
  have z: "entry (\<lambda>_. 0) q i = 0"
    by (simp add: entry_def load64_zero)
  have "entry (store64 m 0x87FF2000 v) q i = (if q = 0x87FF2000 \<and> i = 0 then v else entry m q i)"
    "entry (store64 m 0x87FF1000 v) q i = (if q = 0x87FF1000 \<and> i = 0 then v else entry m q i)"
    "entry (store64 m 0x87FF0000 v) q i = (if q = 0x87FF0000 \<and> i = 0 then v else entry m q i)" for m v
    using st [of "0x87FF2000" m v] st [of "0x87FF1000" m v] st [of "0x87FF0000" m v]
    by (simp_all add: pg_aligned_def)
  then show ?thesis
    by (simp only: demo_mem_def z)
qed

lemma PTE_V_nonzero [simp]: "PTE_V \<noteq> 0"
  by (simp add: PTE_V_def)

lemma demo_pte: "PTE2PA (PA2PTE 0x87FF1000 OR PTE_V) = 0x87FF1000"
  "PTE2PA (PA2PTE 0x87FF2000 OR PTE_V) = 0x87FF2000"
  "PTE2PA (PA2PTE 0x87FF3000 OR (PTE_R OR PTE_W OR PTE_U OR PTE_V)) = 0x87FF3000"
  by (rule PTE2PA_PA2PTE; simp add: pg_aligned_def PTE_bits)+


lemma single_child:
  assumes "pg_aligned p" "p \<noteq> 0" and z: "\<And>i. 0 < i \<Longrightarrow> i < 512 \<Longrightarrow> entry m p i = 0"
    and e: "valid (entry m p 0)" "PTE2PA (entry m p 0) = c" and c: "pt_wf l m c" "p \<notin> tables l m c"
  shows "pt_wf (Suc l) m p" and "tables (Suc l) m p = insert p (tables l m c)"
proof -
  have sub: "sub l m p i = (if i = 0 then tables l m c else {})" if "i < 512" for i
    using that z [of i] e by (cases "i = 0") (simp_all add: sub_def)
  have "pt_wf l m (PTE2PA (entry m p i))" if "i < 512" "valid (entry m p i)" for i
    using that z [of i] e c by (cases "i = 0") simp_all
  then show "pt_wf (Suc l) m p"
    using assms(1,2) sub c by auto
  show "tables (Suc l) m p = insert p (tables l m c)"
    using sub by (auto simp: tables_sub split: if_splits)
qed

lemma demo_wf: "pt_wf 2 demo_mem demo_root"
  and demo_tables: "tables 2 demo_mem demo_root = {0x87FF0000, 0x87FF1000, 0x87FF2000}"
proof -
  have 1: "pt_wf (Suc 0) demo_mem 0x87FF1000" "tables (Suc 0) demo_mem 0x87FF1000 = {0x87FF1000, 0x87FF2000}"
    using single_child [of "0x87FF1000" demo_mem "0x87FF2000" 0]
    by (simp_all add: entry_demo pg_aligned_def demo_pte valid_table_pte del: pt_wf.simps(2))
  have "pt_wf (Suc (Suc 0)) demo_mem 0x87FF0000"
    "tables (Suc (Suc 0)) demo_mem 0x87FF0000 = insert 0x87FF0000 (tables (Suc 0) demo_mem 0x87FF1000)"
    using single_child [of "0x87FF0000" demo_mem "0x87FF1000" "Suc 0"]
    by (simp_all add: 1 entry_demo pg_aligned_def demo_pte valid_table_pte del: pt_wf.simps(2))
  then show "pt_wf 2 demo_mem demo_root"
    "tables 2 demo_mem demo_root = {0x87FF0000, 0x87FF1000, 0x87FF2000}"
    by (simp_all add: numeral_2_eq_2 demo_root_def 1 del: pt_wf.simps)
qed

lemma demo_leaf:
  assumes "va < MAXVA"
  shows "leaf 2 demo_mem demo_root va =
    (if page va = 0 then PA2PTE 0x87FF3000 OR (PTE_R OR PTE_W OR PTE_U OR PTE_V) else 0)"
proof -
  have z: "idx k 0 = 0" "page 0 = 0" for k
    by (simp_all add: idx_eq page_def)
  have "same_path 2 0 va \<longleftrightarrow> page va = 0"
    using same_path_page [of 0 va] assms z(2) by auto
  moreover have "same_path 2 0 va \<longleftrightarrow> idx 0 va = 0 \<and> idx 1 va = 0 \<and> idx 2 va = 0"
    using z(1) by (auto simp: same_path_def le_Suc_eq numeral_2_eq_2)
  moreover have "leaf 2 demo_mem demo_root va =
      (if idx 0 va = 0 \<and> idx 1 va = 0 \<and> idx 2 va = 0
       then PA2PTE 0x87FF3000 OR (PTE_R OR PTE_W OR PTE_U OR PTE_V) else 0)"
  proof -
    let ?e = "PA2PTE 0x87FF3000 OR (PTE_R OR PTE_W OR PTE_U OR PTE_V)"
    have l0: "leaf 0 demo_mem 0x87FF2000 va = (if idx 0 va = 0 then ?e else 0)"
      by (simp add: leaf_def entry_demo pg_aligned_def)
    have l1: "leaf (Suc 0) demo_mem 0x87FF1000 va = (if idx 1 va = 0 then leaf 0 demo_mem 0x87FF2000 va else 0)"
      by (cases "idx 1 va = 0") (simp_all add: leaf_Suc entry_demo pg_aligned_def demo_pte)
    have l2: "leaf (Suc (Suc 0)) demo_mem 0x87FF0000 va =
        (if idx 2 va = 0 then leaf (Suc 0) demo_mem 0x87FF1000 va else 0)"
      by (subst leaf_Suc, cases "idx 2 va = 0")
         (simp_all add: entry_demo pg_aligned_def demo_pte flip: numeral_2_eq_2)
    show ?thesis
      using l0 l1 l2 by (simp add: numeral_2_eq_2 demo_root_def)
  qed
  ultimately show ?thesis
    by simp
qed

lemma demo_flags:
  "PTE_FLAGS (PA2PTE 0x87FF3000 OR (PTE_R OR PTE_W OR PTE_U OR PTE_V)) = 0x17"
  using PTE_FLAGS_PA2PTE [of "PTE_R OR PTE_W OR PTE_U OR PTE_V"] by (simp add: PTE_bits)

lemma demo_valid: "valid (PA2PTE 0x87FF3000 OR (PTE_R OR PTE_W OR PTE_U OR PTE_V))"
  unfolding pte_flag_bits by (simp add: bit_simps PTE_bits)

lemma demo_user_space: "user_space demo_phys demo_root [0x87FF4000] {0}"
proof -
  have "chain demo_mem 0x87FF4000 [0x87FF4000]"
    using entry_demo [of "0x87FF4000" 0] by (simp add: entry_def pg_aligned_def)
  then have "kmem_inv demo_phys [0x87FF4000]"
    by (simp add: kmem_inv_def demo_phys_def ram_page_def pg_aligned_def)
  then have ok: "pt_ok 2 demo_phys demo_root [0x87FF4000]"
    using demo_wf demo_tables by (simp add: pt_ok_def demo_phys_def)
  have l0: "leaf 2 demo_mem demo_root 0 = PA2PTE 0x87FF3000 OR (PTE_R OR PTE_W OR PTE_U OR PTE_V)"
    using demo_leaf [of 0] by (simp add: page_def)
  then have f0: "frame demo_mem demo_root 0 = 0x87FF3000"
    by (simp add: frame_def demo_pte)
  have "umapped demo_phys demo_root [0x87FF4000] {0}"
    using ok l0 f0 demo_tables demo_flags demo_valid
    by (simp add: umapped_def demo_phys_def ram_page_def pg_aligned_def PTE_V_def)
  moreover have "PGROUNDDOWN va \<in> {0}" if acc: "uacc demo_mem demo_root va" for va
  proof -
    have "page va = 0"
      using acc demo_leaf [of va] by (auto simp: uacc_def split: if_splits)
    then show ?thesis
      by (simp add: word_unat_eq_iff unat_PGROUNDDOWN page_def)
  qed
  ultimately show ?thesis
    by (simp add: user_space_def demo_phys_def)
qed

section \<open>Mapping\<close>

lemma mappages_lastpg:
  assumes "pg_aligned va" "pg_aligned sz" "0 < sz" "unat va + unat sz \<le> unat MAXVA"
  shows "pg_aligned (va + sz - PGSIZE)" "unat (va + sz - PGSIZE) + 4096 = unat va + unat sz"
    "va \<le> va + sz - PGSIZE" "va + sz - PGSIZE < MAXVA"
proof -
  obtain i j where ij: "unat va = 4096 * i" "unat sz = 4096 * j"
    using assms(1,2) by (meson pg_alignedE)
  have j: "0 < j"
    using assms(3) ij(2) by (simp add: word_less_nat_alt)
  have u: "unat (va + sz) = unat va + unat sz"
    using assms(4) by (simp add: unat_word_ariths(1))
  have le: "PGSIZE \<le> va + sz"
    using u ij j by (simp add: word_le_nat_alt)
  have "unat (va + sz - PGSIZE) = unat va + unat sz - 4096"
    using unat_sub [OF le] u by simp
  then show l: "unat (va + sz - PGSIZE) + 4096 = unat va + unat sz"
    using ij j by simp
  then have m: "unat (va + sz - PGSIZE) = 4096 * (i + j - 1)"
    using ij j by (simp add: algebra_simps)
  then show "pg_aligned (va + sz - PGSIZE)"
    unfolding pg_aligned_unat by simp
  show "va \<le> va + sz - PGSIZE"
    using m ij j by (simp add: word_le_nat_alt)
  show "va + sz - PGSIZE < MAXVA"
    using l assms(4) by (simp add: word_less_nat_alt)
qed

text \<open>
  Claim C14: on a well-formed page table and a range that is page-aligned, below \<^verbatim>\<open>MAXVA\<close> and not
  mapped, \<open>mappages\<close> does not panic. Either it returns 0 and every address of the range, and no
  other, gets the PTE for its page of physical memory with the given permissions; or it returns
  -1 because no page is left for a table, with a prefix of the range mapped. The tables stay a
  tree, no other translation changes and memory changes in tables only.
\<close>

theorem mappages_maps_range:
  assumes "pt_ok 2 s p fs" and "pg_aligned va" "pg_aligned sz" "0 < sz"
    and "unat va + unat sz \<le> unat MAXVA"
    and "\<forall>a<MAXVA. unat va \<le> unat a \<and> unat a < unat va + unat sz \<longrightarrow> \<not> valid (leaf 2 (pmem s) p a)"
  shows "\<exists>r s'. mappages p va sz pa perm s = Ok (r, s') \<and>
    map_result p s fs va (unat va + unat sz) pa perm r s'"
proof -
  note l = mappages_lastpg [OF assms(2-5)]
  have "mappages p va sz pa perm s = mappages_from p va (va + sz - PGSIZE) pa perm s"
    using assms(2-4) unfolding mappages_def pg_aligned_def by auto
  then show ?thesis
    using mappages_from_ok [OF assms(1,2) l(1,3,4), of pa perm] assms(6) l(2) by auto
qed

theorem mappages_maps_range_witness:
  "\<exists>r s'. mappages demo_root 0x2000 0x1000 0x87FF3000 PTE_R demo_phys = Ok (r, s') \<and>
    map_result demo_root demo_phys [0x87FF4000] 0x2000 0x3000 0x87FF3000 PTE_R r s'"
proof -
  have "pt_ok 2 demo_phys demo_root [0x87FF4000]"
    using demo_user_space by (simp add: user_space_def umapped_def)
  moreover have "\<not> valid (leaf 2 (pmem demo_phys) demo_root a)"
    if "a < MAXVA" "unat (0x2000 :: u64) \<le> unat a" for a
    using that demo_leaf [of a] by (auto simp: demo_phys_def page_def)
  ultimately show ?thesis
    using mappages_maps_range [of demo_phys demo_root "[0x87FF4000]" "0x2000" "0x1000" "0x87FF3000" PTE_R]
    by (simp add: pg_aligned_def)
qed

section \<open>Unmapping\<close>

text \<open>
  Claim C15: \<open>uvmunmap\<close> with \<^verbatim>\<open>do_free\<close> on pages an address space owns returns without panic. The
  translations of exactly these pages are cleared, their physical pages, and nothing else, join
  the free list, and the pages that stay mapped keep their contents and stay owned.
\<close>

theorem uvmunmap_frees_pages:
  assumes "umapped s p fs A" and "pg_aligned va" and "unat va + unat npages * 4096 \<le> unat MAXVA"
    and "pages va (unat va + unat npages * 4096) \<subseteq> A"
  shows "\<exists>s' fs'. uvmunmap p va npages True s = Ok s' \<and>
    unmap_result p s fs A (pages va (unat va + unat npages * 4096)) s' fs'"
proof -
  have "unat (npages * PGSIZE) = unat npages * 4096"
    using assms(3) by (simp add: unat_word_ariths(2))
  then have lim: "unat (va + npages * PGSIZE) = unat va + unat npages * 4096"
    using assms(3) by (simp add: unat_word_ariths(1))
  then have "va + npages * PGSIZE \<le> MAXVA"
    using assms(3) by (simp add: word_le_nat_alt)
  then show ?thesis
    using uvmunmap_from_free [OF assms(1) _ assms(2), of "va + npages * PGSIZE"] assms(2,4) lim
    by (simp add: uvmunmap_def pg_aligned_def)
qed

theorem uvmunmap_frees_pages_witness:
  "\<exists>s' fs'. uvmunmap demo_root 0 1 True demo_phys = Ok s' \<and>
    unmap_result demo_root demo_phys [0x87FF4000] {0} {0} s' fs'"
proof -
  have p: "pages 0 4096 = {0}"
    using pages_step(1) [of 0 4096] pages_empty [of 4096 "4096"] by (simp add: pg_aligned_def)
  show ?thesis
    using uvmunmap_frees_pages [of demo_phys demo_root "[0x87FF4000]" "{0}" 0 1] demo_user_space p
    by (simp add: user_space_def pg_aligned_def)
qed

section \<open>Growing\<close>

text \<open>
  Claim C16: \<open>uvmalloc\<close> either grows the address space or leaves it as it was. On success it
  returns the new size and every page between the old and the new size is mapped to a fresh
  zeroed page with the requested permissions; on lack of memory it returns 0 and every mapping
  it made is undone. In both cases what was mapped keeps its translation and its contents, and
  the free pages together with the pages of the address space are the same set as before.
\<close>

theorem uvmalloc_grows_or_undoes:
  assumes "umapped s p fs A" and "oldsz \<le> newsz" and "newsz \<le> MAXVA"
    and "\<forall>x\<in>pages (PGROUNDUP oldsz) (unat newsz). \<not> valid (leaf 2 (pmem s) p x)"
    and "PTE_R OR PTE_U OR xperm < 1024"
  shows "\<exists>r s' fs'. uvmalloc p oldsz newsz xperm s = Ok (r, s') \<and>
    (r = newsz \<and> alloc_result p s fs A (pages (PGROUNDUP oldsz) (unat newsz)) (PTE_R OR PTE_U OR xperm) s' fs' \<or>
     r = 0 \<and> undo_result p s fs A {} s' fs')"
proof -
  let ?b = "PGROUNDUP oldsz"
  have e: "pages ?b (unat ?b) = {}"
    by (simp add: pages_empty)
  have "A \<inter> pages ?b (unat newsz) = {}"
    using assms(1,4) by (auto simp: umapped_def)
  then obtain r s' where "uvmalloc_from p ?b ?b newsz xperm s = Ok (r, s')"
    and "grow_result p s fs A (pages ?b (unat ?b)) (pages ?b (unat newsz)) newsz (PTE_R OR PTE_U OR xperm) r s'"
    using uvmalloc_from_ok [of s p fs A ?b ?b newsz xperm] assms e by auto
  then show ?thesis
    using assms(2) [folded not_less] unfolding e by (auto simp: uvmalloc_def grow_result_def)
qed

theorem uvmalloc_grows_or_undoes_witness:
  "\<exists>r s' fs'. uvmalloc demo_root 0x1000 0x2000 PTE_W demo_phys = Ok (r, s') \<and>
    (r = 0x2000 \<and> alloc_result demo_root demo_phys [0x87FF4000] {0} (pages (PGROUNDUP 0x1000) 0x2000)
       (PTE_R OR PTE_U OR PTE_W) s' fs' \<or>
     r = 0 \<and> undo_result demo_root demo_phys [0x87FF4000] {0} {} s' fs')"
proof -
  have "PGROUNDUP 0x1000 = 0x1000"
    by (simp add: PGROUNDUP_aligned pg_aligned_def)
  then have "\<not> valid (leaf 2 (pmem demo_phys) demo_root x)" if "x \<in> pages (PGROUNDUP 0x1000) 0x2000" for x
    using that demo_leaf [of x] by (auto simp: demo_phys_def page_def pages_def word_less_nat_alt)
  then show ?thesis
    using uvmalloc_grows_or_undoes [of demo_phys demo_root "[0x87FF4000]" "{0}" "0x1000" "0x2000" PTE_W]
      demo_user_space by (simp add: user_space_def PTE_bits)
qed

section \<open>Copying\<close>

text \<open>
  Claim C17: \<open>copyout\<close> to a process never panics. It returns 0 exactly when every destination byte
  lies on a page that is mapped for the user and writable, and then the process sees the bytes
  there; otherwise it returns -1 after writing the bytes before the first address that is not
  writable. All other user bytes and all translations are unchanged, and memory changes only in
  pages the process owns.
\<close>

theorem copyout_writes_user_bytes:
  assumes "user_space s p fs A"
  shows "\<exists>r s'. copyout p dst bs s = Ok (r, s') \<and> out_result p s fs A dst bs r s'"
  using copyout_result [OF assms] .

theorem copyout_writes_user_bytes_witness:
  "\<exists>r s'. copyout demo_root 0x10 [1, 2, 3] demo_phys = Ok (r, s') \<and>
    out_result demo_root demo_phys [0x87FF4000] {0} 0x10 [1, 2, 3] r s'"
  using copyout_writes_user_bytes [OF demo_user_space] .

lemma unat_run:
  assumes "\<forall>i<n. va + of_nat i < MAXVA" and "i < n"
  shows "unat (va + of_nat i) = unat va + i"
  using assms(2)
proof (induction i)
  case 0
  then show ?case by simp
next
  case (Suc i)
  then have u: "unat (va + of_nat i) = unat va + i" and "va + of_nat i < MAXVA"
    using assms(1) by simp_all
  then have "unat va + i < 0x4000000000"
    by (simp only: word_less_nat_alt) simp
  moreover have eq: "va + of_nat (Suc i) = (va + of_nat i) + 1"
    by simp
  ultimately show ?case
    unfolding eq unat_word_ariths(1) [of "va + of_nat i" 1] u by simp
qed

lemma ubytes_written:
  assumes w: "written m (pmem s') p A dst bs" and us': "user_space s' p fs A"
    and wr: "\<forall>i<length bs. uwritable m p (dst + of_nat i)"
  shows "ubytes (pmem s') p dst (length bs) = bs" "\<forall>i<length bs. uacc (pmem s') p (dst + of_nat i)"
proof -
  have acc: "uacc (pmem s') p (dst + of_nat i)" if "i < length bs" for i
    using wr that uacc_written(1) [OF w] by (simp add: uwritable_def)
  then show "\<forall>i<length bs. uacc (pmem s') p (dst + of_nat i)"
    by blast
  have lt: "\<forall>i<length bs. dst + of_nat i < MAXVA"
    using acc by (simp add: uacc_def)
  have "ubyte (pmem s') p (dst + of_nat i) = bs ! i" if i: "i < length bs" for i
  proof -
    have "PGROUNDDOWN (dst + of_nat i) \<in> A"
      using user_frame(1) [OF us' acc [OF i]] .
    then show ?thesis
      using w lt i unat_run [OF lt i] by (simp add: written_def)
  qed
  then show "ubytes (pmem s') p dst (length bs) = bs"
    by (intro nth_equalityI) (simp_all add: ubytes_def)
qed

text \<open>
  Claim C8: what \<open>copyout\<close> has stored, \<open>copyin\<close> reads back. After a successful \<open>copyout\<close> of a
  buffer, \<open>copyin\<close> of the same range succeeds and returns the buffer.
\<close>

theorem copyout_copyin_roundtrip:
  assumes us: "user_space s p fs A" and out: "copyout p dst bs s = Ok (0, s')"
  shows "copyin p dst (length bs) s' = Ok (0, bs)"
proof -
  have "out_result p s fs A dst bs 0 s'"
    using copyout_result [OF us, of dst bs] out by auto
  then have w: "written (pmem s) (pmem s') p A dst bs" and us': "user_space s' p fs A"
    and wr: "\<forall>i<length bs. uwritable (pmem s) p (dst + of_nat i)"
    by (auto simp: out_result_def)
  then show ?thesis
    using copyin_result [OF us', of "length bs" dst "[]"] ubytes_written [OF w us' wr] by (auto simp: copyin_def)
qed

lemma demo_copyout: "\<exists>s'. copyout demo_root 0x10 [1, 2, 3] demo_phys = Ok (0, s')"
proof -
  obtain r s' where r: "copyout demo_root 0x10 [1, 2, 3] demo_phys = Ok (r, s')"
    and o: "out_result demo_root demo_phys [0x87FF4000] {0} 0x10 [1, 2, 3] r s'"
    using copyout_result [OF demo_user_space] by blast
  have "uwritable demo_mem demo_root (0x10 + of_nat n)" if "n < 3" for n
  proof -
    have "n = 0 \<or> n = 1 \<or> n = 2"
      using that by auto
    then have "unat (0x10 + of_nat n :: u64) < 4096"
      by auto
    then have "page (0x10 + of_nat n) = 0" "0x10 + of_nat n < MAXVA"
      by (simp_all add: page_def word_less_nat_alt)
    then show ?thesis
      using demo_leaf [of "0x10 + of_nat n"]
      by (simp add: uwritable_def uacc_def bit_simps PTE_bits)
  qed
  then have "r = 0"
    using o by (auto simp: out_result_def demo_phys_def)
  then show ?thesis
    using r by blast
qed

theorem copyout_copyin_roundtrip_witness:
  "\<exists>s'. copyout demo_root 0x10 [1, 2, 3] demo_phys = Ok (0, s') \<and>
     copyin demo_root 0x10 3 s' = Ok (0, [1, 2, 3])"
proof -
  obtain s' where s': "copyout demo_root 0x10 [1, 2, 3] demo_phys = Ok (0, s')"
    using demo_copyout by blast
  then show ?thesis
    using copyout_copyin_roundtrip [OF demo_user_space s'] by (auto simp: numeral_3_eq_3)
qed

text \<open>
  Claim C18: \<open>copyinstr\<close> returns 0 exactly with a NUL-terminated string of user memory that fits
  in \<^verbatim>\<open>max\<close> bytes, the NUL included; otherwise it returns -1, either because \<^verbatim>\<open>max\<close> bytes held no
  NUL or because it met an address the user cannot access. It never panics and never reads a
  page that is not mapped for the user.
\<close>

theorem copyinstr_reads_string:
  assumes "user_space s p fs A"
  shows "\<exists>x. copyinstr p va mx s = Ok x \<and> str_result (pmem s) p va mx x"
  using copyinstr_result [OF assms, of va mx "[]"] by (auto simp: copyinstr_def)

theorem copyinstr_reads_string_witness:
  "\<exists>x. copyinstr demo_root 0 16 demo_phys = Ok x \<and> str_result (pmem demo_phys) demo_root 0 16 x"
  using copyinstr_reads_string [OF demo_user_space] .

end
