(* ===== verification/Xv6_Spinlock.thy ===== *)
theory Xv6_Spinlock
  imports Xv6_Prelude
begin

text \<open>
  Spin locks and the nesting of interrupt disabling, \<^verbatim>\<open>kernel/spinlock.c\<close>, and sleep locks,
  \<^verbatim>\<open>kernel/sleeplock.c\<close>. A processor is its \<^verbatim>\<open>struct cpu\<close> together with its interrupt-enable bit;
  a pointer \<^verbatim>\<open>struct cpu *\<close> is the index of the processor, absent for the null pointer.

  The functions describe a call that runs alone: \<open>acquire\<close> on a lock that is taken spins and is
  \<open>Stuck\<close>. The second part splits \<open>acquire\<close> and \<open>release\<close> into their memory accesses and shows
  mutual exclusion for every interleaving of any number of processors.
\<close>

section \<open>Code\<close>

record cpu =
  cproc :: "nat option"
  noff :: c_int
  intena :: bool
  sie :: bool

record spinlock =
  locked :: u32
  lcpu :: "nat option"
  lname :: string

record 'l lockst =
  cpus :: "nat \<Rightarrow> cpu"
  lks :: "'l \<Rightarrow> spinlock"

definition initlock :: "'l \<Rightarrow> string \<Rightarrow> ('l, 'z) lockst_scheme \<Rightarrow> ('l, 'z) lockst_scheme" where
  "initlock l name st = st\<lparr>lks := (lks st)(l := \<lparr>locked = 0, lcpu = None, lname = name\<rparr>)\<rparr>"

definition holding :: "nat \<Rightarrow> spinlock \<Rightarrow> bool" where
  "holding c lk \<longleftrightarrow> locked lk \<noteq> 0 \<and> lcpu lk = Some c"

definition push_off_cpu :: "cpu \<Rightarrow> cpu" where
  "push_off_cpu c =
     (let old = sie c;
          c = c\<lparr>sie := False\<rparr>;
          c = (if noff c = 0 then c\<lparr>intena := old\<rparr> else c)
      in c\<lparr>noff := noff c + 1\<rparr>)"

definition pop_off_cpu :: "cpu \<Rightarrow> cpu res" where
  "pop_off_cpu c =
     (if sie c then Panic ''pop_off - interruptible''
      else if noff c <s 1 then Panic ''pop_off''
      else
        let c = c\<lparr>noff := noff c - 1\<rparr>
        in Ok (if noff c = 0 \<and> intena c then c\<lparr>sie := True\<rparr> else c))"

definition push_off :: "nat \<Rightarrow> ('l, 'z) lockst_scheme \<Rightarrow> ('l, 'z) lockst_scheme" where
  "push_off i st = st\<lparr>cpus := (cpus st)(i := push_off_cpu (cpus st i))\<rparr>"

definition pop_off :: "nat \<Rightarrow> ('l, 'z) lockst_scheme \<Rightarrow> ('l, 'z) lockst_scheme res" where
  "pop_off i st =
     rbind (pop_off_cpu (cpus st i)) (\<lambda>c. Ok (st\<lparr>cpus := (cpus st)(i := c)\<rparr>))"

definition acquire :: "nat \<Rightarrow> 'l \<Rightarrow> ('l, 'z) lockst_scheme \<Rightarrow> ('l, 'z) lockst_scheme res" where
  "acquire i l st =
     (let st = push_off i st in
      if holding i (lks st l) then Panic ''acquire''
      else if locked (lks st l) \<noteq> 0 then Stuck
      else Ok (st\<lparr>lks := (lks st)(l := (lks st l)\<lparr>locked := 1, lcpu := Some i\<rparr>)\<rparr>))"

definition release :: "nat \<Rightarrow> 'l \<Rightarrow> ('l, 'z) lockst_scheme \<Rightarrow> ('l, 'z) lockst_scheme res" where
  "release i l st =
     (if \<not> holding i (lks st l) then Panic ''release''
      else
        pop_off i (st\<lparr>lks := (lks st)(l := (lks st l)\<lparr>lcpu := None, locked := 0\<rparr>)\<rparr>))"

section \<open>Nesting\<close>

text \<open>
  \<open>cpu_wf\<close>: the nesting depth is a small natural number and interrupts are off inside.
\<close>

definition cpu_wf :: "cpu \<Rightarrow> bool" where
  "cpu_wf c \<longleftrightarrow> unat (noff c) < 1000 \<and> (noff c \<noteq> 0 \<longrightarrow> \<not> sie c)"

lemma noff_step:
  assumes "unat (n :: c_int) < 1000"
  shows "unat (n + 1) = unat n + 1" "n + 1 \<noteq> 0" "\<not> n + 1 <s 1"
proof -
  show u: "unat (n + 1) = unat n + 1"
    using assms by (simp add: unat_word_ariths(1))
  then show "n + 1 \<noteq> 0"
    by (metis add_is_0 one_neq_zero unat_0)
  have "sint (n + 1) = int (unat n + 1)"
    using sint_small [of "n + 1"] u assms by simp
  then show "\<not> n + 1 <s 1"
    by (simp add: word_sless_alt)
qed

lemma push_off_wf: "unat (noff c) + 1 < 1000 \<Longrightarrow> cpu_wf (push_off_cpu c)"
  using noff_step(1) [of "noff c"] by (simp add: cpu_wf_def push_off_cpu_def Let_def)

text \<open>
  A matched pair restores the processor; at the outermost level \<^verbatim>\<open>intena\<close> keeps the record of the
  interrupt state.
\<close>

lemma pop_push:
  assumes "unat (noff c) < 1000" and "noff c \<noteq> 0 \<longrightarrow> \<not> sie c"
  shows "pop_off_cpu (push_off_cpu c) = Ok (c\<lparr>intena := (if noff c = 0 then sie c else intena c)\<rparr>)"
  using noff_step(3) [OF assms(1)] assms(2)
  by (simp add: push_off_cpu_def pop_off_cpu_def Let_def)

section \<open>Critical sections of a call that runs alone\<close>

lemma acquire_free:
  "locked (lks st l) = 0 \<Longrightarrow> acquire i l st =
     Ok (st\<lparr>cpus := (cpus st)(i := push_off_cpu (cpus st i)),
            lks := (lks st)(l := (lks st l)\<lparr>locked := 1, lcpu := Some i\<rparr>)\<rparr>)"
  by (simp add: acquire_def push_off_def holding_def Let_def)

lemma acquire_taken:
  "locked (lks st l) \<noteq> 0 \<Longrightarrow> lcpu (lks st l) \<noteq> Some i \<Longrightarrow> acquire i l st = Stuck"
  by (simp add: acquire_def push_off_def holding_def Let_def)

lemma acquire_twice: "holding i (lks st l) \<Longrightarrow> acquire i l st = Panic ''acquire''"
  by (simp add: acquire_def push_off_def Let_def)

lemma release_held:
  "holding i (lks st l) \<Longrightarrow> pop_off_cpu (cpus st i) = Ok c \<Longrightarrow> release i l st =
     Ok (st\<lparr>lks := (lks st)(l := (lks st l)\<lparr>lcpu := None, locked := 0\<rparr>), cpus := (cpus st)(i := c)\<rparr>)"
  by (simp add: release_def pop_off_def)

text \<open>A lock that nobody holds.\<close>

definition lock_free :: "spinlock \<Rightarrow> bool" where
  "lock_free lk \<longleftrightarrow> locked lk = 0 \<and> lcpu lk = None"

definition settle :: "cpu \<Rightarrow> cpu" where
  "settle c = c\<lparr>intena := (if noff c = 0 then sie c else intena c)\<rparr>"

lemma settle_simps [simp]:
  "noff (settle c) = noff c" "sie (settle c) = sie c" "cproc (settle c) = cproc c"
  "settle (settle c) = settle c"
  by (simp_all add: settle_def)

lemma cpu_wf_settle [simp]: "cpu_wf (settle c) = cpu_wf c"
  by (simp add: cpu_wf_def)

text \<open>
  A critical section: with the lock free and a body that leaves locks and processors alone, the
  section is the body; the processor is as before but for the record of its interrupt state.
\<close>

lemma critical_section:
  assumes "cpu_wf (cpus st i)" and "lock_free (lks st l)"
    and f: "\<And>s. cpus (f s) = cpus s" "\<And>s. lks (f s) = lks s"
      "\<And>s a b. f (s\<lparr>cpus := a, lks := b\<rparr>) = (f s)\<lparr>cpus := a, lks := b\<rparr>"
  shows "rbind (acquire i l st) (\<lambda>st. release i l (f st)) =
    Ok ((f st)\<lparr>cpus := (cpus st)(i := settle (cpus st i))\<rparr>)"
proof -
  let ?st = "st\<lparr>cpus := (cpus st)(i := push_off_cpu (cpus st i)),
            lks := (lks st)(l := (lks st l)\<lparr>locked := 1, lcpu := Some i\<rparr>)\<rparr>"
  have a: "acquire i l st = Ok ?st"
    using assms(2) by (simp add: acquire_free lock_free_def)
  have p: "pop_off_cpu (push_off_cpu (cpus st i)) = Ok (settle (cpus st i))"
    using pop_push assms(1) by (simp add: cpu_wf_def settle_def)
  have fs: "f ?st = (f st)\<lparr>cpus := cpus ?st, lks := lks ?st\<rparr>"
    by (simp add: f(3))
  have "holding i (lks (f ?st) l)" "pop_off_cpu (cpus (f ?st) i) = Ok (settle (cpus st i))"
    using p by (simp_all add: fs holding_def)
  then have r: "release i l (f ?st) =
      Ok ((f ?st)\<lparr>lks := (lks (f ?st))(l := (lks (f ?st) l)\<lparr>lcpu := None, locked := 0\<rparr>),
                  cpus := (cpus (f ?st))(i := settle (cpus st i))\<rparr>)"
    by (rule release_held)
  have "(lks st l)\<lparr>locked := 1, lcpu := None, locked := 0\<rparr> = lks st l"
    using assms(2) by (simp add: lock_free_def)
  then have "release i l (f ?st) =
      Ok ((f st)\<lparr>cpus := (cpus st)(i := settle (cpus st i)), lks := lks st\<rparr>)"
    using r by (simp add: fs fun_upd_idem)
  moreover have "(f st)\<lparr>cpus := c, lks := lks st\<rparr> = (f st)\<lparr>cpus := c\<rparr>" for c
    using f(2) [of st] by (metis lockst.surjective lockst.update_convs(1,2))
  ultimately show ?thesis
    using a by simp
qed

section \<open>Interleavings\<close>

text \<open>
  Every processor runs through \<open>acquire\<close> and \<open>release\<close> of one lock, one access to the lock word or
  to its owner field per step: \<open>holding\<close> reads the one and then the other, the atomic swap may be
  repeated, the owner is recorded after the swap and erased before the lock word is cleared, and
  \<open>pop_off\<close> comes last. A processor that panics stays where it is.
\<close>

datatype pc = Idle | Chk | Chk2 | Spin | Got | Crit | Out | Drop | Rel | Pop | Panicked

record mach =
  pcs :: "nat \<Rightarrow> pc"
  mlk :: spinlock
  mcpus :: "nat \<Rightarrow> cpu"

inductive lk_step :: "mach \<Rightarrow> mach \<Rightarrow> bool" where
  call: "pcs m i = Idle \<Longrightarrow>
    lk_step m (m\<lparr>pcs := (pcs m)(i := Chk), mcpus := (mcpus m)(i := push_off_cpu (mcpus m i))\<rparr>)"
| look: "pcs m i = Chk \<Longrightarrow>
    lk_step m (m\<lparr>pcs := (pcs m)(i := if locked (mlk m) = 0 then Spin else Chk2)\<rparr>)"
| mine: "pcs m i = Chk2 \<Longrightarrow>
    lk_step m (m\<lparr>pcs := (pcs m)(i := if lcpu (mlk m) = Some i then Panicked else Spin)\<rparr>)"
| spin: "pcs m i = Spin \<Longrightarrow> locked (mlk m) \<noteq> 0 \<Longrightarrow> lk_step m (m\<lparr>mlk := (mlk m)\<lparr>locked := 1\<rparr>\<rparr>)"
| take: "pcs m i = Spin \<Longrightarrow> locked (mlk m) = 0 \<Longrightarrow>
    lk_step m (m\<lparr>pcs := (pcs m)(i := Got), mlk := (mlk m)\<lparr>locked := 1\<rparr>\<rparr>)"
| own: "pcs m i = Got \<Longrightarrow> lk_step m (m\<lparr>pcs := (pcs m)(i := Crit), mlk := (mlk m)\<lparr>lcpu := Some i\<rparr>\<rparr>)"
| leave: "pcs m i = Crit \<Longrightarrow>
    lk_step m (m\<lparr>pcs := (pcs m)(i := if locked (mlk m) = 0 then Panicked else Out)\<rparr>)"
| check: "pcs m i = Out \<Longrightarrow>
    lk_step m (m\<lparr>pcs := (pcs m)(i := if lcpu (mlk m) = Some i then Drop else Panicked)\<rparr>)"
| drop: "pcs m i = Drop \<Longrightarrow>
    lk_step m (m\<lparr>pcs := (pcs m)(i := Rel), mlk := (mlk m)\<lparr>lcpu := None\<rparr>\<rparr>)"
| free: "pcs m i = Rel \<Longrightarrow>
    lk_step m (m\<lparr>pcs := (pcs m)(i := Pop), mlk := (mlk m)\<lparr>locked := 0\<rparr>\<rparr>)"
| pop: "pcs m i = Pop \<Longrightarrow> pop_off_cpu (mcpus m i) = Ok c \<Longrightarrow>
    lk_step m (m\<lparr>pcs := (pcs m)(i := Idle), mcpus := (mcpus m)(i := c)\<rparr>)"
| pop_panic: "pcs m i = Pop \<Longrightarrow> (\<nexists>c. pop_off_cpu (mcpus m i) = Ok c) \<Longrightarrow>
    lk_step m (m\<lparr>pcs := (pcs m)(i := Panicked)\<rparr>)"
| irq: "pcs m i = Idle \<Longrightarrow> noff (mcpus m i) = 0 \<Longrightarrow>
    lk_step m (m\<lparr>mcpus := (mcpus m)(i := (mcpus m i)\<lparr>sie := b\<rparr>)\<rparr>)"

inductive_cases lk_stepE: "lk_step m m'"

text \<open>Between the swap that took the lock and the store that frees it; and while it is the recorded owner.\<close>

definition inside :: "pc \<Rightarrow> bool" where
  "inside q \<longleftrightarrow> q \<in> {Got, Crit, Out, Drop, Rel}"

definition owns :: "pc \<Rightarrow> bool" where
  "owns q \<longleftrightarrow> q \<in> {Crit, Out, Drop}"

lemma inside_simps [simp]:
  "\<not> inside Idle" "\<not> inside Chk" "\<not> inside Chk2" "\<not> inside Spin" "inside Got" "inside Crit" "inside Out"
  "inside Drop" "inside Rel" "\<not> inside Pop" "\<not> inside Panicked"
  by (simp_all add: inside_def)

lemma owns_simps [simp]:
  "\<not> owns Idle" "\<not> owns Chk" "\<not> owns Chk2" "\<not> owns Spin" "\<not> owns Got" "owns Crit" "owns Out"
  "owns Drop" "\<not> owns Rel" "\<not> owns Pop" "\<not> owns Panicked"
  by (simp_all add: owns_def)

lemma owns_inside: "owns q \<Longrightarrow> inside q"
  by (auto simp: owns_def)

definition lk_excl :: "mach \<Rightarrow> bool" where
  "lk_excl m \<longleftrightarrow>
     (if locked (mlk m) = 0 then \<forall>i. \<not> inside (pcs m i)
      else \<exists>k. inside (pcs m k) \<and> (\<forall>i. inside (pcs m i) \<longrightarrow> i = k))"

definition lk_cpus :: "mach \<Rightarrow> bool" where
  "lk_cpus m \<longleftrightarrow>
     (\<forall>i. cpu_wf (mcpus m i) \<and> pcs m i \<noteq> Panicked \<and>
        (if pcs m i = Idle then unat (noff (mcpus m i)) < 500
         else 0 < unat (noff (mcpus m i)) \<and> unat (noff (mcpus m i)) \<le> 500))"

definition lk_inv :: "mach \<Rightarrow> bool" where
  "lk_inv m \<longleftrightarrow> lk_excl m \<and> (\<forall>i. lcpu (mlk m) = Some i \<longleftrightarrow> owns (pcs m i)) \<and> lk_cpus m"

lemma push_off_simps:
  "noff (push_off_cpu c) = noff c + 1" "\<not> sie (push_off_cpu c)"
  by (simp_all add: push_off_cpu_def Let_def)

lemma pop_off_ok:
  assumes "cpu_wf c" and "0 < unat (noff c)"
  obtains c' where "pop_off_cpu c = Ok c'" "cpu_wf c'" "unat (noff c') = unat (noff c) - 1"
proof -
  let ?n = "noff c - 1"
  have n: "noff c = ?n + 1"
    by simp
  have le: "1 \<le> noff c"
    using assms(2) by (simp add: word_le_nat_alt)
  have u: "unat ?n = unat (noff c) - 1"
    using unat_sub [OF le] by simp
  then have "unat ?n < 1000"
    using assms(1) unfolding cpu_wf_def by linarith
  then have s: "\<not> noff c <s 1"
    using noff_step(3) [of ?n] n by simp
  have e: "\<not> sie c"
    using assms by (auto simp: cpu_wf_def)
  let ?c = "if ?n = 0 \<and> intena c then c\<lparr>noff := ?n, sie := True\<rparr> else c\<lparr>noff := ?n\<rparr>"
  have "pop_off_cpu c = Ok ?c"
    using s e by (simp add: pop_off_cpu_def Let_def)
  moreover have nc: "noff ?c = ?n"
    by simp
  moreover have "?n \<noteq> 0 \<Longrightarrow> \<not> sie ?c"
    using e by simp
  moreover have "unat ?n < 1000"
    using u assms(1) unfolding cpu_wf_def by linarith
  ultimately show thesis
    using that [of ?c] u unfolding cpu_wf_def by metis
qed

lemma lk_excl_unique: "lk_excl m \<Longrightarrow> inside (pcs m i) \<Longrightarrow> inside (pcs m j) \<Longrightarrow> i = j"
  unfolding lk_excl_def by metis

lemma lk_excl_cong:
  "(\<And>j. inside (pcs m' j) = inside (pcs m j)) \<Longrightarrow> locked (mlk m') = locked (mlk m) \<Longrightarrow>
   lk_excl m' = lk_excl m"
  by (simp add: lk_excl_def)

lemma lk_cpus_upd:
  assumes "lk_cpus m" and "cpu_wf c" and "q \<noteq> Panicked"
    and "if q = Idle then unat (noff c) < 500 else 0 < unat (noff c) \<and> unat (noff c) \<le> 500"
  shows "lk_cpus (m\<lparr>pcs := (pcs m)(i := q), mlk := l, mcpus := (mcpus m)(i := c)\<rparr>)"
  using assms by (simp add: lk_cpus_def)

lemma lk_cpus_pc:
  assumes "lk_cpus m" and "pcs m i \<noteq> Idle" and "q \<noteq> Idle" and "q \<noteq> Panicked"
  shows "lk_cpus (m\<lparr>pcs := (pcs m)(i := q), mlk := l\<rparr>)"
  using assms lk_cpus_upd [OF assms(1), of "mcpus m i" q i l] by (simp add: lk_cpus_def)

text \<open>A step of a processor that changes neither the lock nor what the processor holds of it.\<close>

lemma lk_inv_pc:
  assumes "lk_inv m" and "pcs m i \<noteq> Idle" "q \<noteq> Idle" "q \<noteq> Panicked"
    and "inside q = inside (pcs m i)" "owns q = owns (pcs m i)"
  shows "lk_inv (m\<lparr>pcs := (pcs m)(i := q)\<rparr>)"
proof -
  have "lk_excl (m\<lparr>pcs := (pcs m)(i := q)\<rparr>) = lk_excl m"
    using assms(5) by (intro lk_excl_cong) simp_all
  then show ?thesis
    using assms lk_cpus_pc [of m i q "mlk m"] by (simp add: lk_inv_def)
qed

lemma lk_inv_locked: "lk_inv m \<Longrightarrow> inside (pcs m i) \<Longrightarrow> locked (mlk m) \<noteq> 0"
  by (auto simp: lk_inv_def lk_excl_def split: if_splits)

lemma lk_inv_pop:
  assumes "lk_inv m" and "pcs m i \<noteq> Idle"
  obtains c where "pop_off_cpu (mcpus m i) = Ok c" "cpu_wf c" "unat (noff c) < 500"
proof -
  have n: "0 < unat (noff (mcpus m i))" "unat (noff (mcpus m i)) \<le> 500" and wf: "cpu_wf (mcpus m i)"
    using assms by (simp_all add: lk_inv_def lk_cpus_def)
  from pop_off_ok [OF wf n(1)] show thesis
    using that n by (metis diff_less less_le_trans zero_less_one)
qed

lemma lk_inv_step:
  assumes "lk_step m m'" and "lk_inv m"
  shows "lk_inv m'"
  using assms
proof (induction rule: lk_step.induct)
  case (call m i)
  have n: "unat (noff (mcpus m i)) < 500"
    using call by (simp add: lk_inv_def lk_cpus_def split: if_splits)
  then have "unat (noff (push_off_cpu (mcpus m i))) = unat (noff (mcpus m i)) + 1"
    "cpu_wf (push_off_cpu (mcpus m i))"
    using noff_step(1) [of "noff (mcpus m i)"] push_off_wf by (simp_all add: push_off_simps)
  then have "lk_cpus (m\<lparr>pcs := (pcs m)(i := Chk), mlk := mlk m, mcpus := (mcpus m)(i := push_off_cpu (mcpus m i))\<rparr>)"
    using call n by (intro lk_cpus_upd) (simp_all add: lk_inv_def)
  moreover have "lk_excl (m\<lparr>pcs := (pcs m)(i := Chk),
      mcpus := (mcpus m)(i := push_off_cpu (mcpus m i))\<rparr>) = lk_excl m"
    using call(1) by (intro lk_excl_cong) simp_all
  ultimately show ?case
    using call by (auto simp: lk_inv_def)
next
  case (look m i)
  then show ?case by (intro lk_inv_pc) simp_all
next
  case (mine m i)
  then have "lcpu (mlk m) \<noteq> Some i"
    by (simp add: lk_inv_def)
  then show ?case
    using mine by (intro lk_inv_pc) simp_all
next
  case (spin m i)
  then show ?case by (simp add: lk_inv_def lk_excl_def lk_cpus_def)
next
  case (take m i)
  then have "lk_cpus (m\<lparr>pcs := (pcs m)(i := Got), mlk := (mlk m)\<lparr>locked := 1\<rparr>\<rparr>)"
    by (intro lk_cpus_pc) (simp_all add: lk_inv_def)
  then show ?case
    using take by (auto simp: lk_inv_def lk_excl_def)
next
  case (own m i)
  then have "lk_cpus (m\<lparr>pcs := (pcs m)(i := Crit), mlk := (mlk m)\<lparr>lcpu := Some i\<rparr>\<rparr>)"
    by (intro lk_cpus_pc) (simp_all add: lk_inv_def)
  moreover have "\<not> owns (pcs m j)" for j
    using lk_excl_unique [of m i j] own owns_inside [of "pcs m j"] by (auto simp: lk_inv_def)
  moreover have "lk_excl (m\<lparr>pcs := (pcs m)(i := Crit), mlk := (mlk m)\<lparr>lcpu := Some i\<rparr>\<rparr>) = lk_excl m"
    using own(1) by (intro lk_excl_cong) simp_all
  ultimately show ?case
    using own(2) by (auto simp: lk_inv_def)
next
  case (leave m i)
  then have "locked (mlk m) \<noteq> 0"
    using lk_inv_locked [of m i] by simp
  then show ?case
    using leave by (intro lk_inv_pc) simp_all
next
  case (check m i)
  then have "lcpu (mlk m) = Some i"
    by (simp add: lk_inv_def)
  then show ?case
    using check by (intro lk_inv_pc) simp_all
next
  case (drop m i)
  then have "lk_cpus (m\<lparr>pcs := (pcs m)(i := Rel), mlk := (mlk m)\<lparr>lcpu := None\<rparr>\<rparr>)"
    by (intro lk_cpus_pc) (simp_all add: lk_inv_def)
  moreover have "lk_excl (m\<lparr>pcs := (pcs m)(i := Rel), mlk := (mlk m)\<lparr>lcpu := None\<rparr>\<rparr>) = lk_excl m"
    using drop(1) by (intro lk_excl_cong) simp_all
  moreover have "owns (pcs m j) \<longrightarrow> j = i" for j
    using lk_excl_unique [of m i j] drop owns_inside [of "pcs m j"] by (auto simp: lk_inv_def)
  ultimately show ?case
    using drop(2) by (auto simp: lk_inv_def)
next
  case (free m i)
  then have "lk_cpus (m\<lparr>pcs := (pcs m)(i := Pop), mlk := (mlk m)\<lparr>locked := 0\<rparr>\<rparr>)"
    by (intro lk_cpus_pc) (simp_all add: lk_inv_def)
  moreover have "inside (pcs m j) \<longrightarrow> j = i" for j
    using lk_excl_unique [of m i j] free by (auto simp: lk_inv_def)
  ultimately show ?case
    using free by (auto simp: lk_inv_def lk_excl_def)
next
  case (pop m i c)
  then have "cpu_wf c" "unat (noff c) < 500"
    using lk_inv_pop [of m i] by (metis pc.distinct(18) res.inject(1))+
  then have "lk_cpus (m\<lparr>pcs := (pcs m)(i := Idle), mlk := mlk m, mcpus := (mcpus m)(i := c)\<rparr>)"
    using pop by (intro lk_cpus_upd) (simp_all add: lk_inv_def)
  moreover have "lk_excl (m\<lparr>pcs := (pcs m)(i := Idle), mcpus := (mcpus m)(i := c)\<rparr>) = lk_excl m"
    using pop(1) by (intro lk_excl_cong) simp_all
  ultimately show ?case
    using pop by (auto simp: lk_inv_def)
next
  case (pop_panic m i)
  then show ?case
    using lk_inv_pop [of m i] by auto
next
  case (irq m i b)
  then have "lk_cpus (m\<lparr>mcpus := (mcpus m)(i := (mcpus m i)\<lparr>sie := b\<rparr>)\<rparr>)"
    by (auto simp: lk_inv_def lk_cpus_def cpu_wf_def)
  then show ?case
    using irq by (simp add: lk_inv_def lk_excl_def)
qed

definition lk_init :: "(nat \<Rightarrow> cpu) \<Rightarrow> string \<Rightarrow> mach" where
  "lk_init cs name =
     \<lparr>pcs = (\<lambda>_. Idle), mlk = \<lparr>locked = 0, lcpu = None, lname = name\<rparr>, mcpus = cs\<rparr>"

lemma lk_inv_reachable:
  "lk_step\<^sup>*\<^sup>* m m' \<Longrightarrow> lk_inv m \<Longrightarrow> lk_inv m'"
  by (induction rule: rtranclp_induct) (auto intro: lk_inv_step)

lemma lk_inv_init:
  "\<forall>i. cpu_wf (cs i) \<and> unat (noff (cs i)) < 500 \<Longrightarrow> lk_inv (lk_init cs name)"
  by (simp add: lk_init_def lk_inv_def lk_excl_def lk_cpus_def)

text \<open>
  Claim C3: spin locks exclude each other for every interleaving of the accesses of any number of
  processors. At most one processor is between the atomic swap that took the lock and the store
  that frees it; \<open>holding\<close> is true exactly for the processor that has recorded itself as the owner and has
  not erased that yet, as it is in the whole critical section; from the moment a processor starts to acquire the lock
  until it has released it its interrupts are off; and no processor panics in \<open>acquire\<close>, \<open>release\<close> or \<open>pop_off\<close>.
\<close>

theorem spinlock_mutual_exclusion:
  assumes "\<forall>i. cpu_wf (cs i) \<and> unat (noff (cs i)) < 500"
    and "lk_step\<^sup>*\<^sup>* (lk_init cs name) m"
  shows "(inside (pcs m i) \<longrightarrow> inside (pcs m j) \<longrightarrow> i = j) \<and>
    (holding i (mlk m) \<longleftrightarrow> pcs m i \<in> {Crit, Out, Drop}) \<and>
    (pcs m i \<noteq> Idle \<longrightarrow> \<not> sie (mcpus m i)) \<and>
    pcs m i \<noteq> Panicked"
proof -
  have inv: "lk_inv m"
    using lk_inv_reachable [OF assms(2) lk_inv_init [OF assms(1)]] .
  have h: "holding i (mlk m) \<longleftrightarrow> owns (pcs m i)"
    using inv lk_inv_locked [OF inv owns_inside] by (auto simp: lk_inv_def holding_def)
  have wf: "cpu_wf (mcpus m i)" "pcs m i \<noteq> Panicked"
    and n: "pcs m i \<noteq> Idle \<longrightarrow> 0 < unat (noff (mcpus m i))"
    using inv by (auto simp: lk_inv_def lk_cpus_def dest: spec [of _ i])
  have off: "pcs m i \<noteq> Idle \<longrightarrow> \<not> sie (mcpus m i)"
    using wf(1) n by (auto simp: cpu_wf_def)
  show ?thesis
    using lk_excl_unique [of m i j] inv h off wf(2) by (simp add: lk_inv_def owns_def)
qed

definition idle_cpu :: cpu where
  "idle_cpu = \<lparr>cproc = None, noff = 0, intena = False, sie = True\<rparr>"

text \<open>A processor that has taken the lock, while another waits for it.\<close>

definition demo_lock :: mach where
  "demo_lock = \<lparr>pcs = (\<lambda>_. Idle)(0 := Crit, 1 := Chk), mlk = \<lparr>locked = 1, lcpu = Some 0, lname = ''kmem''\<rparr>,
     mcpus = (\<lambda>_. idle_cpu)(0 := push_off_cpu idle_cpu, 1 := push_off_cpu idle_cpu)\<rparr>"

lemma demo_lock_reachable: "lk_step\<^sup>*\<^sup>* (lk_init (\<lambda>_. idle_cpu) ''kmem'') demo_lock"
proof -
  let ?c = "\<lambda>_. idle_cpu" and ?p = "push_off_cpu idle_cpu"
  let ?f = "\<lambda>q l c1 q1. \<lparr>pcs = (\<lambda>_. Idle)(0 := q, 1 := q1), mlk = l, mcpus = ?c(0 := ?p, 1 := c1)\<rparr>"
  let ?l = "\<lambda>n c. \<lparr>locked = n, lcpu = c, lname = ''kmem''\<rparr>"
  have s1: "lk_step (lk_init ?c ''kmem'') (?f Chk (?l 0 None) idle_cpu Idle)"
    using lk_step.call [of "lk_init ?c ''kmem''" 0] by (simp add: lk_init_def fun_upd_twist fun_upd_idem)
  have s2: "lk_step (?f Chk (?l 0 None) idle_cpu Idle) (?f Spin (?l 0 None) idle_cpu Idle)"
    using lk_step.look [of "?f Chk (?l 0 None) idle_cpu Idle" 0] by (simp add: fun_upd_twist)
  have s3: "lk_step (?f Spin (?l 0 None) idle_cpu Idle) (?f Got (?l 1 None) idle_cpu Idle)"
    using lk_step.take [of "?f Spin (?l 0 None) idle_cpu Idle" 0] by (simp add: fun_upd_twist)
  have s4: "lk_step (?f Got (?l 1 None) idle_cpu Idle) (?f Crit (?l 1 (Some 0)) idle_cpu Idle)"
    using lk_step.own [of "?f Got (?l 1 None) idle_cpu Idle" 0] by (simp add: fun_upd_twist)
  have s5: "lk_step (?f Crit (?l 1 (Some 0)) idle_cpu Idle) (?f Crit (?l 1 (Some 0)) ?p Chk)"
    using lk_step.call [of "?f Crit (?l 1 (Some 0)) idle_cpu Idle" 1] by (simp add: fun_upd_twist)
  show ?thesis
    unfolding demo_lock_def
    using s1 s2 s3 s4 s5 by (meson converse_rtranclp_into_rtranclp rtranclp.rtrancl_refl)
qed

theorem spinlock_mutual_exclusion_witness:
  "\<exists>m. lk_step\<^sup>*\<^sup>* (lk_init (\<lambda>_. idle_cpu) ''kmem'') m \<and> pcs m 0 = Crit \<and> pcs m 1 = Chk \<and>
     holding 0 (mlk m) \<and> \<not> holding 1 (mlk m) \<and> \<not> sie (mcpus m 0) \<and> \<not> sie (mcpus m 1)"
proof -
  have "\<forall>i. cpu_wf idle_cpu \<and> unat (noff idle_cpu) < 500"
    by (simp add: idle_cpu_def cpu_wf_def)
  note * = spinlock_mutual_exclusion [OF this demo_lock_reachable]
  have "pcs demo_lock 0 = Crit" "pcs demo_lock 1 = Chk"
    by (simp_all add: demo_lock_def)
  then show ?thesis
    using * [of 0 1] * [of 1 0] demo_lock_reachable by (intro exI [of _ demo_lock]) simp
qed

section \<open>Sleep locks\<close>

text \<open>
  The state of a sleep lock as \<open>lk->lk\<close> protects it. \<open>acquiresleep\<close> run by the process \<open>pid\<close>
  either takes the lock or goes to sleep on it, and tries again when it is woken; the call that
  has to sleep is \<open>None\<close>. \<open>releasesleep\<close> also wakes the sleepers of the lock.
\<close>

record sleeplock =
  slocked :: u32
  sname :: string
  spid :: c_int

definition initsleeplock :: "string \<Rightarrow> sleeplock" where
  "initsleeplock name = \<lparr>slocked = 0, sname = name, spid = 0\<rparr>"

definition acquiresleep :: "c_int \<Rightarrow> sleeplock \<Rightarrow> sleeplock option" where
  "acquiresleep pid k = (if slocked k \<noteq> 0 then None else Some (k\<lparr>slocked := 1, spid := pid\<rparr>))"

definition releasesleep :: "sleeplock \<Rightarrow> sleeplock" where
  "releasesleep k = k\<lparr>slocked := 0, spid := 0\<rparr>"

definition holdingsleep :: "c_int \<Rightarrow> sleeplock \<Rightarrow> bool" where
  "holdingsleep pid k \<longleftrightarrow> slocked k \<noteq> 0 \<and> spid k = pid"

lemma acquiresleep_holding:
  "acquiresleep pid k = Some k' \<Longrightarrow>
   holdingsleep pid k' \<and> (\<forall>pid'. acquiresleep pid' k' = None) \<and> (\<forall>pid'. holdingsleep pid' k' \<longrightarrow> pid' = pid)"
  by (auto simp: acquiresleep_def holdingsleep_def split: if_splits)

lemma releasesleep_free: "\<exists>k'. acquiresleep pid (releasesleep k) = Some k'"
  by (simp add: acquiresleep_def releasesleep_def)

end
