(* ===== verification/Xv6_Proc.thy ===== *)
theory Xv6_Proc
  imports Xv6_Vm Xv6_Spinlock
begin

text \<open>
  Processes, \<^verbatim>\<open>kernel/proc.h\<close> and \<^verbatim>\<open>kernel/proc.c\<close>: the process table, allocation and release of
  slots, sleeping and waking, killing, waiting, the calls of the process monitor, and the
  scheduler. \<^verbatim>\<open>fork\<close> and \<^verbatim>\<open>exit\<close>, which also use the file system, are in a theory of their own.

  A function takes the index \<open>i\<close> of the processor it runs on. Locks are acquired and released
  where the code does it, with the functions of \<open>Xv6_Spinlock\<close>; a loop over the table has a
  counter for the slot and one for the slots that remain. A function that switches to the
  scheduler is split at the switch: the part before it ends in the state the scheduler finds, and
  \<open>p_kont\<close> records what the process does when it runs again, as its saved context does.

  \<^verbatim>\<open>myproc()\<close> is the \<^verbatim>\<open>proc\<close> field of the processor; its matched \<^verbatim>\<open>push_off\<close>/\<^verbatim>\<open>pop_off\<close> changes nothing.
\<close>

section \<open>Data\<close>

datatype procstate = UNUSED | USED | SLEEPING | RUNNABLE | RUNNING | ZOMBIE

text \<open>Addresses of the kernel objects processes sleep on: a \<^verbatim>\<open>struct proc\<close>, \<^verbatim>\<open>ticks\<close>, another object.\<close>

datatype chan = ChProc nat | ChTicks | ChObj u64

datatype lockname = PLock nat | PidLock | WaitLock | MetricsLock | TicksLock | ObjLock u64

datatype kont = AtForkret | AtYield | AtSleep lockname | AtExit

record kcontext =
  c_ra :: u64
  c_sp :: u64
  c_s :: "u64 list"

record proc =
  p_state :: procstate
  p_chan :: "chan option"
  p_killed :: c_int
  p_xstate :: c_int
  p_pid :: c_int
  p_parent :: "nat option"
  p_kstack :: u64
  p_sz :: u64
  p_pagetable :: u64
  p_trapframe :: u64
  p_context :: kcontext
  p_ofile :: "nat \<Rightarrow> nat option"
  p_cwd :: "nat option"
  p_name :: "u8 list"
  p_creation_time :: u32
  p_run_time :: u32
  p_priority :: c_int
  p_last_runnable_time :: u32
  p_total_waiting_time :: u32
  p_kont :: kont
  p_intena :: bool

record machine = "lockname lockst" +
  procs :: "nat \<Rightarrow> proc"
  initproc :: "nat option"
  nextpid :: c_int
  ticks :: u32
  sched_mode :: c_int
  total_turnaround_time :: u64
  total_waiting_time_sum :: u64
  finished_processes :: u64
  ph :: phys
  sym_trampoline :: u64
  sym_forkret :: u64

definition SCHED_ROUND_ROBIN :: c_int where "SCHED_ROUND_ROBIN = 0"
definition SCHED_FCFS :: c_int where "SCHED_FCFS = 1"
definition SCHED_PRIORITY :: c_int where "SCHED_PRIORITY = 2"

definition upd_proc :: "nat \<Rightarrow> (proc \<Rightarrow> proc) \<Rightarrow> 'z machine_scheme \<Rightarrow> 'z machine_scheme" where
  "upd_proc k f st = st\<lparr>procs := (procs st)(k := f (procs st k))\<rparr>"

definition upd_cpu :: "nat \<Rightarrow> (cpu \<Rightarrow> cpu) \<Rightarrow> 'z machine_scheme \<Rightarrow> 'z machine_scheme" where
  "upd_cpu i f st = st\<lparr>cpus := (cpus st)(i := f (cpus st i))\<rparr>"

definition myproc :: "nat \<Rightarrow> 'z machine_scheme \<Rightarrow> nat option" where
  "myproc i st = cproc (cpus st i)"

text \<open>The trapframe is a page of memory; its fields are 8-byte words at the offsets of \<^verbatim>\<open>proc.h\<close>.\<close>

definition tf_get :: "phys \<Rightarrow> u64 \<Rightarrow> nat \<Rightarrow> u64" where
  "tf_get s tf off = load64 (pmem s) (unat tf + off)"

definition tf_set :: "phys \<Rightarrow> u64 \<Rightarrow> nat \<Rightarrow> u64 \<Rightarrow> phys" where
  "tf_set s tf off v = s\<lparr>pmem := store64 (pmem s) (unat tf + off) v\<rparr>"

definition TF_epc :: nat where "TF_epc = 24"
definition TF_sp :: nat where "TF_sp = 48"
definition TF_a0 :: nat where "TF_a0 = 112"
definition TF_a1 :: nat where "TF_a1 = 120"
definition TF_a7 :: nat where "TF_a7 = 168"

section \<open>Initialisation\<close>

text \<open>\<^verbatim>\<open>procinit()\<close>: \<open>n\<close> slots remain, the next one is \<open>k\<close>.\<close>

fun procinit_from :: "nat \<Rightarrow> nat \<Rightarrow> 'z machine_scheme \<Rightarrow> 'z machine_scheme" where
  "procinit_from k 0 st = st"
| "procinit_from k (Suc n) st =
     procinit_from (Suc k) n
       (upd_proc k (\<lambda>p. p\<lparr>p_state := UNUSED, p_kstack := KSTACK (of_nat k)\<rparr>)
         (initlock (PLock k) ''proc'' st))"

definition procinit :: "'z machine_scheme \<Rightarrow> 'z machine_scheme" where
  "procinit st = procinit_from 0 NPROC (initlock WaitLock ''wait_lock'' (initlock PidLock ''nextpid'' st))"

section \<open>Allocating and freeing slots\<close>

definition allocpid :: "nat \<Rightarrow> 'z machine_scheme \<Rightarrow> (c_int \<times> 'z machine_scheme) res" where
  "allocpid i st =
     rbind (acquire i PidLock st) (\<lambda>st.
       let pid = nextpid st;
           st = st\<lparr>nextpid := nextpid st + 1\<rparr>
       in rbind (release i PidLock st) (\<lambda>st. Ok (pid, st)))"

definition proc_pagetable :: "u64 \<Rightarrow> u64 \<Rightarrow> phys \<Rightarrow> (u64 \<times> phys) res" where
  "proc_pagetable trampoline trapframe s =
     (case uvmcreate s of (pagetable, s) \<Rightarrow>
        if pagetable = 0 then Ok (0, s)
        else
          rbind (mappages pagetable TRAMPOLINE PGSIZE trampoline (PTE_R OR PTE_X) s) (\<lambda>(r, s).
            if r <s 0 then rbind (uvmfree pagetable 0 s) (\<lambda>s. Ok (0, s))
            else
              rbind (mappages pagetable TRAPFRAME PGSIZE trapframe (PTE_R OR PTE_W) s) (\<lambda>(r, s).
                if r <s 0 then
                  rbind (uvmunmap pagetable TRAMPOLINE 1 False s) (\<lambda>s.
                  rbind (uvmfree pagetable 0 s) (\<lambda>s. Ok (0, s)))
                else Ok (pagetable, s))))"

definition proc_freepagetable :: "u64 \<Rightarrow> u64 \<Rightarrow> phys \<Rightarrow> phys res" where
  "proc_freepagetable pagetable sz s =
     rbind (uvmunmap pagetable TRAMPOLINE 1 False s) (\<lambda>s.
     rbind (uvmunmap pagetable TRAPFRAME 1 False s) (\<lambda>s.
     uvmfree pagetable sz s))"

text \<open>\<^verbatim>\<open>freeproc(p)\<close> of the slot \<open>k\<close>, whose lock the caller holds.\<close>

definition freeproc :: "nat \<Rightarrow> 'z machine_scheme \<Rightarrow> 'z machine_scheme res" where
  "freeproc k st =
     rbind (if p_trapframe (procs st k) \<noteq> 0 then kfree (p_trapframe (procs st k)) (ph st) else Ok (ph st)) (\<lambda>s.
     rbind (if p_pagetable (procs st k) \<noteq> 0
            then proc_freepagetable (p_pagetable (procs st k)) (p_sz (procs st k)) s else Ok s) (\<lambda>s.
     Ok (upd_proc k (\<lambda>p. p\<lparr>p_trapframe := 0, p_pagetable := 0, p_sz := 0, p_pid := 0, p_parent := None,
           p_name := (p_name p)[0 := 0], p_chan := None, p_killed := 0, p_xstate := 0, p_state := UNUSED,
           p_creation_time := ticks st, p_run_time := 0\<rparr>) (st\<lparr>ph := s\<rparr>))))"

text \<open>The search of \<^verbatim>\<open>allocproc()\<close>: the slot it returns is locked.\<close>

fun alloc_scan :: "nat \<Rightarrow> nat \<Rightarrow> nat \<Rightarrow> 'z machine_scheme \<Rightarrow> (nat option \<times> 'z machine_scheme) res" where
  "alloc_scan i k 0 st = Ok (None, st)"
| "alloc_scan i k (Suc n) st =
     rbind (acquire i (PLock k) st) (\<lambda>st.
       if p_state (procs st k) = UNUSED then Ok (Some k, st)
       else rbind (release i (PLock k) st) (\<lambda>st. alloc_scan i (Suc k) n st))"

definition allocproc :: "nat \<Rightarrow> 'z machine_scheme \<Rightarrow> (nat option \<times> 'z machine_scheme) res" where
  "allocproc i st =
     rbind (alloc_scan i 0 NPROC st) (\<lambda>(found, st).
       case found of None \<Rightarrow> Ok (None, st)
       | Some k \<Rightarrow>
         rbind (allocpid i st) (\<lambda>(pid, st).
         let st = upd_proc k (\<lambda>p. p\<lparr>p_pid := pid, p_state := USED\<rparr>) st in
         case kalloc (ph st) of (tf, s) \<Rightarrow>
         let st = upd_proc k (\<lambda>p. p\<lparr>p_trapframe := tf\<rparr>) (st\<lparr>ph := s\<rparr>) in
         if tf = 0 then
           rbind (freeproc k st) (\<lambda>st. rbind (release i (PLock k) st) (\<lambda>st. Ok (None, st)))
         else
           rbind (proc_pagetable (sym_trampoline st) tf (ph st)) (\<lambda>(pt, s).
           let st = upd_proc k (\<lambda>p. p\<lparr>p_pagetable := pt\<rparr>) (st\<lparr>ph := s\<rparr>) in
           if pt = 0 then
             rbind (freeproc k st) (\<lambda>st. rbind (release i (PLock k) st) (\<lambda>st. Ok (None, st)))
           else
             Ok (Some k, upd_proc k (\<lambda>p. p\<lparr>
               p_context := \<lparr>c_ra = sym_forkret st, c_sp = p_kstack p + PGSIZE, c_s = replicate 12 0\<rparr>,
               p_kont := AtForkret,
               p_creation_time := ticks st, p_run_time := 0, p_priority := 10,
               p_total_waiting_time := 0, p_last_runnable_time := 0\<rparr>) st))))"

section \<open>Switching to the scheduler\<close>

text \<open>
  \<^verbatim>\<open>sched()\<close> up to its \<^verbatim>\<open>swtch\<close>. It saves \<^verbatim>\<open>intena\<close> in a local variable of the process's kernel stack.
\<close>

definition sched :: "nat \<Rightarrow> kont \<Rightarrow> 'z machine_scheme \<Rightarrow> 'z machine_scheme res" where
  "sched i k st =
     (case myproc i st of None \<Rightarrow> Stuck
      | Some p \<Rightarrow>
        if \<not> holding i (lks st (PLock p)) then Panic ''sched p->lock''
        else if noff (cpus st i) \<noteq> 1 then Panic ''sched locks''
        else if p_state (procs st p) = RUNNING then Panic ''sched running''
        else if sie (cpus st i) then Panic ''sched interruptible''
        else Ok (upd_proc p (\<lambda>q. q\<lparr>p_intena := intena (cpus st i), p_kont := k\<rparr>) st))"

text \<open>What follows the \<^verbatim>\<open>swtch\<close> of \<^verbatim>\<open>sched()\<close> when the process runs again on the processor \<open>i\<close>.\<close>

definition sched_return :: "nat \<Rightarrow> nat \<Rightarrow> 'z machine_scheme \<Rightarrow> 'z machine_scheme" where
  "sched_return i p st = upd_cpu i (\<lambda>c. c\<lparr>intena := p_intena (procs st p)\<rparr>) st"

text \<open>
  \<^verbatim>\<open>yield()\<close>: \<open>Inl\<close> when it returns to its caller without a switch, \<open>Inr\<close> at the switch.
\<close>

definition yield :: "nat \<Rightarrow> 'z machine_scheme \<Rightarrow> ('z machine_scheme + 'z machine_scheme) res" where
  "yield i st =
     (case myproc i st of None \<Rightarrow> Stuck
      | Some p \<Rightarrow>
        rbind (acquire i (PLock p) st) (\<lambda>st.
          if sched_mode st = SCHED_FCFS then rbind (release i (PLock p) st) (\<lambda>st. Ok (Inl st))
          else
            rbind (sched i AtYield
              (upd_proc p (\<lambda>q. q\<lparr>p_state := RUNNABLE, p_last_runnable_time := ticks st\<rparr>) st)) (\<lambda>st.
            Ok (Inr st))))"

text \<open>\<^verbatim>\<open>sleep(chan, lk)\<close> up to the switch.\<close>

definition sleep :: "nat \<Rightarrow> chan \<Rightarrow> lockname \<Rightarrow> 'z machine_scheme \<Rightarrow> 'z machine_scheme res" where
  "sleep i ch lk st =
     (case myproc i st of None \<Rightarrow> Stuck
      | Some p \<Rightarrow>
        rbind (acquire i (PLock p) st) (\<lambda>st.
        rbind (release i lk st) (\<lambda>st.
        sched i (AtSleep lk) (upd_proc p (\<lambda>q. q\<lparr>p_chan := Some ch, p_state := SLEEPING\<rparr>) st))))"

text \<open>
  A process that has been switched to finishes \<^verbatim>\<open>sched()\<close> and its caller: \<^verbatim>\<open>yield\<close> releases
  \<^verbatim>\<open>p->lock\<close>; \<^verbatim>\<open>sleep\<close> clears \<^verbatim>\<open>p->chan\<close>, releases \<^verbatim>\<open>p->lock\<close> and then wants \<^verbatim>\<open>lk\<close> back, which is the
  second result; \<^verbatim>\<open>forkret\<close> releases \<^verbatim>\<open>p->lock\<close>; an exited process must never run again.
\<close>

definition resume :: "nat \<Rightarrow> nat \<Rightarrow> 'z machine_scheme \<Rightarrow> (lockname option \<times> 'z machine_scheme) res" where
  "resume i p st =
     (case p_kont (procs st p) of
        AtForkret \<Rightarrow> rbind (release i (PLock p) st) (\<lambda>st. Ok (None, st))
      | AtYield \<Rightarrow> rbind (release i (PLock p) (sched_return i p st)) (\<lambda>st. Ok (None, st))
      | AtSleep lk \<Rightarrow>
          rbind (release i (PLock p) (upd_proc p (\<lambda>q. q\<lparr>p_chan := None\<rparr>) (sched_return i p st))) (\<lambda>st.
          Ok (Some lk, st))
      | AtExit \<Rightarrow> Panic ''zombie exit'')"

section \<open>wakeup, kill\<close>

fun wakeup_from :: "nat \<Rightarrow> chan option \<Rightarrow> nat \<Rightarrow> nat \<Rightarrow> 'z machine_scheme \<Rightarrow> 'z machine_scheme res" where
  "wakeup_from i ch k 0 st = Ok st"
| "wakeup_from i ch k (Suc n) st =
     (if Some k \<noteq> myproc i st then
        rbind (acquire i (PLock k) st) (\<lambda>st.
        rbind (release i (PLock k)
          (if p_state (procs st k) = SLEEPING \<and> p_chan (procs st k) = ch
           then upd_proc k (\<lambda>p. p\<lparr>p_state := RUNNABLE, p_last_runnable_time := ticks st\<rparr>) st
           else st)) (\<lambda>st.
        wakeup_from i ch (Suc k) n st))
      else wakeup_from i ch (Suc k) n st)"

text \<open>The argument is a pointer and may be null, as in the \<^verbatim>\<open>wakeup(p->parent)\<close> of an orphan.\<close>

definition wakeup :: "nat \<Rightarrow> chan option \<Rightarrow> 'z machine_scheme \<Rightarrow> 'z machine_scheme res" where
  "wakeup i ch st = wakeup_from i ch 0 NPROC st"

fun kill_from :: "nat \<Rightarrow> c_int \<Rightarrow> nat \<Rightarrow> nat \<Rightarrow> 'z machine_scheme \<Rightarrow> (c_int \<times> 'z machine_scheme) res" where
  "kill_from i pid k 0 st = Ok (- 1, st)"
| "kill_from i pid k (Suc n) st =
     rbind (acquire i (PLock k) st) (\<lambda>st.
       if p_pid (procs st k) = pid then
         let st = upd_proc k (\<lambda>p. p\<lparr>p_killed := 1\<rparr>) st;
             st = (if p_state (procs st k) = SLEEPING
                   then upd_proc k (\<lambda>p. p\<lparr>p_state := RUNNABLE, p_last_runnable_time := ticks st\<rparr>) st
                   else st)
         in rbind (release i (PLock k) st) (\<lambda>st. Ok (0, st))
       else rbind (release i (PLock k) st) (\<lambda>st. kill_from i pid (Suc k) n st))"

definition kill :: "nat \<Rightarrow> c_int \<Rightarrow> 'z machine_scheme \<Rightarrow> (c_int \<times> 'z machine_scheme) res" where
  "kill i pid st = kill_from i pid 0 NPROC st"

definition setkilled :: "nat \<Rightarrow> nat \<Rightarrow> 'z machine_scheme \<Rightarrow> 'z machine_scheme res" where
  "setkilled i p st =
     rbind (acquire i (PLock p) st) (\<lambda>st. release i (PLock p) (upd_proc p (\<lambda>q. q\<lparr>p_killed := 1\<rparr>) st))"

definition killed :: "nat \<Rightarrow> nat \<Rightarrow> 'z machine_scheme \<Rightarrow> (c_int \<times> 'z machine_scheme) res" where
  "killed i p st =
     rbind (acquire i (PLock p) st) (\<lambda>st.
       let k = p_killed (procs st p) in rbind (release i (PLock p) st) (\<lambda>st. Ok (k, st)))"

section \<open>Memory of the running process\<close>

definition growproc :: "nat \<Rightarrow> c_int \<Rightarrow> 'z machine_scheme \<Rightarrow> (c_int \<times> 'z machine_scheme) res" where
  "growproc i n st =
     (case myproc i st of None \<Rightarrow> Stuck
      | Some p \<Rightarrow>
        let sz = p_sz (procs st p); pt = p_pagetable (procs st p)
        in if 0 <s n then
             rbind (uvmalloc pt sz (sz + scast n) PTE_W (ph st)) (\<lambda>(sz, s).
               if sz = 0 then Ok (- 1, st\<lparr>ph := s\<rparr>)
               else Ok (0, upd_proc p (\<lambda>q. q\<lparr>p_sz := sz\<rparr>) (st\<lparr>ph := s\<rparr>)))
           else if n <s 0 then
             rbind (uvmdealloc pt sz (sz + scast n) (ph st)) (\<lambda>(sz, s).
               Ok (0, upd_proc p (\<lambda>q. q\<lparr>p_sz := sz\<rparr>) (st\<lparr>ph := s\<rparr>)))
           else Ok (0, upd_proc p (\<lambda>q. q\<lparr>p_sz := sz\<rparr>) st))"

text \<open>A kernel destination or source is an address of memory, which the kernel maps one to one.\<close>

definition either_copyout ::
  "nat \<Rightarrow> bool \<Rightarrow> u64 \<Rightarrow> u8 list \<Rightarrow> 'z machine_scheme \<Rightarrow> (c_int \<times> 'z machine_scheme) res" where
  "either_copyout i user_dst dst src st =
     (if user_dst then
        case myproc i st of None \<Rightarrow> Stuck
        | Some p \<Rightarrow>
          rbind (copyout (p_pagetable (procs st p)) dst src (ph st)) (\<lambda>(r, s). Ok (r, st\<lparr>ph := s\<rparr>))
      else Ok (0, st\<lparr>ph := (ph st)\<lparr>pmem := mem_write (pmem (ph st)) (unat dst) src\<rparr>\<rparr>))"

definition either_copyin ::
  "nat \<Rightarrow> bool \<Rightarrow> u64 \<Rightarrow> nat \<Rightarrow> 'z machine_scheme \<Rightarrow> (c_int \<times> u8 list) res" where
  "either_copyin i user_src src len st =
     (if user_src then
        case myproc i st of None \<Rightarrow> Stuck
        | Some p \<Rightarrow> copyin (p_pagetable (procs st p)) src len (ph st)
      else Ok (0, mem_read (pmem (ph st)) (unat src) len))"

section \<open>Parents and children\<close>

fun reparent_from :: "nat \<Rightarrow> nat \<Rightarrow> nat \<Rightarrow> nat \<Rightarrow> 'z machine_scheme \<Rightarrow> 'z machine_scheme res" where
  "reparent_from i p k 0 st = Ok st"
| "reparent_from i p k (Suc n) st =
     (if p_parent (procs st k) = Some p then
        rbind (wakeup i (map_option ChProc (initproc st))
                 (upd_proc k (\<lambda>q. q\<lparr>p_parent := initproc st\<rparr>) st)) (\<lambda>st.
        reparent_from i p (Suc k) n st)
      else reparent_from i p (Suc k) n st)"

definition reparent :: "nat \<Rightarrow> nat \<Rightarrow> 'z machine_scheme \<Rightarrow> 'z machine_scheme res" where
  "reparent i p st = reparent_from i p 0 NPROC st"

text \<open>
  The scan of \<^verbatim>\<open>wait()\<close> for a zombie child of \<open>p\<close>, with \<^verbatim>\<open>wait_lock\<close> held. The result is \<open>Inl r\<close> when
  \<^verbatim>\<open>wait()\<close> returns \<open>r\<close>, and \<open>Inr havekids\<close> when the scan ends. \<^verbatim>\<open>xstate\<close> is copied out as the four
  bytes of an \<^verbatim>\<open>int\<close>.
\<close>

definition int_bytes :: "c_int \<Rightarrow> u8 list" where
  "int_bytes n = map (\<lambda>j. ucast (drop_bit (8 * j) n)) [0..<4]"

fun wait_scan ::
  "nat \<Rightarrow> nat \<Rightarrow> u64 \<Rightarrow> nat \<Rightarrow> nat \<Rightarrow> bool \<Rightarrow> 'z machine_scheme \<Rightarrow> ((c_int + bool) \<times> 'z machine_scheme) res" where
  "wait_scan i p addr k 0 havekids st = Ok (Inr havekids, st)"
| "wait_scan i p addr k (Suc n) havekids st =
     (if p_parent (procs st k) = Some p then
        rbind (acquire i (PLock k) st) (\<lambda>st.
          if p_state (procs st k) = ZOMBIE then
            let pid = p_pid (procs st k) in
            rbind (if addr \<noteq> 0
                   then copyout (p_pagetable (procs st p)) addr (int_bytes (p_xstate (procs st k))) (ph st)
                   else Ok (0, ph st)) (\<lambda>(r, s).
            let st = st\<lparr>ph := s\<rparr> in
            if addr \<noteq> 0 \<and> r <s 0 then
              rbind (release i (PLock k) st) (\<lambda>st.
              rbind (release i WaitLock st) (\<lambda>st. Ok (Inl (- 1), st)))
            else
              rbind (freeproc k st) (\<lambda>st.
              rbind (release i (PLock k) st) (\<lambda>st.
              rbind (release i WaitLock st) (\<lambda>st. Ok (Inl pid, st)))))
          else rbind (release i (PLock k) st) (\<lambda>st. wait_scan i p addr (Suc k) n True st))
      else wait_scan i p addr (Suc k) n havekids st)"

text \<open>
  One round of the loop of \<^verbatim>\<open>wait()\<close>: it returns a value (\<open>Inl\<close>) or sleeps on the process itself
  (\<open>Inr\<close>, at the switch); the process that is woken takes \<^verbatim>\<open>wait_lock\<close> and starts the next round.
\<close>

definition wait_round ::
  "nat \<Rightarrow> u64 \<Rightarrow> 'z machine_scheme \<Rightarrow> ((c_int \<times> 'z machine_scheme) + 'z machine_scheme) res" where
  "wait_round i addr st =
     (case myproc i st of None \<Rightarrow> Stuck
      | Some p \<Rightarrow>
        rbind (wait_scan i p addr 0 NPROC False st) (\<lambda>(x, st).
          case x of Inl r \<Rightarrow> Ok (Inl (r, st))
          | Inr havekids \<Rightarrow>
            rbind (if havekids then killed i p st else Ok (0, st)) (\<lambda>(k, st).
              if \<not> havekids \<or> k \<noteq> 0
              then rbind (release i WaitLock st) (\<lambda>st. Ok (Inl (- 1, st)))
              else rbind (sleep i (ChProc p) WaitLock st) (\<lambda>st. Ok (Inr st)))))"

definition wait :: "nat \<Rightarrow> u64 \<Rightarrow> 'z machine_scheme \<Rightarrow> ((c_int \<times> 'z machine_scheme) + 'z machine_scheme) res" where
  "wait i addr st = rbind (acquire i WaitLock st) (\<lambda>st. wait_round i addr st)"

section \<open>Exit\<close>

text \<open>
  The two parts of \<^verbatim>\<open>exit(status)\<close> that act on the process table: the metrics at its start, and the
  hand-over to the parent at its end, after the files have been closed. The difference of ticks is
  an unsigned 32-bit number that is then added to a 64-bit one.
\<close>

definition exit_metrics :: "nat \<Rightarrow> nat \<Rightarrow> 'z machine_scheme \<Rightarrow> 'z machine_scheme res" where
  "exit_metrics i p st =
     rbind (acquire i MetricsLock st) (\<lambda>st.
     release i MetricsLock
       (st\<lparr>total_turnaround_time := total_turnaround_time st + ucast (ticks st - p_creation_time (procs st p)),
          total_waiting_time_sum := total_waiting_time_sum st + ucast (p_total_waiting_time (procs st p)),
          finished_processes := finished_processes st + 1\<rparr>))"

definition exit_final :: "nat \<Rightarrow> nat \<Rightarrow> c_int \<Rightarrow> 'z machine_scheme \<Rightarrow> 'z machine_scheme res" where
  "exit_final i p status st =
     rbind (acquire i WaitLock st) (\<lambda>st.
     rbind (reparent i p st) (\<lambda>st.
     rbind (wakeup i (map_option ChProc (p_parent (procs st p))) st) (\<lambda>st.
     rbind (acquire i (PLock p) st) (\<lambda>st.
     rbind (release i WaitLock (upd_proc p (\<lambda>q. q\<lparr>p_xstate := status, p_state := ZOMBIE\<rparr>) st)) (\<lambda>st.
     sched i AtExit st)))))"

section \<open>Time, priorities, policies\<close>

fun update_time_from :: "nat \<Rightarrow> nat \<Rightarrow> nat \<Rightarrow> 'z machine_scheme \<Rightarrow> 'z machine_scheme res" where
  "update_time_from i k 0 st = Ok st"
| "update_time_from i k (Suc n) st =
     rbind (acquire i (PLock k) st) (\<lambda>st.
     rbind (release i (PLock k)
       (if p_state (procs st k) = RUNNING
        then upd_proc k (\<lambda>p. p\<lparr>p_run_time := p_run_time p + 1\<rparr>) st else st)) (\<lambda>st.
     update_time_from i (Suc k) n st))"

definition update_time :: "nat \<Rightarrow> 'z machine_scheme \<Rightarrow> 'z machine_scheme res" where
  "update_time i st = update_time_from i 0 NPROC st"

text \<open>\<^verbatim>\<open>clockintr()\<close> of \<^verbatim>\<open>kernel/trap.c\<close>, without the request for the next timer interrupt.\<close>

definition clockintr :: "nat \<Rightarrow> 'z machine_scheme \<Rightarrow> 'z machine_scheme res" where
  "clockintr i st =
     (if i = 0 then
        rbind (acquire i TicksLock st) (\<lambda>st.
        rbind (update_time i (st\<lparr>ticks := ticks st + 1\<rparr>)) (\<lambda>st.
        rbind (wakeup i (Some ChTicks) st) (\<lambda>st.
        release i TicksLock st)))
      else Ok st)"

fun choose_from :: "nat \<Rightarrow> nat \<Rightarrow> 'z machine_scheme \<Rightarrow> nat option" where
  "choose_from k 0 st = None"
| "choose_from k (Suc n) st =
     (if p_state (procs st k) = RUNNABLE then Some k else choose_from (Suc k) n st)"

definition choose_next_process :: "'z machine_scheme \<Rightarrow> nat option" where
  "choose_next_process st =
     (if sched_mode st = SCHED_ROUND_ROBIN then choose_from 0 NPROC st else None)"

text \<open>
  \<^verbatim>\<open>setpriority()\<close> and \<^verbatim>\<open>setscheduler()\<close>: \<open>Inl (r, st)\<close> when the call returns \<open>r\<close>, \<open>Inr\<close> at the switch
  of its \<^verbatim>\<open>yield()\<close>, after which the call returns 0.
\<close>

definition yield_then_0 ::
  "nat \<Rightarrow> 'z machine_scheme \<Rightarrow> ((c_int \<times> 'z machine_scheme) + 'z machine_scheme) res" where
  "yield_then_0 i st =
     rbind (yield i st) (\<lambda>x. case x of Inl st \<Rightarrow> Ok (Inl (0, st)) | Inr st \<Rightarrow> Ok (Inr st))"

fun setpriority_from ::
  "nat \<Rightarrow> c_int \<Rightarrow> c_int \<Rightarrow> nat \<Rightarrow> nat \<Rightarrow> 'z machine_scheme \<Rightarrow> ((c_int \<times> 'z machine_scheme) + 'z machine_scheme) res"
where
  "setpriority_from i pid prio k 0 st = Ok (Inl (- 1, st))"
| "setpriority_from i pid prio k (Suc n) st =
     rbind (acquire i (PLock k) st) (\<lambda>st.
       if p_pid (procs st k) = pid \<and> p_state (procs st k) \<noteq> UNUSED then
         rbind (release i (PLock k) (upd_proc k (\<lambda>p. p\<lparr>p_priority := prio\<rparr>) st)) (\<lambda>st.
           if sched_mode st = SCHED_PRIORITY then yield_then_0 i st else Ok (Inl (0, st)))
       else rbind (release i (PLock k) st) (\<lambda>st. setpriority_from i pid prio (Suc k) n st))"

definition setpriority ::
  "nat \<Rightarrow> c_int \<Rightarrow> c_int \<Rightarrow> 'z machine_scheme \<Rightarrow> ((c_int \<times> 'z machine_scheme) + 'z machine_scheme) res" where
  "setpriority i pid prio st = setpriority_from i pid prio 0 NPROC st"

definition setscheduler ::
  "nat \<Rightarrow> c_int \<Rightarrow> 'z machine_scheme \<Rightarrow> ((c_int \<times> 'z machine_scheme) + 'z machine_scheme) res" where
  "setscheduler i policy st =
     (if policy <s SCHED_ROUND_ROBIN \<or> SCHED_PRIORITY <s policy then Ok (Inl (- 1, st))
      else
        rbind (acquire i MetricsLock st) (\<lambda>st.
        rbind (release i MetricsLock
          (st\<lparr>total_turnaround_time := 0, total_waiting_time_sum := 0, finished_processes := 0\<rparr>)) (\<lambda>st.
        yield_then_0 i (st\<lparr>sched_mode := policy\<rparr>))))"

definition populate_metrics :: "nat \<Rightarrow> 'z machine_scheme \<Rightarrow> ((u64 \<times> u64 \<times> u64) \<times> 'z machine_scheme) res" where
  "populate_metrics i st =
     rbind (acquire i MetricsLock st) (\<lambda>st.
       let m = (total_turnaround_time st, total_waiting_time_sum st, finished_processes st)
       in rbind (release i MetricsLock st) (\<lambda>st. Ok (m, st)))"

section \<open>The scheduler\<close>

text \<open>Switching to the process \<open>p\<close>, whose lock is held: the bookkeeping before the \<^verbatim>\<open>swtch\<close>.\<close>

definition dispatch :: "nat \<Rightarrow> nat \<Rightarrow> 'z machine_scheme \<Rightarrow> 'z machine_scheme" where
  "dispatch i p st =
     (let st = (if 0 < p_last_runnable_time (procs st p)
                then upd_proc p (\<lambda>q. q\<lparr>p_total_waiting_time :=
                       p_total_waiting_time q + (ticks st - p_last_runnable_time q)\<rparr>) st
                else st)
      in upd_cpu i (\<lambda>c. c\<lparr>cproc := Some p\<rparr>) (upd_proc p (\<lambda>q. q\<lparr>p_state := RUNNING\<rparr>) st))"

text \<open>What the scheduler does when the process has switched back to it.\<close>

definition undispatch :: "nat \<Rightarrow> nat \<Rightarrow> 'z machine_scheme \<Rightarrow> 'z machine_scheme res" where
  "undispatch i p st = release i (PLock p) (upd_cpu i (\<lambda>c. c\<lparr>cproc := None\<rparr>) st)"

text \<open>Round robin: the rest of the \<^verbatim>\<open>for\<close> loop from the slot \<open>k\<close> up to its next switch.\<close>

fun rr_scan :: "nat \<Rightarrow> nat \<Rightarrow> nat \<Rightarrow> 'z machine_scheme \<Rightarrow> (nat option \<times> 'z machine_scheme) res" where
  "rr_scan i k 0 st = Ok (None, st)"
| "rr_scan i k (Suc n) st =
     rbind (acquire i (PLock k) st) (\<lambda>st.
       if p_state (procs st k) = RUNNABLE then Ok (Some k, dispatch i k st)
       else rbind (release i (PLock k) st) (\<lambda>st. rr_scan i (Suc k) n st))"

text \<open>
  FCFS and priority: the search, which keeps the lock of its candidate \<open>c\<close>. \<open>better\<close> is the
  condition of the code for taking a runnable \<^verbatim>\<open>p\<close> instead of the candidate.
\<close>

definition fcfs_better :: "proc \<Rightarrow> proc \<Rightarrow> bool" where
  "fcfs_better p m \<longleftrightarrow> p_creation_time p < p_creation_time m"

definition prio_better :: "proc \<Rightarrow> proc \<Rightarrow> bool" where
  "prio_better p h \<longleftrightarrow>
     p_priority p <s p_priority h \<or>
     p_priority p = p_priority h \<and> p_creation_time p < p_creation_time h"

fun best_scan ::
  "(proc \<Rightarrow> proc \<Rightarrow> bool) \<Rightarrow> nat \<Rightarrow> nat \<Rightarrow> nat \<Rightarrow> nat option \<Rightarrow> 'z machine_scheme \<Rightarrow> (nat option \<times> 'z machine_scheme) res"
where
  "best_scan better i k 0 c st = Ok (c, st)"
| "best_scan better i k (Suc n) c st =
     rbind (acquire i (PLock k) st) (\<lambda>st.
       if p_state (procs st k) = RUNNABLE \<and>
          (case c of None \<Rightarrow> True | Some m \<Rightarrow> better (procs st k) (procs st m))
       then
         rbind (case c of None \<Rightarrow> Ok st | Some m \<Rightarrow> release i (PLock m) st) (\<lambda>st.
         best_scan better i (Suc k) n (Some k) st)
       else rbind (release i (PLock k) st) (\<lambda>st. best_scan better i (Suc k) n c st))"

definition scheduler_best ::
  "(proc \<Rightarrow> proc \<Rightarrow> bool) \<Rightarrow> nat \<Rightarrow> 'z machine_scheme \<Rightarrow> (nat option \<times> 'z machine_scheme) res" where
  "scheduler_best better i st =
     rbind (best_scan better i 0 NPROC None st) (\<lambda>(c, st).
       case c of None \<Rightarrow> Ok (None, st) | Some p \<Rightarrow> Ok (Some p, dispatch i p st))"

text \<open>
  One round of the endless loop of \<^verbatim>\<open>scheduler()\<close> up to its first switch: interrupts on, then the
  policy. In round robin the loop over the slots goes on, from the slot after the one that was
  run, when that process has switched back.
\<close>

definition scheduler :: "nat \<Rightarrow> 'z machine_scheme \<Rightarrow> (nat option \<times> 'z machine_scheme) res" where
  "scheduler i st =
     (let st = upd_cpu i (\<lambda>c. c\<lparr>sie := True\<rparr>) st in
      if sched_mode st = SCHED_ROUND_ROBIN then rr_scan i 0 NPROC st
      else if sched_mode st = SCHED_FCFS then scheduler_best fcfs_better i st
      else if sched_mode st = SCHED_PRIORITY then scheduler_best prio_better i st
      else Ok (None, st))"

end
