(* ===== verification/Xv6_Proc_Locks.thy ===== *)
theory Xv6_Proc_Locks
  imports Xv6_Proc
begin

text \<open>
  The process functions without their locks. When the locks of the process table are free, a
  section between \<open>acquire\<close> and \<open>release\<close> of \<^verbatim>\<open>p->lock\<close> is its body, and each loop over the table is
  a function on the table. The state with a lock taken is \<open>acq\<close>, the state after an outermost
  section \<open>settled\<close>; the rewrite rules below move both outwards, so that the code between an
  \<open>acquire\<close> and its \<open>release\<close> acts on the state without the lock.
\<close>

named_theorems lock_rules

section \<open>Taking and releasing a lock\<close>

definition plocks_free :: "'z machine_scheme \<Rightarrow> bool" where
  "plocks_free st \<longleftrightarrow> (\<forall>k. lock_free (lks st (PLock k)))"

definition settled :: "bool \<Rightarrow> nat \<Rightarrow> 'z machine_scheme \<Rightarrow> 'z machine_scheme" where
  "settled b i st = (if b then upd_cpu i settle st else st)"

definition acq :: "nat \<Rightarrow> lockname \<Rightarrow> 'z machine_scheme \<Rightarrow> 'z machine_scheme" where
  "acq i l st = st\<lparr>lks := (lks st)(l := (lks st l)\<lparr>locked := 1, lcpu := Some i\<rparr>),
     cpus := (cpus st)(i := push_off_cpu (cpus st i))\<rparr>"

definition cpu_ok :: "nat \<Rightarrow> 'z machine_scheme \<Rightarrow> bool" where
  "cpu_ok i st \<longleftrightarrow> cpu_wf (cpus st i) \<and> unat (noff (cpus st i)) < 900"

lemma settled_False [simp]: "settled False i st = st"
  by (simp add: settled_def)

lemma settled_settled [simp]: "settled b i (settled b' i st) = settled (b \<or> b') i st"
  by (simp add: settled_def upd_cpu_def)

lemma settled_fields [simp]:
  "lks (settled b i st) = lks st" "procs (settled b i st) = procs st" "ticks (settled b i st) = ticks st"
  "sched_mode (settled b i st) = sched_mode st" "initproc (settled b i st) = initproc st"
  "ph (settled b i st) = ph st" "myproc j (settled b i st) = myproc j st"
  "cpu_wf (cpus (settled b i st) j) = cpu_wf (cpus st j)"
  "noff (cpus (settled b i st) j) = noff (cpus st j)" "sie (cpus (settled b i st) j) = sie (cpus st j)"
  "cproc (cpus (settled b i st) j) = cproc (cpus st j)"
  "plocks_free (settled b i st) = plocks_free st" "cpu_ok j (settled b i st) = cpu_ok j st"
  by (simp_all add: settled_def upd_cpu_def myproc_def plocks_free_def cpu_ok_def)

lemma upd_proc_fields [simp]:
  "cpus (upd_proc k f st) = cpus st" "lks (upd_proc k f st) = lks st" "ticks (upd_proc k f st) = ticks st"
  "sched_mode (upd_proc k f st) = sched_mode st" "initproc (upd_proc k f st) = initproc st"
  "ph (upd_proc k f st) = ph st" "procs (upd_proc k f st) = (procs st)(k := f (procs st k))"
  "myproc j (upd_proc k f st) = myproc j st" "plocks_free (upd_proc k f st) = plocks_free st"
  "cpu_ok j (upd_proc k f st) = cpu_ok j st"
  by (simp_all add: upd_proc_def myproc_def plocks_free_def cpu_ok_def)

lemma procs_update_fields [simp]:
  "myproc j (st\<lparr>procs := f\<rparr>) = myproc j st" "plocks_free (st\<lparr>procs := f\<rparr>) = plocks_free st"
  "cpu_ok j (st\<lparr>procs := f\<rparr>) = cpu_ok j st"
  by (simp_all add: myproc_def plocks_free_def cpu_ok_def)

lemma push_off_cproc [simp]: "cproc (push_off_cpu c) = cproc c"
  by (simp add: push_off_cpu_def Let_def)

lemma acq_fields [simp]:
  "procs (acq i l st) = procs st" "ticks (acq i l st) = ticks st" "ph (acq i l st) = ph st"
  "sched_mode (acq i l st) = sched_mode st" "initproc (acq i l st) = initproc st"
  "myproc j (acq i l st) = myproc j st" "holding i (lks (acq i l st) l)"
  "noff (cpus (acq i l st) i) = noff (cpus st i) + 1" "\<not> sie (cpus (acq i l st) i)"
  by (simp_all add: acq_def myproc_def holding_def push_off_simps)

lemma lks_acq [simp]: "l \<noteq> l' \<Longrightarrow> lks (acq i l st) l' = lks st l'"
  by (simp add: acq_def)

lemma acquire_acq [lock_rules]: "lock_free (lks st l) \<Longrightarrow> acquire i l st = Ok (acq i l st)"
  by (simp add: acquire_free acq_def lock_free_def)

lemma settle_inner: "noff c \<noteq> 0 \<Longrightarrow> settle c = c"
  by (simp add: settle_def)

lemma push_settle: "push_off_cpu (settle c) = push_off_cpu c"
  by (simp add: settle_def push_off_cpu_def Let_def)

lemma acq_settled [lock_rules]: "acq i l (settled b i st) = acq i l st"
  by (simp add: acq_def settled_def upd_cpu_def push_settle)

lemma upd_proc_acq [lock_rules]: "upd_proc k f (acq i l st) = acq i l (upd_proc k f st)"
  by (simp add: acq_def upd_proc_def)

lemma upd_proc_settled [lock_rules]: "upd_proc k f (settled b i st) = settled b i (upd_proc k f st)"
  by (simp add: settled_def upd_cpu_def upd_proc_def)

lemma procs_acq [lock_rules]: "(acq i l st)\<lparr>procs := f\<rparr> = acq i l (st\<lparr>procs := f\<rparr>)"
  by (simp add: acq_def)

lemma procs_settled [lock_rules]: "(settled b i st)\<lparr>procs := f\<rparr> = settled b i (st\<lparr>procs := f\<rparr>)"
  by (simp add: settled_def upd_cpu_def)

lemma pop_push_settle:
  "cpu_wf c \<Longrightarrow> pop_off_cpu (push_off_cpu c) = Ok (settle c)"
  by (simp add: pop_push cpu_wf_def settle_def)

lemma free_again: "lock_free k \<Longrightarrow> k\<lparr>lcpu := None, locked := 0\<rparr> = k"
  by (simp add: lock_free_def)

lemma release_acq [lock_rules]:
  assumes "cpu_ok i st" and "lock_free (lks st l)"
  shows "release i l (acq i l st) = Ok (settled True i st)"
proof -
  have "release i l (acq i l st) = Ok (st\<lparr>lks := (lks st)(l := (lks st l)\<lparr>lcpu := None, locked := 0\<rparr>),
      cpus := (cpus st)(i := settle (cpus st i))\<rparr>)"
    using release_held [OF acq_fields(7), of i l st "settle (cpus st i)"] assms(1) pop_push_settle
    by (simp add: acq_def cpu_ok_def)
  then show ?thesis
    using free_again [OF assms(2)] by (simp add: settled_def upd_cpu_def fun_upd_idem)
qed

lemma cpu_ok_acq:
  assumes "cpu_ok i st"
  shows "cpu_wf (cpus (acq i l st) i)" "noff (cpus (acq i l st) i) \<noteq> 0"
  using assms push_off_wf [of "cpus st i"] noff_step(2) [of "noff (cpus st i)"]
  by (simp_all add: acq_def cpu_ok_def push_off_simps)

text \<open>The outer of two nested locks is released first, as the searches of the scheduler do.\<close>

lemma release_outer [lock_rules]:
  assumes "cpu_ok i st" and "lock_free (lks st m)" and "k \<noteq> m"
  shows "release i m (acq i k (acq i m st)) = Ok (acq i k st)"
proof -
  let ?c = "push_off_cpu (cpus st i)"
  have "pop_off_cpu (push_off_cpu ?c) = Ok ?c"
    using pop_push_settle cpu_ok_acq [OF assms(1), of m] by (simp add: acq_def settle_inner)
  moreover have "holding i (lks (acq i k (acq i m st)) m)"
    using assms(3) by (simp add: acq_def holding_def)
  ultimately have "release i m (acq i k (acq i m st)) = Ok (st\<lparr>
      lks := (lks st)(k := (lks st k)\<lparr>locked := 1, lcpu := Some i\<rparr>, m := (lks st m)\<lparr>lcpu := None, locked := 0\<rparr>),
      cpus := (cpus st)(i := ?c)\<rparr>)"
    using assms(3) release_held [of i "acq i k (acq i m st)" m ?c] by (simp add: acq_def fun_upd_twist)
  then show ?thesis
    using free_again [OF assms(2)] assms(3) by (simp add: acq_def fun_upd_idem fun_upd_twist [of k m])
qed

text \<open>The inner one is released: the processor keeps its record of the outermost section.\<close>

lemma release_inner [lock_rules]:
  assumes "cpu_ok i st" and "lock_free (lks st k)" and "k \<noteq> m"
  shows "release i k (acq i k (acq i m st)) = Ok (acq i m st)"
proof -
  let ?st = "acq i m st"
  have "pop_off_cpu (push_off_cpu (cpus ?st i)) = Ok (cpus ?st i)"
    using pop_push_settle cpu_ok_acq [OF assms(1), of m] by (simp add: settle_inner)
  then have "release i k (acq i k ?st) = Ok (?st\<lparr>
      lks := (lks ?st)(k := (lks ?st k)\<lparr>lcpu := None, locked := 0\<rparr>), cpus := (cpus ?st)(i := cpus ?st i)\<rparr>)"
    using release_held [OF acq_fields(7), of i k ?st "cpus ?st i"] by (simp add: acq_def)
  then show ?thesis
    using free_again [of "lks ?st k"] assms by (simp add: fun_upd_idem)
qed

lemma plocks_freeD [simp]: "plocks_free st \<Longrightarrow> lock_free (lks st (PLock k))"
  by (simp add: plocks_free_def)

section \<open>Loops over the table\<close>

text \<open>\<open>on_range k n g\<close> applies \<open>g\<close> to the \<open>n\<close> slots from \<open>k\<close>.\<close>

definition on_range :: "nat \<Rightarrow> nat \<Rightarrow> (nat \<Rightarrow> proc \<Rightarrow> proc) \<Rightarrow> (nat \<Rightarrow> proc) \<Rightarrow> nat \<Rightarrow> proc" where
  "on_range k n g ps j = (if k \<le> j \<and> j < k + n then g j (ps j) else ps j)"

lemma on_range_0 [simp]: "on_range k 0 g ps = ps"
  by (rule ext) (auto simp: on_range_def)

lemma on_range_Suc: "on_range k (Suc n) g ps = on_range (Suc k) n g (ps(k := g k (ps k)))"
proof (rule ext)
  fix j
  show "on_range k (Suc n) g ps j = on_range (Suc k) n g (ps(k := g k (ps k))) j"
    by (cases "j = k") (simp_all add: on_range_def Suc_le_eq)
qed

lemma upd_proc_procs: "upd_proc k f st = st\<lparr>procs := (procs st)(k := f (procs st k))\<rparr>"
  by (simp add: upd_proc_def)

text \<open>\<open>wake_if\<close> is the body of the loop of \<^verbatim>\<open>wakeup()\<close>.\<close>

definition wake :: "u32 \<Rightarrow> proc \<Rightarrow> proc" where
  "wake t p = p\<lparr>p_state := RUNNABLE, p_last_runnable_time := t\<rparr>"

definition wake_if :: "nat option \<Rightarrow> chan option \<Rightarrow> u32 \<Rightarrow> nat \<Rightarrow> proc \<Rightarrow> proc" where
  "wake_if me ch t j p =
     (if Some j \<noteq> me \<and> p_state p = SLEEPING \<and> p_chan p = ch then wake t p else p)"

lemma wakeup_from_eq:
  "cpu_ok i st \<Longrightarrow> plocks_free st \<Longrightarrow>
   \<exists>b. wakeup_from i ch k n st =
     Ok (settled b i (st\<lparr>procs := on_range k n (wake_if (myproc i st) ch (ticks st)) (procs st)\<rparr>))"
proof (induction n arbitrary: k st)
  case 0
  show ?case
    by (intro exI [of _ False]) simp
next
  case (Suc n)
  let ?g = "wake_if (myproc i st) ch (ticks st)"
  let ?st = "st\<lparr>procs := (procs st)(k := ?g k (procs st k))\<rparr>"
  obtain b where b: "wakeup_from i ch k (Suc n) st = wakeup_from i ch (Suc k) n (settled b i ?st)"
  proof (cases "Some k = myproc i st")
    case True
    then show thesis
      by (intro that [of False]) (simp add: wake_if_def)
  next
    case False
    then show thesis
      using Suc.prems by (intro that [of True])
        (simp add: lock_rules upd_proc_procs wake_if_def wake_def fun_upd_idem)
  qed
  show ?case
    unfolding b on_range_Suc using Suc.IH [of "settled b i ?st" "Suc k"] Suc.prems
    by (auto simp: lock_rules fun_upd_def)
qed

lemma wakeup_eq:
  "cpu_ok i st \<Longrightarrow> plocks_free st \<Longrightarrow>
   \<exists>b. wakeup i ch st =
     Ok (settled b i (st\<lparr>procs := on_range 0 NPROC (wake_if (myproc i st) ch (ticks st)) (procs st)\<rparr>))"
  unfolding wakeup_def by (rule wakeup_from_eq)

definition tick_if :: "nat \<Rightarrow> proc \<Rightarrow> proc" where
  "tick_if j p = (if p_state p = RUNNING then p\<lparr>p_run_time := p_run_time p + 1\<rparr> else p)"

lemma update_time_from_eq:
  "cpu_ok i st \<Longrightarrow> plocks_free st \<Longrightarrow>
   \<exists>b. update_time_from i k n st = Ok (settled b i (st\<lparr>procs := on_range k n tick_if (procs st)\<rparr>))"
proof (induction n arbitrary: k st)
  case 0
  show ?case
    by (intro exI [of _ False]) simp
next
  case (Suc n)
  let ?st = "st\<lparr>procs := (procs st)(k := tick_if k (procs st k))\<rparr>"
  have b: "update_time_from i k (Suc n) st = update_time_from i (Suc k) n (settled True i ?st)"
    using Suc.prems by (simp add: lock_rules upd_proc_procs tick_if_def fun_upd_idem)
  show ?case
    unfolding b on_range_Suc using Suc.IH [of "settled True i ?st" "Suc k"] Suc.prems
    by (auto simp: lock_rules fun_upd_def)
qed

lemma update_time_eq:
  "cpu_ok i st \<Longrightarrow> plocks_free st \<Longrightarrow>
   \<exists>b. update_time i st = Ok (settled b i (st\<lparr>procs := on_range 0 NPROC tick_if (procs st)\<rparr>))"
  unfolding update_time_def by (rule update_time_from_eq)

section \<open>Searches\<close>

text \<open>\<open>first_slot P k n\<close> is the first of the \<open>n\<close> slots from \<open>k\<close> with \<open>P\<close>.\<close>

fun first_slot :: "(nat \<Rightarrow> bool) \<Rightarrow> nat \<Rightarrow> nat \<Rightarrow> nat option" where
  "first_slot P k 0 = None"
| "first_slot P k (Suc n) = (if P k then Some k else first_slot P (Suc k) n)"

lemma slots_Suc: "(k \<le> j \<and> j < k + Suc n) \<longleftrightarrow> j = k \<or> Suc k \<le> j \<and> j < Suc k + n"
  by auto

lemma first_slot_None: "first_slot P k n = None \<longleftrightarrow> (\<forall>j. k \<le> j \<and> j < k + n \<longrightarrow> \<not> P j)"
proof (induction n arbitrary: k)
  case (Suc n)
  then show ?case
    unfolding slots_Suc by auto
qed auto

lemma first_slot_Some:
  "first_slot P k n = Some p \<Longrightarrow> k \<le> p \<and> p < k + n \<and> P p \<and> (\<forall>j. k \<le> j \<and> j < p \<longrightarrow> \<not> P j)"
proof (induction n arbitrary: k)
  case (Suc n)
  show ?case
  proof (cases "P k")
    case True
    then show ?thesis
      using Suc.prems by auto
  next
    case False
    then have "Suc k \<le> p \<and> p < Suc k + n \<and> P p \<and> (\<forall>j. Suc k \<le> j \<and> j < p \<longrightarrow> \<not> P j)"
      using Suc.IH [of "Suc k"] Suc.prems by simp
    moreover from this have "\<not> P j" if "k \<le> j" "j < p" for j
      using False that by (cases "j = k") (simp_all add: Suc_le_eq)
    ultimately show ?thesis
      by simp
  qed
qed simp

lemma rr_scan_eq:
  "cpu_ok i st \<Longrightarrow> plocks_free st \<Longrightarrow>
   case first_slot (\<lambda>j. p_state (procs st j) = RUNNABLE) k n of
     None \<Rightarrow> \<exists>b. rr_scan i k n st = Ok (None, settled b i st)
   | Some p \<Rightarrow> rr_scan i k n st = Ok (Some p, dispatch i p (acq i (PLock p) st))"
proof (induction n arbitrary: k st)
  case 0
  show ?case
    by (auto intro: exI [of _ False])
next
  case (Suc n)
  then show ?case
    using Suc.IH [of "settled True i st" "Suc k"]
    by (auto simp: lock_rules split: option.splits)
qed

lemma alloc_scan_eq:
  "cpu_ok i st \<Longrightarrow> plocks_free st \<Longrightarrow>
   case first_slot (\<lambda>j. p_state (procs st j) = UNUSED) k n of
     None \<Rightarrow> \<exists>b. alloc_scan i k n st = Ok (None, settled b i st)
   | Some p \<Rightarrow> alloc_scan i k n st = Ok (Some p, acq i (PLock p) st)"
proof (induction n arbitrary: k st)
  case 0
  show ?case
    by (auto intro: exI [of _ False])
next
  case (Suc n)
  then show ?case
    using Suc.IH [of "settled True i st" "Suc k"]
    by (auto simp: lock_rules split: option.splits)
qed

definition kill_mark :: "u32 \<Rightarrow> proc \<Rightarrow> proc" where
  "kill_mark t p =
     (if p_state p = SLEEPING then wake t (p\<lparr>p_killed := 1\<rparr>) else p\<lparr>p_killed := 1\<rparr>)"

lemma kill_from_eq:
  "cpu_ok i st \<Longrightarrow> plocks_free st \<Longrightarrow>
   case first_slot (\<lambda>j. p_pid (procs st j) = pid) k n of
     None \<Rightarrow> \<exists>b. kill_from i pid k n st = Ok (- 1, settled b i st)
   | Some p \<Rightarrow> kill_from i pid k n st =
       Ok (0, settled True i (st\<lparr>procs := (procs st)(p := kill_mark (ticks st) (procs st p))\<rparr>))"
proof (induction n arbitrary: k st)
  case 0
  show ?case
    by (auto intro: exI [of _ False])
next
  case (Suc n)
  show ?case
  proof (cases "p_pid (procs st k) = pid")
    case True
    then show ?thesis
      using Suc.prems by (simp add: lock_rules upd_proc_procs kill_mark_def wake_def Let_def)
  next
    case False
    then show ?thesis
      using Suc.IH [of "settled True i st" "Suc k"] Suc.prems
      by (auto simp: lock_rules fun_upd_def split: option.splits)
  qed
qed

end
