(* ===== verification/Xv6_Sched.thy ===== *)
theory Xv6_Sched
  imports Xv6_Proc_Locks
begin

text \<open>
  The scheduler. The searches of the FCFS and the priority policy keep the lock of their candidate;
  they end with the lock of the best runnable process and no other. What best means is the
  interface \<open>selection\<close>: the condition of the code for replacing the candidate must be a strict weak
  order. It is interpreted on the two conditions of the code.
\<close>

section \<open>The search of FCFS and priority\<close>

fun best_of :: "(proc \<Rightarrow> proc \<Rightarrow> bool) \<Rightarrow> nat \<Rightarrow> nat \<Rightarrow> nat option \<Rightarrow> (nat \<Rightarrow> proc) \<Rightarrow> nat option" where
  "best_of better k 0 c ps = c"
| "best_of better k (Suc n) c ps =
     best_of better (Suc k) n
       (if p_state (ps k) = RUNNABLE \<and> (case c of None \<Rightarrow> True | Some m \<Rightarrow> better (ps k) (ps m))
        then Some k else c) ps"

text \<open>The state during the search: the lock of the candidate is held.\<close>

definition held :: "nat option \<Rightarrow> bool \<Rightarrow> nat \<Rightarrow> 'z machine_scheme \<Rightarrow> 'z machine_scheme" where
  "held c b i st = (case c of None \<Rightarrow> settled b i st | Some m \<Rightarrow> acq i (PLock m) st)"

lemma best_scan_step:
  assumes "cpu_ok i st" and "plocks_free st" and "\<forall>m. c = Some m \<longrightarrow> m < k"
    and c': "c' = (if p_state (procs st k) = RUNNABLE \<and>
          (case c of None \<Rightarrow> True | Some m \<Rightarrow> better (procs st k) (procs st m)) then Some k else c)"
  shows "\<exists>b'. best_scan better i k (Suc n) c (held c b i st) = best_scan better i (Suc k) n c' (held c' b' i st)"
proof (cases c)
  case None
  then show ?thesis
    using assms by (auto simp: held_def lock_rules intro: exI [of _ True])
next
  case (Some m)
  then have m: "m \<noteq> k"
    using assms(3) by auto
  then have "lock_free (lks (acq i (PLock m) st) (PLock k))"
    using assms(2) by simp
  then show ?thesis
    using Some m assms by (simp add: held_def acquire_acq release_outer release_inner)
qed

lemma best_scan_eq:
  assumes "cpu_ok i st" and "plocks_free st" and "\<forall>m. c = Some m \<longrightarrow> m < k"
  shows "\<exists>b'. best_scan better i k n c (held c b i st) =
    Ok (best_of better k n c (procs st), held (best_of better k n c (procs st)) b' i st)"
  using assms(3)
proof (induction n arbitrary: k c b)
  case 0
  show ?case
    by auto
next
  case (Suc n)
  let ?c = "if p_state (procs st k) = RUNNABLE \<and>
          (case c of None \<Rightarrow> True | Some m \<Rightarrow> better (procs st k) (procs st m)) then Some k else c"
  obtain b' where s: "best_scan better i k (Suc n) c (held c b i st) = best_scan better i (Suc k) n ?c (held ?c b' i st)"
    using best_scan_step [OF assms(1,2) Suc.prems refl] by blast
  have "\<forall>m. ?c = Some m \<longrightarrow> m < Suc k"
    using Suc.prems by (auto split: if_splits)
  from Suc.IH [OF this, of b'] show ?case
    unfolding s by simp
qed

section \<open>What the search finds\<close>

locale selection =
  fixes better :: "proc \<Rightarrow> proc \<Rightarrow> bool"
  assumes asym: "better p q \<Longrightarrow> \<not> better q p"
    and weak: "\<not> better p q \<Longrightarrow> \<not> better q r \<Longrightarrow> \<not> better p r"
begin

text \<open>\<open>chosen m A ps\<close>: \<open>m\<close> is the first of the best runnable slots in \<open>A\<close>.\<close>

definition chosen :: "nat option \<Rightarrow> nat \<Rightarrow> (nat \<Rightarrow> proc) \<Rightarrow> bool" where
  "chosen c k ps \<longleftrightarrow>
     (case c of None \<Rightarrow> \<forall>j < k. p_state (ps j) \<noteq> RUNNABLE
      | Some m \<Rightarrow> m < k \<and> p_state (ps m) = RUNNABLE \<and>
          (\<forall>j < k. p_state (ps j) = RUNNABLE \<longrightarrow> \<not> better (ps j) (ps m) \<and> (j < m \<longrightarrow> better (ps m) (ps j))))"

lemma chosen_step:
  assumes "chosen c k ps"
  shows "chosen (if p_state (ps k) = RUNNABLE \<and> (case c of None \<Rightarrow> True | Some m \<Rightarrow> better (ps k) (ps m))
        then Some k else c) (Suc k) ps"
proof (cases "p_state (ps k) = RUNNABLE \<and> (case c of None \<Rightarrow> True | Some m \<Rightarrow> better (ps k) (ps m))")
  case False
  then show ?thesis
    using assms by (auto simp: chosen_def less_Suc_eq split: option.splits)
next
  case True
  have "better (ps k) (ps j)" if "j < k" "p_state (ps j) = RUNNABLE" for j
  proof (cases c)
    case None
    then show ?thesis
      using assms that by (simp add: chosen_def)
  next
    case (Some m)
    then have "\<not> better (ps j) (ps m)" "better (ps k) (ps m)"
      using assms that True by (simp_all add: chosen_def)
    then show ?thesis
      using weak by blast
  qed
  then show ?thesis
    using True asym by (auto simp: chosen_def less_Suc_eq)
qed

lemma chosen_best_of: "chosen c k ps \<Longrightarrow> chosen (best_of better k n c ps) (k + n) ps"
proof (induction n arbitrary: k c)
  case (Suc n)
  then show ?case
    using Suc.IH [OF chosen_step [OF Suc.prems]] by simp
qed simp

lemma best_of_chosen: "chosen (best_of better 0 n None ps) n ps"
  using chosen_best_of [of None 0 ps n] by (simp add: chosen_def)

lemma best_of_None: "best_of better 0 n None ps = None \<longleftrightarrow> (\<forall>j < n. p_state (ps j) \<noteq> RUNNABLE)"
  using best_of_chosen [of n ps] by (auto simp: chosen_def split: option.splits)

lemma best_of_Some:
  assumes "best_of better 0 n None ps = Some m"
  shows "m < n" "p_state (ps m) = RUNNABLE"
    "\<And>j. j < n \<Longrightarrow> p_state (ps j) = RUNNABLE \<Longrightarrow> \<not> better (ps j) (ps m)"
    "\<And>j. j < m \<Longrightarrow> p_state (ps j) = RUNNABLE \<Longrightarrow> better (ps m) (ps j)"
  using best_of_chosen [of n ps] assms by (auto simp: chosen_def)

end

interpretation fcfs: selection fcfs_better
  by unfold_locales (auto simp: fcfs_better_def)

lemma sint_eq: "sint a = sint b \<longleftrightarrow> a = (b :: c_int)"
  by (auto intro: signed_word_eqI)

interpretation prio: selection prio_better
  by unfold_locales (auto simp: prio_better_def word_sless_alt, auto simp: sint_eq)

section \<open>One round of the scheduler\<close>

lemma upd_cpu_fields [simp]:
  "lks (upd_cpu i f st) = lks st" "procs (upd_cpu i f st) = procs st" "ticks (upd_cpu i f st) = ticks st"
  "sched_mode (upd_cpu i f st) = sched_mode st" "plocks_free (upd_cpu i f st) = plocks_free st"
  "cpus (upd_cpu i f st) = (cpus st)(i := f (cpus st i))"
  by (simp_all add: upd_cpu_def plocks_free_def)

lemma push_cproc: "push_off_cpu (c\<lparr>cproc := x\<rparr>) = (push_off_cpu c)\<lparr>cproc := x\<rparr>"
  by (simp add: push_off_cpu_def Let_def)

lemma cproc_acq [lock_rules]:
  "upd_cpu i (\<lambda>c. c\<lparr>cproc := x\<rparr>) (acq i l st) = acq i l (upd_cpu i (\<lambda>c. c\<lparr>cproc := x\<rparr>) st)"
  by (simp add: acq_def upd_cpu_def push_cproc)

definition waited :: "u32 \<Rightarrow> proc \<Rightarrow> proc" where
  "waited t q = (if 0 < p_last_runnable_time q
     then q\<lparr>p_total_waiting_time := p_total_waiting_time q + (t - p_last_runnable_time q)\<rparr> else q)"

lemma waited_fields [simp]:
  "p_state (waited t q) = p_state q" "p_kont (waited t q) = p_kont q" "p_chan (waited t q) = p_chan q"
  "p_intena (waited t q) = p_intena q" "p_creation_time (waited t q) = p_creation_time q"
  "p_priority (waited t q) = p_priority q" "p_pid (waited t q) = p_pid q"
  by (simp_all add: waited_def)

lemma dispatch_eq:
  "dispatch i p st = upd_cpu i (\<lambda>c. c\<lparr>cproc := Some p\<rparr>)
     (upd_proc p (\<lambda>q. (waited (ticks st) q)\<lparr>p_state := RUNNING\<rparr>) st)"
  by (simp add: dispatch_def waited_def Let_def upd_proc_def)

lemma dispatch_acq [lock_rules]: "dispatch i p (acq i l st) = acq i l (dispatch i p st)"
  by (simp add: dispatch_eq lock_rules)

lemma dispatch_fields [simp]:
  "lks (dispatch i p st) = lks st" "plocks_free (dispatch i p st) = plocks_free st"
  "procs (dispatch i p st) = (procs st)(p := (waited (ticks st) (procs st p))\<lparr>p_state := RUNNING\<rparr>)"
  "cpus (dispatch i p st) = (cpus st)(i := (cpus st i)\<lparr>cproc := Some p\<rparr>)"
  by (simp_all add: dispatch_eq)

lemma scheduler_best_eq:
  assumes "cpu_ok i st" and "plocks_free st"
  shows "case best_of better 0 NPROC None (procs st) of
     None \<Rightarrow> \<exists>b. scheduler_best better i st = Ok (None, settled b i st)
   | Some p \<Rightarrow> scheduler_best better i st = Ok (Some p, acq i (PLock p) (dispatch i p st))"
proof -
  have "\<exists>b. best_scan better i 0 NPROC None st =
      Ok (best_of better 0 NPROC None (procs st), held (best_of better 0 NPROC None (procs st)) b i st)"
    using best_scan_eq [OF assms, of None 0 better NPROC False] by (simp add: held_def)
  then show ?thesis
    by (auto simp: scheduler_best_def held_def dispatch_acq split: option.splits)
qed

text \<open>\<open>choice mode ps\<close> is the process that a round of the scheduler runs.\<close>

definition choice :: "c_int \<Rightarrow> (nat \<Rightarrow> proc) \<Rightarrow> nat option" where
  "choice mode ps =
     (if mode = SCHED_ROUND_ROBIN then first_slot (\<lambda>j. p_state (ps j) = RUNNABLE) 0 NPROC
      else if mode = SCHED_FCFS then best_of fcfs_better 0 NPROC None ps
      else if mode = SCHED_PRIORITY then best_of prio_better 0 NPROC None ps
      else None)"

definition intr_on :: "nat \<Rightarrow> 'z machine_scheme \<Rightarrow> 'z machine_scheme" where
  "intr_on i st = upd_cpu i (\<lambda>c. c\<lparr>sie := True\<rparr>) st"

lemma intr_on_ok: "noff (cpus st i) = 0 \<Longrightarrow> cpu_ok i (intr_on i st)"
  by (simp add: intr_on_def cpu_ok_def cpu_wf_def)

lemma scheduler_eq:
  assumes "noff (cpus st i) = 0" and "plocks_free st"
  shows "case choice (sched_mode st) (procs st) of
     None \<Rightarrow> \<exists>b. scheduler i st = Ok (None, settled b i (intr_on i st))
   | Some p \<Rightarrow> scheduler i st = Ok (Some p, acq i (PLock p) (dispatch i p (intr_on i st)))"
proof -
  have pre: "cpu_ok i (intr_on i st)" "plocks_free (intr_on i st)"
    using assms intr_on_ok by (simp_all add: intr_on_def)
  have e: "procs (intr_on i st) = procs st" "sched_mode (intr_on i st) = sched_mode st"
    by (simp_all add: intr_on_def)
  show ?thesis
    using rr_scan_eq [OF pre, of 0 NPROC] scheduler_best_eq [OF pre]
    unfolding scheduler_def Let_def intr_on_def [symmetric] choice_def e
    by (auto simp: dispatch_acq intro: exI [of _ False] split: option.splits)
qed

lemma choice_None:
  assumes "mode \<in> {SCHED_ROUND_ROBIN, SCHED_FCFS, SCHED_PRIORITY}"
  shows "choice mode ps = None \<longleftrightarrow> (\<forall>j < NPROC. p_state (ps j) \<noteq> RUNNABLE)"
  using assms by (auto simp: choice_def first_slot_None fcfs.best_of_None prio.best_of_None)

lemma choice_Some:
  assumes "choice mode ps = Some p"
  shows "p < NPROC" "p_state (ps p) = RUNNABLE"
  using assms fcfs.best_of_Some(1,2) prio.best_of_Some(1,2)
  by (auto simp: choice_def split: if_splits dest: first_slot_Some)

text \<open>\<open>before mode a b\<close>: the policy prefers \<open>a\<close> to \<open>b\<close>.\<close>

definition before :: "c_int \<Rightarrow> proc \<Rightarrow> proc \<Rightarrow> bool" where
  "before mode a b =
     (if mode = SCHED_FCFS then p_creation_time a < p_creation_time b
      else if mode = SCHED_PRIORITY then
        sint (p_priority a) < sint (p_priority b) \<or>
        p_priority a = p_priority b \<and> p_creation_time a < p_creation_time b
      else False)"

lemma choice_best:
  assumes "choice mode ps = Some p" and "q < NPROC" and "p_state (ps q) = RUNNABLE"
  shows "\<not> before mode (ps q) (ps p) \<and> (q < p \<longrightarrow> before mode (ps p) (ps q))"
proof -
  have f: "\<not> fcfs_better (ps q) (ps p) \<and> (q < p \<longrightarrow> fcfs_better (ps p) (ps q))" if "mode = SCHED_FCFS"
    using assms fcfs.best_of_Some(3,4) [of NPROC ps p q] that
    by (simp add: choice_def SCHED_ROUND_ROBIN_def SCHED_FCFS_def)
  have h: "\<not> prio_better (ps q) (ps p) \<and> (q < p \<longrightarrow> prio_better (ps p) (ps q))" if "mode = SCHED_PRIORITY"
    using assms prio.best_of_Some(3,4) [of NPROC ps p q] that
    by (simp add: choice_def SCHED_ROUND_ROBIN_def SCHED_FCFS_def SCHED_PRIORITY_def)
  have r: "\<not> q < p" if "mode = SCHED_ROUND_ROBIN"
    using assms that first_slot_Some [of "\<lambda>j. p_state (ps j) = RUNNABLE" 0 NPROC p]
    by (auto simp: choice_def)
  have "mode \<in> {SCHED_ROUND_ROBIN, SCHED_FCFS, SCHED_PRIORITY}"
    using assms(1) by (auto simp: choice_def split: if_splits)
  then show ?thesis
    using f h r
    by (auto simp: before_def fcfs_better_def prio_better_def word_sless_alt SCHED_ROUND_ROBIN_def
        SCHED_FCFS_def SCHED_PRIORITY_def)
qed

text \<open>
  Claim C11: a round of the scheduler runs the process its policy asks for. With the locks of the
  table free, the round finds a process exactly when one is runnable. The process it switches to
  is runnable, no other runnable process comes before it, and among processes the policy does not
  distinguish it has the smallest slot (in round robin: the next slot); it is marked running and
  is the current process of the processor, its lock is held and every other lock is as it was, and
  no other process changes.
\<close>

theorem scheduler_runs_best:
  assumes "noff (cpus st i) = 0" and "plocks_free st"
    and "sched_mode st \<in> {SCHED_ROUND_ROBIN, SCHED_FCFS, SCHED_PRIORITY}"
  shows "\<exists>r st'. scheduler i st = Ok (r, st') \<and>
    (r = None \<longrightarrow> (\<forall>j < NPROC. p_state (procs st j) \<noteq> RUNNABLE) \<and> procs st' = procs st \<and> lks st' = lks st) \<and>
    (\<forall>p. r = Some p \<longrightarrow>
       p < NPROC \<and> p_state (procs st p) = RUNNABLE \<and>
       (\<forall>q < NPROC. p_state (procs st q) = RUNNABLE \<longrightarrow>
          \<not> before (sched_mode st) (procs st q) (procs st p) \<and>
          (q < p \<longrightarrow> before (sched_mode st) (procs st p) (procs st q))) \<and>
       p_state (procs st' p) = RUNNING \<and> myproc i st' = Some p \<and> noff (cpus st' i) = 1 \<and>
       holding i (lks st' (PLock p)) \<and> (\<forall>l. l \<noteq> PLock p \<longrightarrow> lks st' l = lks st l) \<and>
       (\<forall>q. q \<noteq> p \<longrightarrow> procs st' q = procs st q))"
proof (cases "choice (sched_mode st) (procs st)")
  case None
  then obtain b where "scheduler i st = Ok (None, settled b i (intr_on i st))"
    using scheduler_eq [OF assms(1,2)] by auto
  then show ?thesis
    using None choice_None [OF assms(3)] by (simp add: intr_on_def)
next
  case (Some p)
  let ?st = "acq i (PLock p) (dispatch i p (intr_on i st))"
  have "scheduler i st = Ok (Some p, ?st)"
    using scheduler_eq [OF assms(1,2)] Some by simp
  moreover have "noff (cpus ?st i) = 1" "myproc i ?st = Some p" "p_state (procs ?st p) = RUNNING"
      "\<forall>q. q \<noteq> p \<longrightarrow> procs ?st q = procs st q" "\<forall>l. l \<noteq> PLock p \<longrightarrow> lks ?st l = lks st l"
    using assms(1) by (simp_all add: intr_on_def) (simp add: myproc_def)
  ultimately show ?thesis
    using choice_Some [OF Some] choice_best [OF Some] by simp
qed

text \<open>A small machine for examples: three runnable processes on one processor.\<close>

definition demo_proc :: "procstate \<Rightarrow> u32 \<Rightarrow> c_int \<Rightarrow> c_int \<Rightarrow> proc" where
  "demo_proc s t prio pid = \<lparr>p_state = s, p_chan = None, p_killed = 0, p_xstate = 0, p_pid = pid,
     p_parent = None, p_kstack = 0, p_sz = 0, p_pagetable = 0, p_trapframe = 0,
     p_context = \<lparr>c_ra = 0, c_sp = 0, c_s = []\<rparr>, p_ofile = (\<lambda>_. None), p_cwd = None,
     p_name = replicate 16 0, p_creation_time = t, p_run_time = 0, p_priority = prio,
     p_last_runnable_time = 0, p_total_waiting_time = 0, p_kont = AtForkret, p_intena = True\<rparr>"

definition demo_procs :: "nat \<Rightarrow> proc" where
  "demo_procs j =
     (if j = 1 then demo_proc RUNNABLE 7 10 4 else if j = 3 then demo_proc RUNNABLE 5 10 2
      else if j = 4 then demo_proc RUNNABLE 9 3 5 else demo_proc UNUSED 0 0 0)"

definition demo_machine :: "c_int \<Rightarrow> machine" where
  "demo_machine mode = \<lparr>cpus = (\<lambda>_. idle_cpu), lks = (\<lambda>_. \<lparr>locked = 0, lcpu = None, lname = []\<rparr>),
     procs = demo_procs, initproc = None, nextpid = 6, ticks = 12, sched_mode = mode,
     total_turnaround_time = 0, total_waiting_time_sum = 0, finished_processes = 0,
     ph = \<lparr>pmem = (\<lambda>_. 0), freelist = 0, kend = 0\<rparr>, sym_trampoline = 0, sym_forkret = 0\<rparr>"

lemma demo_machine_ok:
  "noff (cpus (demo_machine mode) i) = 0" "plocks_free (demo_machine mode)"
  "sched_mode (demo_machine mode) = mode" "procs (demo_machine mode) = demo_procs"
  by (simp_all add: demo_machine_def idle_cpu_def plocks_free_def lock_free_def)

theorem scheduler_runs_best_witness:
  "\<exists>st'. scheduler 0 (demo_machine SCHED_FCFS) = Ok (Some 3, st') \<and> p_state (procs st' 3) = RUNNING"
proof -
  let ?P = "\<lambda>p. p < NPROC \<and> p_state (demo_procs p) = RUNNABLE \<and>
       (\<forall>q < NPROC. p_state (demo_procs q) = RUNNABLE \<longrightarrow>
          \<not> before SCHED_FCFS (demo_procs q) (demo_procs p))"
  have "\<exists>r st'. scheduler 0 (demo_machine SCHED_FCFS) = Ok (r, st') \<and>
      (r = None \<longrightarrow> (\<forall>j < NPROC. p_state (demo_procs j) \<noteq> RUNNABLE)) \<and>
      (\<forall>p. r = Some p \<longrightarrow> ?P p \<and> p_state (procs st' p) = RUNNING)"
    using scheduler_runs_best [of "demo_machine SCHED_FCFS" 0] by (auto simp: demo_machine_ok)
  then obtain r st' where r: "scheduler 0 (demo_machine SCHED_FCFS) = Ok (r, st')"
      "r = None \<longrightarrow> (\<forall>j < NPROC. p_state (demo_procs j) \<noteq> RUNNABLE)"
      "\<forall>p. r = Some p \<longrightarrow> ?P p \<and> p_state (procs st' p) = RUNNING"
    by blast
  have three: "3 < NPROC" "p_state (demo_procs 3) = RUNNABLE"
    by (simp_all add: NPROC_def demo_procs_def demo_proc_def)
  then obtain p where p: "r = Some p" "?P p"
    using r(2,3) by (cases r) auto
  then have "\<not> before SCHED_FCFS (demo_procs 3) (demo_procs p)"
    using three by blast
  then have "p = 3"
    using p(2) by (auto simp: demo_procs_def demo_proc_def before_def split: if_splits)
  then show ?thesis
    using r(1,3) p(1) by auto
qed

end
