(* ===== verification/Xv6_Sched_System.thy ===== *)
theory Xv6_Sched_System
  imports Xv6_Sched
begin

text \<open>
  Processors that run the scheduler and processes that yield, sleep, exit, wake each other, kill
  each other and change priorities and the policy, in any order. An event is a call as a whole, which
  no other processor interrupts: from the scheduler's search to the process's return from \<^verbatim>\<open>swtch\<close>
  and from \<^verbatim>\<open>sleep\<close>, or from a call of the process to the scheduler's release of \<^verbatim>\<open>p->lock\<close> after the
  switch. The state has, besides the machine, what the kernel keeps on the stacks of its threads: where
  each processor is in the round robin loop of \<^verbatim>\<open>scheduler()\<close>, and which processes are inside \<^verbatim>\<open>exit()\<close>,
  between the update of the metrics and the hand-over to the parent, where they close their files.
\<close>

section \<open>The scheduler after a switch\<close>

text \<open>
  \<open>scheduler_next i pos\<close>: what \<^verbatim>\<open>scheduler()\<close> does on the processor \<open>i\<close> until its next switch, or
  until the end of the round. With \<open>pos = None\<close> it is at the head of its endless loop; with \<open>pos = Some k\<close> the
  \<^verbatim>\<open>for\<close> loop of round robin goes on with the slot \<open>k\<close>, whatever the policy is by then. The results
  are the slot it runs, the new position and the machine.
\<close>

definition scheduler_next ::
  "nat \<Rightarrow> nat option \<Rightarrow> 'z machine_scheme \<Rightarrow> (nat option \<times> nat option \<times> 'z machine_scheme) res" where
  "scheduler_next i pos st =
     (case pos of
        None \<Rightarrow> rbind (scheduler i st) (\<lambda>(r, st').
          Ok (r, if sched_mode st = SCHED_ROUND_ROBIN then map_option Suc r else None, st'))
      | Some k \<Rightarrow> rbind (rr_scan i k (NPROC - k) st) (\<lambda>(r, st'). Ok (r, map_option Suc r, st')))"

text \<open>The part of the scheduler after a switch, when there was one.\<close>

definition switched :: "nat \<Rightarrow> nat \<Rightarrow> ('z machine_scheme + 'z machine_scheme) \<Rightarrow> 'z machine_scheme res" where
  "switched i p x = (case x of Inl st \<Rightarrow> Ok st | Inr st \<Rightarrow> undispatch i p st)"

definition returned :: "nat \<Rightarrow> nat \<Rightarrow> ((c_int \<times> 'z machine_scheme) + 'z machine_scheme) \<Rightarrow> 'z machine_scheme res" where
  "returned i p x = (case x of Inl (r, st) \<Rightarrow> Ok st | Inr st \<Rightarrow> undispatch i p st)"

text \<open>
  The end of \<^verbatim>\<open>sleep(chan, lk)\<close>: the process takes \<open>lk\<close> back. Then it either leaves the critical section
  or, when what it waits for has not happened, sleeps again with the same lock.
\<close>

definition sleep_return ::
  "nat \<Rightarrow> nat \<Rightarrow> lockname option \<Rightarrow> chan option \<Rightarrow> 'z machine_scheme \<Rightarrow> 'z machine_scheme res" where
  "sleep_return i p lk again st =
     (case lk of None \<Rightarrow> Ok st
      | Some l \<Rightarrow> rbind (acquire i l st) (\<lambda>st.
          case again of None \<Rightarrow> release i l st
          | Some ch \<Rightarrow> rbind (sleep i ch l st) (undispatch i p)))"

text \<open>The beginning of \<^verbatim>\<open>exit()\<close>, up to the files.\<close>

definition exit_start :: "nat \<Rightarrow> nat \<Rightarrow> 'z machine_scheme \<Rightarrow> 'z machine_scheme res" where
  "exit_start i p st = (if initproc st = Some p then Panic ''init exiting'' else exit_metrics i p st)"

section \<open>Events\<close>

datatype event =
    Schedule "chan option"
  | Yield
  | Sleep chan lockname
  | Wakeup chan
  | Kill c_int
  | Tick
  | SetPriority c_int c_int
  | SetScheduler c_int
  | ExitStart
  | ExitFinal c_int

record ksys =
  kmach :: machine
  kpos :: "nat \<Rightarrow> nat option"
  kexiting :: "nat set"

definition lift_mach :: "(machine \<Rightarrow> machine res) \<Rightarrow> ksys \<Rightarrow> ksys res" where
  "lift_mach f s = rbind (f (kmach s)) (\<lambda>st. Ok (s\<lparr>kmach := st\<rparr>))"

text \<open>A call of the current process.\<close>

definition by_current :: "nat \<Rightarrow> (nat \<Rightarrow> machine \<Rightarrow> machine res) \<Rightarrow> ksys \<Rightarrow> ksys res" where
  "by_current i f s = (case myproc i (kmach s) of None \<Rightarrow> Stuck | Some p \<Rightarrow> lift_mach (f p) s)"

text \<open>\<open>run_event i e\<close>: the event \<open>e\<close> on the processor \<open>i\<close>. A call of a process needs a current process.\<close>

fun run_event :: "nat \<Rightarrow> event \<Rightarrow> ksys \<Rightarrow> ksys res" where
  "run_event i (Schedule again) s =
     rbind (scheduler_next i (kpos s i) (kmach s)) (\<lambda>(r, pos, st).
       rbind (case r of None \<Rightarrow> Ok st
              | Some p \<Rightarrow> rbind (resume i p st) (\<lambda>(lk, st). sleep_return i p lk again st)) (\<lambda>st.
       Ok (s\<lparr>kmach := st, kpos := (kpos s)(i := pos)\<rparr>)))"
| "run_event i Yield s = by_current i (\<lambda>p st. rbind (yield i st) (switched i p)) s"
| "run_event i (Sleep ch lk) s =
     by_current i (\<lambda>p st. rbind (acquire i lk st) (\<lambda>st. rbind (sleep i ch lk st) (undispatch i p))) s"
| "run_event i (Wakeup ch) s = lift_mach (wakeup i (Some ch)) s"
| "run_event i (Kill pid) s = lift_mach (\<lambda>st. rbind (kill i pid st) (\<lambda>(r, st). Ok st)) s"
| "run_event i Tick s = lift_mach (clockintr i) s"
| "run_event i (SetPriority pid prio) s =
     by_current i (\<lambda>p st. rbind (setpriority i pid prio st) (returned i p)) s"
| "run_event i (SetScheduler policy) s =
     by_current i (\<lambda>p st. rbind (setscheduler i policy st) (returned i p)) s"
| "run_event i ExitStart s =
     rbind (by_current i (exit_start i) s) (\<lambda>s'.
       Ok (s'\<lparr>kexiting := kexiting s \<union> set_option (myproc i (kmach s))\<rparr>))"
| "run_event i (ExitFinal status) s =
     rbind (by_current i (\<lambda>p st. rbind (exit_final i p status st) (undispatch i p)) s) (\<lambda>s'.
       Ok (s'\<lparr>kexiting := kexiting s - set_option (myproc i (kmach s))\<rparr>))"

text \<open>
  The scheduler runs on a processor without a current process; the calls of a process need one; a
  process sleeps with a lock that is not the lock of a process; \<^verbatim>\<open>exit()\<close> comes to its end only in a
  process that has been through its beginning.
\<close>

fun enabled :: "nat \<Rightarrow> event \<Rightarrow> ksys \<Rightarrow> bool" where
  "enabled i (Schedule again) s = (myproc i (kmach s) = None)"
| "enabled i (Sleep ch lk) s = (myproc i (kmach s) \<noteq> None \<and> (\<forall>k. lk \<noteq> PLock k))"
| "enabled i (Wakeup ch) s = True"
| "enabled i (Kill pid) s = True"
| "enabled i Tick s = True"
| "enabled i Yield s = (myproc i (kmach s) \<noteq> None)"
| "enabled i (SetPriority pid prio) s = (myproc i (kmach s) \<noteq> None)"
| "enabled i (SetScheduler policy) s = (myproc i (kmach s) \<noteq> None)"
| "enabled i ExitStart s = (\<exists>p. myproc i (kmach s) = Some p \<and> p \<notin> kexiting s)"
| "enabled i (ExitFinal status) s = (\<exists>p. myproc i (kmach s) = Some p \<and> p \<in> kexiting s)"

section \<open>Invariant\<close>

text \<open>
  On the current processes of the processors and the table: a process is running exactly when it
  is current on a processor, and on one only; a sleeping process has a channel and will return from
  \<^verbatim>\<open>sleep\<close>; a runnable process has not exited; no process sleeps with the lock of a process.
\<close>

definition proc_inv :: "(nat \<Rightarrow> nat option) \<Rightarrow> (nat \<Rightarrow> proc) \<Rightarrow> bool" where
  "proc_inv cur ps \<longleftrightarrow>
     (\<forall>i p. cur i = Some p \<longrightarrow> p < NPROC \<and> p_state (ps p) = RUNNING) \<and>
     (\<forall>p. p_state (ps p) = RUNNING \<longrightarrow> (\<exists>i. cur i = Some p)) \<and>
     (\<forall>i j p. cur i = Some p \<longrightarrow> cur j = Some p \<longrightarrow> i = j) \<and>
     (\<forall>p. p_state (ps p) = SLEEPING \<longrightarrow> p_chan (ps p) \<noteq> None \<and> (\<exists>lk. p_kont (ps p) = AtSleep lk)) \<and>
     (\<forall>p. p_state (ps p) = RUNNABLE \<longrightarrow> p_kont (ps p) \<noteq> AtExit) \<and>
     (\<forall>p j. p_kont (ps p) \<noteq> AtSleep (PLock j))"

definition cur :: "'z machine_scheme \<Rightarrow> nat \<Rightarrow> nat option" where
  "cur st i = cproc (cpus st i)"

definition quiet :: "'z machine_scheme \<Rightarrow> bool" where
  "quiet st \<longleftrightarrow> (\<forall>l. lock_free (lks st l)) \<and> (\<forall>i. noff (cpus st i) = 0)"

definition sched_inv :: "'z machine_scheme \<Rightarrow> bool" where
  "sched_inv st \<longleftrightarrow> quiet st \<and> proc_inv (cur st) (procs st)"

lemma quietD:
  "quiet st \<Longrightarrow> lock_free (lks st l)" "quiet st \<Longrightarrow> noff (cpus st i) = 0" "quiet st \<Longrightarrow> plocks_free st"
  "quiet st \<Longrightarrow> cpu_ok i st"
  unfolding quiet_def plocks_free_def cpu_ok_def cpu_wf_def by (simp_all del: plocks_freeD)

lemma quiet_settled [simp]: "quiet (settled b i st) = quiet st"
  by (simp add: quiet_def)

lemma quiet_procs [simp]: "quiet (st\<lparr>procs := f\<rparr>) = quiet st" "quiet (upd_proc k g st) = quiet st"
  by (simp_all add: quiet_def)

lemma cur_simps [simp]:
  "cur (settled b i st) = cur st" "cur (st\<lparr>procs := f\<rparr>) = cur st" "cur (upd_proc k g st) = cur st"
  "cur (acq i l st) = cur st"
  "cur (upd_cpu i (\<lambda>c. c\<lparr>cproc := x\<rparr>) st) = (cur st)(i := x)"
  "cur (dispatch i p st) = (cur st)(i := Some p)"
  by (auto simp: cur_def fun_eq_iff acq_def)

text \<open>A change of the table that wakes some processes and leaves the others' states alone.\<close>

definition woke :: "(nat \<Rightarrow> proc) \<Rightarrow> (nat \<Rightarrow> proc) \<Rightarrow> bool" where
  "woke ps ps' \<longleftrightarrow>
     (\<forall>j. p_kont (ps' j) = p_kont (ps j) \<and> p_chan (ps' j) = p_chan (ps j) \<and>
        (p_state (ps' j) = p_state (ps j) \<or> p_state (ps j) = SLEEPING \<and> p_state (ps' j) = RUNNABLE))"

lemma woke_refl [simp]: "woke ps ps"
  by (simp add: woke_def)

lemma woke_trans: "woke ps ps' \<Longrightarrow> woke ps' ps'' \<Longrightarrow> woke ps ps''"
  unfolding woke_def by (metis procstate.distinct(19))

lemma proc_invD:
  assumes "proc_inv c ps"
  shows "\<And>i p. c i = Some p \<Longrightarrow> p < NPROC" "\<And>i p. c i = Some p \<Longrightarrow> p_state (ps p) = RUNNING"
    "\<And>p. p_state (ps p) = RUNNING \<Longrightarrow> \<exists>i. c i = Some p"
    "\<And>i j p. c i = Some p \<Longrightarrow> c j = Some p \<Longrightarrow> i = j"
    "\<And>p. p_state (ps p) = SLEEPING \<Longrightarrow> p_chan (ps p) \<noteq> None \<and> (\<exists>lk. p_kont (ps p) = AtSleep lk)"
    "\<And>p. p_state (ps p) = RUNNABLE \<Longrightarrow> p_kont (ps p) \<noteq> AtExit"
    "\<And>p j. p_kont (ps p) \<noteq> AtSleep (PLock j)"
  using assms unfolding proc_inv_def by blast+

lemma proc_invI:
  assumes "\<And>i p. c i = Some p \<Longrightarrow> p < NPROC \<and> p_state (ps p) = RUNNING"
    "\<And>p. p_state (ps p) = RUNNING \<Longrightarrow> \<exists>i. c i = Some p"
    "\<And>i j p. c i = Some p \<Longrightarrow> c j = Some p \<Longrightarrow> i = j"
    "\<And>p. p_state (ps p) = SLEEPING \<Longrightarrow> p_chan (ps p) \<noteq> None \<and> (\<exists>lk. p_kont (ps p) = AtSleep lk)"
    "\<And>p. p_state (ps p) = RUNNABLE \<Longrightarrow> p_kont (ps p) \<noteq> AtExit"
    "\<And>p j. p_kont (ps p) \<noteq> AtSleep (PLock j)"
  shows "proc_inv c ps"
  using assms unfolding proc_inv_def by blast

lemma proc_inv_woke:
  assumes inv: "proc_inv c ps" and "woke ps ps'"
  shows "proc_inv c ps'"
proof -
  have w: "p_kont (ps' j) = p_kont (ps j)" "p_chan (ps' j) = p_chan (ps j)"
    "p_state (ps' j) = p_state (ps j) \<or> p_state (ps j) = SLEEPING \<and> p_state (ps' j) = RUNNABLE" for j
    using assms(2) by (simp_all add: woke_def)
  have r: "p_state (ps' j) = RUNNING \<longleftrightarrow> p_state (ps j) = RUNNING" for j
    using w(3) [of j] by auto
  have s: "p_state (ps j) = SLEEPING" if "p_state (ps' j) = SLEEPING" for j
    using w(3) [of j] that by auto
  have "p_kont (ps j) \<noteq> AtExit" if "p_state (ps' j) = RUNNABLE" for j
    using w(3) [of j] that proc_invD(5,6) [OF inv, of j] by auto
  then show ?thesis
    using w(1,2) r s proc_invD [OF inv] by (intro proc_invI) simp_all
qed

lemma proc_inv_run:
  assumes inv: "proc_inv c ps" and "c i = None" and "p < NPROC" and "p_state (ps p) = RUNNABLE"
    and "p_state q = RUNNING" and "\<forall>j. p_kont q \<noteq> AtSleep (PLock j)"
  shows "proc_inv (c(i := Some p)) (ps(p := q))"
proof (rule proc_invI)
  have p: "c j \<noteq> Some p" for j
    using proc_invD(2) [OF inv, of j p] assms(4) by auto
  fix j k r
  show "r < NPROC \<and> p_state ((ps(p := q)) r) = RUNNING" if "(c(i := Some p)) j = Some r"
    using that assms(3,5) p proc_invD(1,2) [OF inv, of j r] by (auto split: if_splits)
  show "\<exists>i'. (c(i := Some p)) i' = Some r" if r: "p_state ((ps(p := q)) r) = RUNNING"
  proof (cases "r = p")
    case False
    then obtain i' where "c i' = Some r"
      using r proc_invD(3) [OF inv, of r] by auto
    then show ?thesis
      using assms(2) by (intro exI [of _ i']) auto
  qed auto
  show "j = k" if "(c(i := Some p)) j = Some r" "(c(i := Some p)) k = Some r"
    using that p proc_invD(4) [OF inv, of j r k] by (auto split: if_splits)
qed (use assms proc_invD(5,6,7) [OF inv] in \<open>auto split: if_splits\<close>)

lemma proc_inv_stop:
  assumes inv: "proc_inv c ps" and "c i = Some p" and "p_state q \<noteq> RUNNING"
    and "p_state q = SLEEPING \<longrightarrow> p_chan q \<noteq> None \<and> (\<exists>lk. p_kont q = AtSleep lk)"
    and "p_state q = RUNNABLE \<longrightarrow> p_kont q \<noteq> AtExit" and "\<forall>j. p_kont q \<noteq> AtSleep (PLock j)"
  shows "proc_inv (c(i := None)) (ps(p := q))"
proof (rule proc_invI)
  have p: "c j \<noteq> Some p" if "j \<noteq> i" for j
    using proc_invD(4) [OF inv, of i p j] assms(2) that by auto
  fix j k r
  show "r < NPROC \<and> p_state ((ps(p := q)) r) = RUNNING" if "(c(i := None)) j = Some r"
    using that p [of j] proc_invD(1,2) [OF inv, of j r] by (auto split: if_splits)
  show "\<exists>i'. (c(i := None)) i' = Some r" if r: "p_state ((ps(p := q)) r) = RUNNING"
  proof -
    have "r \<noteq> p"
      using r assms(3) by auto
    then obtain i' where "c i' = Some r"
      using r proc_invD(3) [OF inv, of r] by auto
    then show ?thesis
      using \<open>r \<noteq> p\<close> assms(2) by (intro exI [of _ i']) auto
  qed
  show "j = k" if "(c(i := None)) j = Some r" "(c(i := None)) k = Some r"
    using that proc_invD(4) [OF inv, of j r k] by (auto split: if_splits)
qed (use assms proc_invD(5,6,7) [OF inv] in \<open>auto split: if_splits\<close>)

section \<open>Leaving a processor\<close>

lemma sched_acq:
  assumes "myproc i st = Some p" and "noff (cpus st i) = 0" and "p_state (procs st p) \<noteq> RUNNING"
  shows "\<exists>b. sched i k (acq i (PLock p) st) =
    Ok (acq i (PLock p) (upd_proc p (\<lambda>q. q\<lparr>p_intena := b, p_kont := k\<rparr>) st))"
  using assms by (auto simp: sched_def upd_proc_acq)

lemma undispatch_acq:
  assumes "quiet st"
  shows "undispatch i p (acq i (PLock p) st) = Ok (settled True i (upd_cpu i (\<lambda>c. c\<lparr>cproc := None\<rparr>) st))"
proof -
  have "cpu_ok i (upd_cpu i (\<lambda>c. c\<lparr>cproc := None\<rparr>) st)"
    using quietD(2) [OF assms] by (simp add: cpu_ok_def cpu_wf_def)
  then show ?thesis
    using quietD(1) [OF assms] by (simp add: undispatch_def cproc_acq release_acq)
qed

lemma quiet_cproc [simp]: "quiet (upd_cpu i (\<lambda>c. c\<lparr>cproc := x\<rparr>) st) = quiet st"
  by (auto simp: quiet_def)

text \<open>A process that has set its state and still holds its lock switches away.\<close>

lemma leave:
  assumes inv: "sched_inv st" and p: "myproc i st = Some p"
    and s: "p_state (f (procs st p)) \<noteq> RUNNING"
      "p_state (f (procs st p)) = SLEEPING \<longrightarrow> p_chan (f (procs st p)) \<noteq> None \<and> (\<exists>lk. k = AtSleep lk)"
      "p_state (f (procs st p)) = RUNNABLE \<longrightarrow> k \<noteq> AtExit" "\<forall>j. k \<noteq> AtSleep (PLock j)"
  shows "\<exists>st'. rbind (sched i k (acq i (PLock p) (upd_proc p f st))) (undispatch i p) = Ok st' \<and> sched_inv st'"
proof -
  have q: "quiet st"
    using inv by (simp add: sched_inv_def)
  obtain b where b: "sched i k (acq i (PLock p) (upd_proc p f st)) =
      Ok (acq i (PLock p) (upd_proc p (\<lambda>q. q\<lparr>p_intena := b, p_kont := k\<rparr>) (upd_proc p f st)))"
    using sched_acq [of i "upd_proc p f st" p k] p s(1) quietD(2) [OF q] by auto
  let ?st = "upd_proc p (\<lambda>q. q\<lparr>p_intena := b, p_kont := k\<rparr>) (upd_proc p f st)"
  let ?q = "(f (procs st p))\<lparr>p_intena := b, p_kont := k\<rparr>"
  have "proc_inv ((cur st)(i := None)) ((procs st)(p := ?q))"
    using inv p s by (intro proc_inv_stop) (simp_all add: sched_inv_def cur_def myproc_def)
  then have "sched_inv (settled True i (upd_cpu i (\<lambda>c. c\<lparr>cproc := None\<rparr>) ?st))"
    using q by (simp add: sched_inv_def)
  then show ?thesis
    using b undispatch_acq [of ?st i p] q by simp
qed

lemma sched_inv_woke:
  "sched_inv st \<Longrightarrow> woke (procs st) f \<Longrightarrow> sched_inv (settled b i (st\<lparr>procs := f\<rparr>))"
  by (auto simp: sched_inv_def intro: proc_inv_woke)

lemma sched_inv_settled [simp]: "sched_inv (settled b i st) = sched_inv st"
  by (simp add: sched_inv_def)

lemma sched_inv_fields [simp]:
  "sched_inv (st\<lparr>ticks := t\<rparr>) = sched_inv st" "sched_inv (st\<lparr>sched_mode := m\<rparr>) = sched_inv st"
  "sched_inv (st\<lparr>total_turnaround_time := a, total_waiting_time_sum := b, finished_processes := c\<rparr>) = sched_inv st"
  by (simp_all add: sched_inv_def quiet_def cur_def [abs_def])

lemma yield_ok:
  assumes inv: "sched_inv st" and p: "myproc i st = Some p"
  shows "\<exists>st'. rbind (yield i st) (switched i p) = Ok st' \<and> sched_inv st'"
proof -
  have q: "quiet st"
    using inv by (simp add: sched_inv_def)
  show ?thesis
  proof (cases "sched_mode st = SCHED_FCFS")
    case True
    then show ?thesis
      using inv p q by (simp add: yield_def switched_def acquire_acq release_acq quietD)
  next
    case False
    let ?f = "\<lambda>q. q\<lparr>p_state := RUNNABLE, p_last_runnable_time := ticks st\<rparr>"
    have "yield i st = rbind (sched i AtYield (acq i (PLock p) (upd_proc p ?f st))) (\<lambda>st. Ok (Inr st))"
      using False p q by (simp add: yield_def lock_rules quietD)
    then show ?thesis
      using leave [OF inv p, of ?f AtYield] by (simp add: rbind_assoc switched_def)
  qed
qed

lemma sleep_ok:
  assumes inv: "sched_inv st" and p: "myproc i st = Some p" and "\<forall>k. lk \<noteq> PLock k"
  shows "\<exists>st'. rbind (acquire i lk st) (\<lambda>st. rbind (sleep i ch lk st) (undispatch i p)) = Ok st' \<and> sched_inv st'"
proof -
  let ?f = "\<lambda>q. q\<lparr>p_chan := Some ch, p_state := SLEEPING\<rparr>"
  have q: "quiet st"
    using inv by (simp add: sched_inv_def)
  have lk: "PLock p \<noteq> lk"
    using assms(3) by metis
  have "rbind (acquire i lk st) (sleep i ch lk) =
      sched i (AtSleep lk) (acq i (PLock p) (upd_proc p ?f st))"
    using lk assms(3) p q by (simp add: sleep_def lock_rules quietD)
  then show ?thesis
    using leave [OF inv p, of ?f "AtSleep lk"] assms(3) by (simp add: rbind_assoc [symmetric])
qed

lemma woke_wake: "woke ps (on_range k n (wake_if me ch t) ps)"
  by (simp add: woke_def on_range_def wake_if_def wake_def)

lemma woke_tick: "woke ps (on_range k n tick_if ps)"
  by (simp add: woke_def on_range_def tick_if_def)

lemma wakeup_ok:
  "sched_inv st \<Longrightarrow> \<exists>b f. wakeup i ch st = Ok (settled b i (st\<lparr>procs := f\<rparr>)) \<and> woke (procs st) f"
  using wakeup_eq [of i st ch] woke_wake quietD by (metis sched_inv_def)

lemma kill_ok: "sched_inv st \<Longrightarrow> \<exists>st'. rbind (kill i pid st) (\<lambda>(r, st). Ok st) = Ok st' \<and> sched_inv st'"
proof -
  assume inv: "sched_inv st"
  have w: "woke (procs st) ((procs st)(p := kill_mark t (procs st p)))" for p t
    by (simp add: woke_def kill_mark_def wake_def)
  have q: "quiet st"
    using inv by (simp add: sched_inv_def)
  show ?thesis
    using kill_from_eq [OF quietD(4,3) [OF q], of i pid 0 NPROC] inv sched_inv_woke [OF inv w, of True i]
    unfolding kill_def by (cases "first_slot (\<lambda>j. p_pid (procs st j) = pid) 0 NPROC") auto
qed

text \<open>Waking with another lock held, as \<^verbatim>\<open>clockintr()\<close> and \<^verbatim>\<open>exit()\<close> do.\<close>

lemma acq_inside:
  assumes "quiet st" and "\<forall>k. l \<noteq> PLock k"
  shows "cpu_ok i (acq i l st)" "plocks_free (acq i l st)" "settled b i (acq i l st) = acq i l st"
proof -
  show "cpu_ok i (acq i l st)"
    using quietD(2) [OF assms(1)] by (simp add: cpu_ok_def cpu_wf_def)
  show "plocks_free (acq i l st)"
    using assms quietD(1) [OF assms(1)] by (simp add: plocks_free_def del: plocks_freeD)
  show "settled b i (acq i l st) = acq i l st"
    using cpu_ok_acq(2) [OF quietD(4) [OF assms(1)], of i l] by (simp add: settled_def upd_cpu_def settle_inner)
qed

lemma wakeup_inside:
  assumes "quiet st" and "\<forall>k. l \<noteq> PLock k"
  shows "wakeup i ch (acq i l st) =
    Ok (acq i l (st\<lparr>procs := on_range 0 NPROC (wake_if (myproc i st) ch (ticks st)) (procs st)\<rparr>))"
  using wakeup_eq [OF acq_inside(1,2) [OF assms], of i ch] assms
  by (auto simp: procs_acq acq_inside(3))

lemma ticks_acq: "(acq i l st)\<lparr>ticks := x\<rparr> = acq i l (st\<lparr>ticks := x\<rparr>)"
  by (simp add: acq_def)

lemma clock_ok:
  assumes inv: "sched_inv st"
  shows "\<exists>st'. clockintr i st = Ok st' \<and> sched_inv st'"
proof (cases "i = 0")
  case True
  let ?t = "st\<lparr>ticks := ticks st + 1\<rparr>"
  have l: "\<forall>k. TicksLock \<noteq> PLock k"
    by simp
  have q: "quiet st" and qt: "quiet ?t"
    using inv sched_inv_fields(1) by (auto simp: sched_inv_def)

  have u: "update_time i (acq i TicksLock ?t) =
      Ok (acq i TicksLock (?t\<lparr>procs := on_range 0 NPROC tick_if (procs st)\<rparr>))"
    using update_time_eq [OF acq_inside(1,2) [OF qt l], of i] qt
    by (auto simp: procs_acq acq_inside(3))
  let ?u = "?t\<lparr>procs := on_range 0 NPROC tick_if (procs st)\<rparr>"
  let ?w = "?u\<lparr>procs := on_range 0 NPROC (wake_if (myproc i ?u) (Some ChTicks) (ticks ?u)) (procs ?u)\<rparr>"
  have "clockintr i st = release i TicksLock (acq i TicksLock ?w)"
    using True q qt u wakeup_inside [OF _ l, of ?u i "Some ChTicks"]
    by (simp add: clockintr_def acquire_acq quietD ticks_acq)
  then have "clockintr i st = Ok (settled True i ?w)"
    using release_acq [of i ?w TicksLock] quietD(1,4) [OF q] by (simp add: cpu_ok_def)
  moreover have "sched_inv ?w"
    using inv sched_inv_woke [of ?t _ False i, OF _ woke_trans [OF woke_tick woke_wake]] by simp
  ultimately show ?thesis
    by simp
next
  case False
  then show ?thesis
    using inv by (simp add: clockintr_def)
qed

section \<open>Entering a processor\<close>

lemma release_intena:
  assumes "quiet st"
  shows "release i l (upd_cpu i (\<lambda>c. c\<lparr>intena := b\<rparr>) (acq i l st)) =
    Ok (upd_cpu i (\<lambda>c. c\<lparr>intena := b, sie := b\<rparr>) st)"
proof -
  let ?c = "(push_off_cpu (cpus st i))\<lparr>intena := b\<rparr>"
  let ?st = "upd_cpu i (\<lambda>c. c\<lparr>intena := b\<rparr>) (acq i l st)"
  have "pop_off_cpu ?c = Ok ((cpus st i)\<lparr>intena := b, sie := b\<rparr>)"
    using quietD(2) [OF assms] by (auto simp: pop_off_cpu_def push_off_cpu_def Let_def)
  then have "release i l ?st = Ok (?st\<lparr>lks := (lks ?st)(l := (lks ?st l)\<lparr>lcpu := None, locked := 0\<rparr>),
      cpus := (cpus ?st)(i := (cpus st i)\<lparr>intena := b, sie := b\<rparr>)\<rparr>)"
    by (intro release_held) (simp_all add: acq_def holding_def)
  moreover have "(lks ?st)(l := (lks ?st l)\<lparr>lcpu := None, locked := 0\<rparr>) = lks st"
    using free_again [OF quietD(1) [OF assms], of l] by (simp add: acq_def fun_upd_idem)
  ultimately show ?thesis
    by (simp add: upd_cpu_def acq_def)
qed

lemma resume_ok:
  assumes q: "quiet st" and k: "p_kont (procs st p) \<noteq> AtExit"
  shows "\<exists>r st'. resume i p (acq i (PLock p) st) = Ok (r, st') \<and> quiet st' \<and> cur st' = cur st \<and>
    (\<forall>lk. r = Some lk \<longrightarrow> p_kont (procs st p) = AtSleep lk) \<and>
    (\<exists>c. procs st' = (procs st)(p := (procs st p)\<lparr>p_chan := c\<rparr>))"
proof (cases "p_kont (procs st p)")
  case AtForkret
  then show ?thesis
    using q quietD(1,4) [OF q] by (auto simp: resume_def release_acq intro: exI [of _ "p_chan (procs st p)"])
next
  case AtYield
  then show ?thesis
    using release_intena [OF q] q
    by (auto simp: resume_def sched_return_def quiet_def cur_def intro: exI [of _ "p_chan (procs st p)"])
next
  case (AtSleep lk)
  let ?st = "upd_proc p (\<lambda>q. q\<lparr>p_chan := None\<rparr>) st"
  have "upd_proc p (\<lambda>q. q\<lparr>p_chan := None\<rparr>) (sched_return i p (acq i (PLock p) st)) =
      upd_cpu i (\<lambda>c. c\<lparr>intena := p_intena (procs st p)\<rparr>) (acq i (PLock p) ?st)"
    by (simp add: sched_return_def upd_proc_def upd_cpu_def acq_def)
  moreover have "quiet ?st"
    using q by simp
  ultimately show ?thesis
    using AtSleep release_intena [of ?st i "PLock p"] q
    by (auto simp: resume_def quiet_def cur_def)
next
  case AtExit
  then show ?thesis
    using k by simp
qed

lemma dispatched_ok:
  assumes inv: "sched_inv st" and idle: "myproc i st = None"
    and p: "p < NPROC" "p_state (procs st p) = RUNNABLE"
  shows "\<exists>lk st'. resume i p (acq i (PLock p) (dispatch i p st)) = Ok (lk, st') \<and> sched_inv st' \<and>
    myproc i st' = Some p \<and> (\<forall>l j. lk = Some l \<longrightarrow> l \<noteq> PLock j)"
proof -
  let ?st = "dispatch i p st"
  have pinv: "proc_inv (cur st) (procs st)" and q: "quiet ?st"
    using inv by (auto simp: sched_inv_def quiet_def)
  have k: "p_kont (procs ?st p) = p_kont (procs st p)"
    by (simp add: waited_def)
  then obtain lk st' ch where st': "resume i p (acq i (PLock p) ?st) = Ok (lk, st')" "quiet st'" "cur st' = cur ?st"
      "\<forall>l. lk = Some l \<longrightarrow> p_kont (procs st p) = AtSleep l"
      "procs st' = (procs ?st)(p := (procs ?st p)\<lparr>p_chan := ch\<rparr>)"
    using resume_ok [OF q, of p i] proc_invD(6) [OF pinv p(2)] by auto
  have "proc_inv ((cur st)(i := Some p)) ((procs st)(p := (procs ?st p)\<lparr>p_chan := ch\<rparr>))"
    using p idle k proc_invD(7) [OF pinv, of p]
    by (intro proc_inv_run [OF pinv]) (simp_all add: cur_def myproc_def)
  moreover have "myproc i st' = Some p"
    using fun_cong [OF st'(3), of i] by (simp add: cur_def myproc_def)
  ultimately show ?thesis
    using st' proc_invD(7) [OF pinv, of p] by (auto simp: sched_inv_def)
qed

lemma sleep_return_ok:
  assumes inv: "sched_inv st" and p: "myproc i st = Some p" and lk: "\<forall>l j. lk = Some l \<longrightarrow> l \<noteq> PLock j"
  shows "\<exists>st'. sleep_return i p lk again st = Ok st' \<and> sched_inv st'"
proof -
  have q: "quiet st"
    using inv by (simp add: sched_inv_def)
  show ?thesis
    using sleep_ok [OF inv p] lk inv q
    by (auto simp: sleep_return_def acquire_acq release_acq quietD split: option.splits)
qed

text \<open>The slot that \<open>scheduler_next\<close> runs, and from which slot on it looks.\<close>

definition next_choice :: "nat option \<Rightarrow> c_int \<Rightarrow> (nat \<Rightarrow> proc) \<Rightarrow> nat option" where
  "next_choice pos mode ps =
     (case pos of None \<Rightarrow> choice mode ps
      | Some k \<Rightarrow> first_slot (\<lambda>j. p_state (ps j) = RUNNABLE) k (NPROC - k))"

definition next_pos :: "nat option \<Rightarrow> c_int \<Rightarrow> nat option \<Rightarrow> nat option" where
  "next_pos pos mode r =
     (if pos = None \<and> mode \<noteq> SCHED_ROUND_ROBIN then None else map_option Suc r)"

lemma next_choice_Some:
  "next_choice pos mode ps = Some p \<Longrightarrow> p < NPROC" "next_choice pos mode ps = Some p \<Longrightarrow> p_state (ps p) = RUNNABLE"
  using choice_Some [of mode ps p] by (auto simp: next_choice_def split: option.splits dest: first_slot_Some)

lemma intr_on_fields [simp]:
  "procs (intr_on i st) = procs st" "quiet (intr_on i st) = quiet st" "cur (intr_on i st) = cur st"
  "myproc j (intr_on i st) = myproc j st"
  by (auto simp: intr_on_def quiet_def cur_def fun_eq_iff myproc_def)

lemma sched_inv_intr_on [simp]: "sched_inv (intr_on i st) = sched_inv st"
  by (simp add: sched_inv_def)

lemma scheduler_next_eq:
  assumes "quiet st"
  shows "\<exists>st0 \<in> {st, intr_on i st}. case next_choice pos (sched_mode st) (procs st) of
     None \<Rightarrow> \<exists>b. scheduler_next i pos st = Ok (None, None, settled b i st0)
   | Some p \<Rightarrow> scheduler_next i pos st =
       Ok (Some p, next_pos pos (sched_mode st) (Some p), acq i (PLock p) (dispatch i p st0))"
proof (cases pos)
  case None
  then show ?thesis
    using scheduler_eq [OF quietD(2,3) [OF assms], of i]
    by (intro bexI [of _ "intr_on i st"])
      (auto simp: scheduler_next_def next_choice_def next_pos_def split: option.splits)
next
  case (Some k)
  then show ?thesis
    using rr_scan_eq [OF quietD(4,3) [OF assms], of i k "NPROC - k"]
    by (intro bexI [of _ st])
      (auto simp: scheduler_next_def next_choice_def next_pos_def dispatch_acq split: option.splits)
qed

lemma schedule_ok:
  assumes inv: "sched_inv (kmach s)" and idle: "myproc i (kmach s) = None"
  shows "\<exists>st. run_event i (Schedule again) s =
      Ok (s\<lparr>kmach := st, kpos := (kpos s)(i :=
        next_pos (kpos s i) (sched_mode (kmach s)) (next_choice (kpos s i) (sched_mode (kmach s)) (procs (kmach s))))\<rparr>) \<and>
    sched_inv st \<and>
    (again = None \<longrightarrow> myproc i st = next_choice (kpos s i) (sched_mode (kmach s)) (procs (kmach s)))"
proof -
  let ?m = "kmach s"
  have q: "quiet ?m"
    using inv by (simp add: sched_inv_def)
  obtain st0 where st0: "st0 \<in> {?m, intr_on i ?m}"
    and e: "case next_choice (kpos s i) (sched_mode ?m) (procs ?m) of
     None \<Rightarrow> \<exists>b. scheduler_next i (kpos s i) ?m = Ok (None, None, settled b i st0)
   | Some p \<Rightarrow> scheduler_next i (kpos s i) ?m =
       Ok (Some p, next_pos (kpos s i) (sched_mode ?m) (Some p), acq i (PLock p) (dispatch i p st0))"
    using scheduler_next_eq [OF q] by blast
  have inv0: "sched_inv st0" "myproc i st0 = None" "procs st0 = procs ?m"
    using st0 inv idle by auto
  show ?thesis
  proof (cases "next_choice (kpos s i) (sched_mode ?m) (procs ?m)")
    case None
    then show ?thesis
      using e inv0 by (auto simp: next_pos_def myproc_def)
  next
    case (Some p)
    note p = next_choice_Some [OF Some]
    obtain lk st' where st': "resume i p (acq i (PLock p) (dispatch i p st0)) = Ok (lk, st')" "sched_inv st'"
        "myproc i st' = Some p" "\<forall>l j. lk = Some l \<longrightarrow> l \<noteq> PLock j"
      using dispatched_ok [OF inv0(1,2) p(1)] p(2) inv0(3) by auto
    obtain st where st: "sleep_return i p lk again st' = Ok st" "sched_inv st"
      using sleep_return_ok [OF st'(2-4)] by blast
    moreover have "myproc i st = Some p" if "again = None"
    proof (cases lk)
      case None
      then show ?thesis
        using st st' by (simp add: sleep_return_def)
    next
      case (Some l)
      have "quiet st'"
        using st'(2) by (simp add: sched_inv_def)
      then show ?thesis
        using st(1) st'(3) that Some by (auto simp: sleep_return_def acquire_acq release_acq quietD myproc_def)
    qed
    ultimately show ?thesis
      using Some e st'(1) by (intro exI [of _ st]) simp
  qed
qed

section \<open>Priorities, policies, exit\<close>

lemma yield_then_0_returned: "rbind (yield_then_0 i st) (returned i p) = rbind (yield i st) (switched i p)"
  by (cases "yield i st") (auto simp: yield_then_0_def returned_def switched_def split: sum.splits)

lemma setpriority_from_eq:
  "cpu_ok i st \<Longrightarrow> plocks_free st \<Longrightarrow>
   case first_slot (\<lambda>j. p_pid (procs st j) = pid \<and> p_state (procs st j) \<noteq> UNUSED) k n of
     None \<Rightarrow> \<exists>b. setpriority_from i pid prio k n st = Ok (Inl (- 1, settled b i st))
   | Some q \<Rightarrow> setpriority_from i pid prio k n st =
       (let st = settled True i (upd_proc q (\<lambda>p. p\<lparr>p_priority := prio\<rparr>) st)
        in if sched_mode st = SCHED_PRIORITY then yield_then_0 i st else Ok (Inl (0, st)))"
proof (induction n arbitrary: k st)
  case 0
  show ?case
    by (auto intro: exI [of _ False])
next
  case (Suc n)
  show ?case
  proof (cases "p_pid (procs st k) = pid \<and> p_state (procs st k) \<noteq> UNUSED")
    case True
    then show ?thesis
      using Suc.prems by (simp add: lock_rules Let_def)
  next
    case False
    then have "setpriority_from i pid prio k (Suc n) st = setpriority_from i pid prio (Suc k) n (settled True i st)"
      using Suc.prems by (auto simp: lock_rules)
    then show ?thesis
      using Suc.IH [of "settled True i st" "Suc k"] Suc.prems False
      by (auto simp: lock_rules split: option.splits)
  qed
qed

lemma setpriority_ok:
  assumes inv: "sched_inv st" and p: "myproc i st = Some p"
  shows "\<exists>st'. rbind (setpriority i pid prio st) (returned i p) = Ok st' \<and> sched_inv st'"
proof -
  have q: "quiet st"
    using inv by (simp add: sched_inv_def)
  have w: "woke (procs st) (procs (upd_proc r (\<lambda>p. p\<lparr>p_priority := prio\<rparr>) st))" for r
    by (simp add: woke_def)
  have inv': "sched_inv (settled True i (upd_proc r (\<lambda>p. p\<lparr>p_priority := prio\<rparr>) st))" for r
    using sched_inv_woke [OF inv w, of True i r] by (simp add: upd_proc_def)
  show ?thesis
    using setpriority_from_eq [where i = i and pid = pid and k = 0 and n = NPROC and prio = prio,
        OF quietD(4,3) [OF q]] inv inv' p
      yield_ok [OF inv', where i = i and p = p]
    unfolding setpriority_def
    by (cases "first_slot (\<lambda>j. p_pid (procs st j) = pid \<and> p_state (procs st j) \<noteq> UNUSED) 0 NPROC")
      (auto simp: Let_def yield_then_0_returned returned_def)
qed

lemma metrics_acq:
  "(acq i l st)\<lparr>total_turnaround_time := a, total_waiting_time_sum := b, finished_processes := c\<rparr> =
   acq i l (st\<lparr>total_turnaround_time := a, total_waiting_time_sum := b, finished_processes := c\<rparr>)"
  by (simp add: acq_def)

lemma setscheduler_ok:
  assumes inv: "sched_inv st" and p: "myproc i st = Some p"
  shows "\<exists>st'. rbind (setscheduler i policy st) (returned i p) = Ok st' \<and> sched_inv st'"
proof (cases "policy <s SCHED_ROUND_ROBIN \<or> SCHED_PRIORITY <s policy")
  case True
  then show ?thesis
    using inv by (auto simp: setscheduler_def returned_def)
next
  case False
  let ?st = "st\<lparr>total_turnaround_time := 0, total_waiting_time_sum := 0, finished_processes := 0\<rparr>"
  have q: "quiet st" and inv': "sched_inv ?st"
    using inv sched_inv_fields(3) by (auto simp: sched_inv_def)
  then have ok: "cpu_ok i ?st" "lock_free (lks ?st MetricsLock)"
    using quietD(1,4) by (auto simp: sched_inv_def)
  let ?s = "(settled True i ?st)\<lparr>sched_mode := policy\<rparr>"
  have "setscheduler i policy st = yield_then_0 i ?s"
    using False quietD(1) [OF q] release_acq [OF ok]
    by (simp add: setscheduler_def acquire_acq metrics_acq)
  moreover have "sched_inv ?s"
    using inv' by simp
  moreover have "myproc i ?s = Some p"
    using p by (simp add: myproc_def)
  ultimately show ?thesis
    using yield_ok [of ?s i p] by (simp only: yield_then_0_returned)
qed

lemma reparent_inside:
  assumes "quiet st"
  shows "\<exists>f. reparent_from i p k n (acq i WaitLock st) = Ok (acq i WaitLock (st\<lparr>procs := f\<rparr>)) \<and>
    woke (procs st) f \<and>
    (\<forall>j. p_parent (f j) =
       (if k \<le> j \<and> j < k + n \<and> p_parent (procs st j) = Some p then initproc st else p_parent (procs st j)))"
  using assms
proof (induction n arbitrary: k st)
  case 0
  show ?case
    by (intro exI [of _ "procs st"]) auto
next
  case (Suc n)
  show ?case
  proof (cases "p_parent (procs st k) = Some p")
    case True
    let ?a = "upd_proc k (\<lambda>q. q\<lparr>p_parent := initproc st\<rparr>) st"
    let ?f = "on_range 0 NPROC (wake_if (myproc i st) (map_option ChProc (initproc st)) (ticks st)) (procs ?a)"
    let ?b = "?a\<lparr>procs := ?f\<rparr>"
    have par: "p_parent (?f j) = (if j = k then initproc st else p_parent (procs st j))" for j
      by (simp add: on_range_def wake_if_def wake_def)
    have w: "woke (procs st) ?f"
      by (rule woke_trans [OF _ woke_wake]) (simp add: woke_def)
    have "wakeup i (map_option ChProc (initproc st)) (acq i WaitLock ?a) = Ok (acq i WaitLock ?b)"
      using wakeup_inside [of ?a WaitLock i] Suc.prems by simp
    then have step: "reparent_from i p k (Suc n) (acq i WaitLock st) = reparent_from i p (Suc k) n (acq i WaitLock ?b)"
      using True by (simp add: upd_proc_acq)
    obtain g where g: "reparent_from i p (Suc k) n (acq i WaitLock ?b) = Ok (acq i WaitLock (?b\<lparr>procs := g\<rparr>))"
        "woke ?f g" "\<forall>j. p_parent (g j) = (if Suc k \<le> j \<and> j < Suc k + n \<and> p_parent (?f j) = Some p
           then initproc st else p_parent (?f j))"
      using Suc.IH [of ?b "Suc k"] Suc.prems by auto
    have "p_parent (g j) = (if k \<le> j \<and> j < k + Suc n \<and> p_parent (procs st j) = Some p
        then initproc st else p_parent (procs st j))" for j
      using g(3) True par [of j] by (cases "j = k") auto
    then show ?thesis
      unfolding step using g(1) woke_trans [OF w g(2)] by (auto simp: upd_proc_def)
  next
    case False
    then have step: "reparent_from i p k (Suc n) (acq i WaitLock st) = reparent_from i p (Suc k) n (acq i WaitLock st)"
      by simp
    have "(Suc k \<le> j \<and> j < Suc k + n \<and> p_parent (procs st j) = Some p) \<longleftrightarrow>
        (k \<le> j \<and> j < k + Suc n \<and> p_parent (procs st j) = Some p)" for j
      using False by (cases "j = k") auto
    then show ?thesis
      unfolding step using Suc.IH [OF Suc.prems, of "Suc k"] by simp
  qed
qed

lemma exit_ok:
  assumes inv: "sched_inv st" and p: "myproc i st = Some p"
  shows "\<exists>st'. rbind (exit_final i p status st) (undispatch i p) = Ok st' \<and> sched_inv st'"
proof -
  have q: "quiet st"
    using inv by (simp add: sched_inv_def)
  obtain f where f: "reparent i p (acq i WaitLock st) = Ok (acq i WaitLock (st\<lparr>procs := f\<rparr>))" "woke (procs st) f"
    using reparent_inside [OF q, of i p 0 NPROC] by (auto simp: reparent_def)
  let ?a = "st\<lparr>procs := f\<rparr>"
  let ?g = "on_range 0 NPROC (wake_if (myproc i st) (map_option ChProc (p_parent (f p))) (ticks st)) f"
  let ?b = "st\<lparr>procs := ?g\<rparr>"
  let ?z = "\<lambda>q. q\<lparr>p_xstate := status, p_state := ZOMBIE\<rparr>"
  have w: "wakeup i (map_option ChProc (p_parent (f p))) (acq i WaitLock ?a) = Ok (acq i WaitLock ?b)"
    using wakeup_inside [of ?a WaitLock i] q by simp
  have inv': "sched_inv ?b"
    using sched_inv_woke [OF inv woke_trans [OF f(2) woke_wake], of False i] by simp
  have "exit_final i p status st = sched i AtExit (acq i (PLock p) (upd_proc p ?z ?b))"
    using q f(1) w by (simp add: exit_final_def lock_rules quietD)
  then show ?thesis
    using leave [OF inv', of i p ?z AtExit] p by simp
qed

lemma exit_start_ok:
  assumes inv: "sched_inv st" and "initproc st \<noteq> Some p"
  shows "\<exists>st'. exit_start i p st = Ok st' \<and> sched_inv st'"
proof -
  have q: "quiet st"
    using inv by (simp add: sched_inv_def)
  let ?st = "st\<lparr>total_turnaround_time := total_turnaround_time st + ucast (ticks st - p_creation_time (procs st p)),
      total_waiting_time_sum := total_waiting_time_sum st + ucast (p_total_waiting_time (procs st p)),
      finished_processes := finished_processes st + 1\<rparr>"
  have inv': "sched_inv ?st"
    using inv sched_inv_fields(3) by blast
  then have "quiet ?st"
    by (simp only: sched_inv_def)
  then have ok: "cpu_ok i ?st" "lock_free (lks ?st MetricsLock)"
    by (rule quietD)+
  have "total_turnaround_time (acq i MetricsLock st) = total_turnaround_time st"
    "total_waiting_time_sum (acq i MetricsLock st) = total_waiting_time_sum st"
    "finished_processes (acq i MetricsLock st) = finished_processes st"
    by (simp_all add: acq_def)
  then show ?thesis
    using assms(2) inv' quietD(1) [OF q] release_acq [OF ok]
    by (simp add: exit_start_def exit_metrics_def acquire_acq metrics_acq)
qed

section \<open>The system\<close>

inductive kstep :: "ksys \<Rightarrow> ksys \<Rightarrow> bool" where
  event: "enabled i e s \<Longrightarrow> run_event i e s = Ok s' \<Longrightarrow> kstep s s'"

inductive_cases kstepE: "kstep s s'"

definition init_exits :: "nat \<Rightarrow> event \<Rightarrow> ksys \<Rightarrow> bool" where
  "init_exits i e s \<longleftrightarrow> e = ExitStart \<and> initproc (kmach s) = myproc i (kmach s)"

lemma lift_mach_ok:
  "\<exists>st. f (kmach s) = Ok st \<and> sched_inv st \<Longrightarrow> \<exists>s'. lift_mach f s = Ok s' \<and> sched_inv (kmach s') \<and> kpos s' = kpos s"
  by (auto simp: lift_mach_def)

lemma by_current_ok:
  assumes "myproc i (kmach s) = Some p" and "\<exists>st. f p (kmach s) = Ok st \<and> sched_inv st"
  shows "\<exists>s'. by_current i f s = Ok s' \<and> sched_inv (kmach s') \<and> kpos s' = kpos s"
  using lift_mach_ok [where f = "f p" and s = s] assms by (simp add: by_current_def)

lemma run_event_ok:
  assumes inv: "sched_inv (kmach s)" and en: "enabled i e s" and "\<not> init_exits i e s"
  shows "\<exists>s'. run_event i e s = Ok s' \<and> sched_inv (kmach s') \<and> (e \<notin> range Schedule \<longrightarrow> kpos s' = kpos s)"
proof (cases e)
  case (Schedule again)
  then show ?thesis
    using schedule_ok [OF inv, of i again] en by auto
next
  case (Wakeup ch)
  then show ?thesis
    using lift_mach_ok [of "wakeup i (Some ch)" s] wakeup_ok [OF inv, of i "Some ch"] sched_inv_woke [OF inv] by auto
next
  case (Kill pid)
  then show ?thesis
    using lift_mach_ok [where f = "\<lambda>st. rbind (kill i pid st) (\<lambda>(r, st). Ok st)" and s = s] kill_ok [OF inv, of i pid] by auto
next
  case Tick
  then show ?thesis
    using lift_mach_ok [where f = "clockintr i" and s = s] clock_ok [OF inv, of i] by auto
next
  case ExitStart
  then obtain p where p: "myproc i (kmach s) = Some p" "initproc (kmach s) \<noteq> Some p"
    using en assms(3) by (auto simp: init_exits_def)
  then show ?thesis
    using ExitStart by_current_ok [OF p(1), of "exit_start i"] exit_start_ok [OF inv p(2), of i] by auto
next
  case Yield
  then show ?thesis
    using en by_current_ok [where i = i and s = s and f = "\<lambda>p st. rbind (yield i st) (switched i p)"] yield_ok [OF inv, of i]
    by auto
next
  case (Sleep ch lk)
  then obtain p where p: "myproc i (kmach s) = Some p" "\<forall>k. lk \<noteq> PLock k"
    using en by auto
  then show ?thesis
    using Sleep sleep_ok [OF inv p, of ch]
      by_current_ok [OF p(1), of "\<lambda>p st. rbind (acquire i lk st) (\<lambda>st. rbind (sleep i ch lk st) (undispatch i p))"]
    by auto
next
  case (SetPriority pid prio)
  then show ?thesis
    using en setpriority_ok [OF inv, of i]
      by_current_ok [where i = i and s = s and f = "\<lambda>p st. rbind (setpriority i pid prio st) (returned i p)"]
    by auto
next
  case (SetScheduler policy)
  then show ?thesis
    using en setscheduler_ok [OF inv, of i]
      by_current_ok [where i = i and s = s and f = "\<lambda>p st. rbind (setscheduler i policy st) (returned i p)"]
    by auto
next
  case (ExitFinal status)
  then obtain p where p: "myproc i (kmach s) = Some p"
    using en by auto
  then show ?thesis
    using ExitFinal exit_ok [OF inv p, of status]
      by_current_ok [OF p, of "\<lambda>p st. rbind (exit_final i p status st) (undispatch i p)"]
    by auto
qed

lemma init_exits_panics:
  assumes "enabled i e s" and "init_exits i e s"
  shows "run_event i e s = Panic ''init exiting''"
  using assms by (auto simp: init_exits_def by_current_def lift_mach_def exit_start_def)

lemma sched_inv_reachable: "kstep\<^sup>*\<^sup>* s s' \<Longrightarrow> sched_inv (kmach s) \<Longrightarrow> sched_inv (kmach s')"
proof (induction rule: rtranclp_induct)
  case (step s' s'')
  then obtain i e where e: "enabled i e s'" "run_event i e s' = Ok s''"
    by (auto elim: kstepE)
  then have "\<not> init_exits i e s'"
    using init_exits_panics by force
  then show ?case
    using run_event_ok [OF step.IH [OF step.prems] e(1)] e(2) by auto
qed

text \<open>
  Claim C5: in every sequence of scheduling, yielding, sleeping, exiting, waking, killing, clock
  interrupts and changes of priority or policy, on any number of processors, a process is running
  exactly when it is the current process of a processor, and of one only; between events every lock
  is free and every processor's nesting depth is zero; and no event panics, spins or gets stuck, so
  every check of \<^verbatim>\<open>sched()\<close>, \<^verbatim>\<open>acquire()\<close>, \<^verbatim>\<open>release()\<close> and \<^verbatim>\<open>pop_off()\<close> passes, with one exception: when
  the first process calls \<^verbatim>\<open>exit()\<close> the kernel panics with the message for that.
\<close>

theorem scheduling_never_panics:
  assumes "sched_inv (kmach s)" and "kstep\<^sup>*\<^sup>* s s'"
  shows "(\<forall>p. p_state (procs (kmach s') p) = RUNNING \<longleftrightarrow> (\<exists>!i. myproc i (kmach s') = Some p)) \<and>
    (\<forall>l. lock_free (lks (kmach s') l)) \<and> (\<forall>i. noff (cpus (kmach s') i) = 0) \<and>
    (\<forall>i e. enabled i e s' \<longrightarrow>
       (if e = ExitStart \<and> initproc (kmach s') = myproc i (kmach s')
        then run_event i e s' = Panic ''init exiting''
        else \<exists>s''. run_event i e s' = Ok s''))"
proof -
  let ?m = "kmach s'"
  have inv: "sched_inv ?m"
    using sched_inv_reachable [OF assms(2,1)] .
  then have p: "proc_inv (cur ?m) (procs ?m)" and q: "quiet ?m"
    by (simp_all add: sched_inv_def)
  have "p_state (procs ?m p) = RUNNING \<longleftrightarrow> (\<exists>!i. myproc i ?m = Some p)" for p
    using proc_invD(2,3,4) [OF p] unfolding cur_def myproc_def by blast
  moreover have "if e = ExitStart \<and> initproc ?m = myproc i ?m then run_event i e s' = Panic ''init exiting''
      else \<exists>s''. run_event i e s' = Ok s''" if "enabled i e s'" for i e
    using run_event_ok [OF inv that] init_exits_panics [OF that] unfolding init_exits_def by auto
  ultimately show ?thesis
    using q unfolding quiet_def by blast
qed

lemma demo_machine_inv: "sched_inv (demo_machine mode)"
proof -
  have "proc_inv (\<lambda>i. None) demo_procs"
    by (rule proc_invI) (auto simp: demo_procs_def demo_proc_def split: if_splits)
  moreover have "cur (demo_machine mode) = (\<lambda>i. None)"
    by (simp add: fun_eq_iff cur_def demo_machine_def idle_cpu_def)
  ultimately show ?thesis
    by (simp add: sched_inv_def quiet_def demo_machine_def idle_cpu_def lock_free_def)
qed

definition demo_sys :: "c_int \<Rightarrow> ksys" where
  "demo_sys mode = \<lparr>kmach = (demo_machine mode)\<lparr>initproc := Some 1\<rparr>, kpos = (\<lambda>i. None), kexiting = {}\<rparr>"

lemma demo_sys_inv: "sched_inv (kmach (demo_sys mode))" "myproc i (kmach (demo_sys mode)) = None"
proof -
  have "sched_inv (st\<lparr>initproc := x\<rparr>) = sched_inv st" for st :: machine and x
    by (simp add: sched_inv_def quiet_def cur_def [abs_def])
  then show "sched_inv (kmach (demo_sys mode))"
    using demo_machine_inv by (simp add: demo_sys_def)
  show "myproc i (kmach (demo_sys mode)) = None"
    by (simp add: demo_sys_def myproc_def demo_machine_def idle_cpu_def)
qed

lemmas demo_eval = by_current_def lift_mach_def scheduler_next_def demo_sys_def demo_machine_def demo_procs_def
  demo_proc_def scheduler_def idle_cpu_def NPROC_def eval_nat_numeral acquire_def release_def push_off_def
  pop_off_def holding_def Let_def upd_cpu_def upd_proc_def dispatch_def resume_def sleep_return_def
  push_off_cpu_def pop_off_cpu_def yield_def switched_def sched_def undispatch_def myproc_def
  SCHED_ROUND_ROBIN_def SCHED_FCFS_def

lemma demo_schedule:
  "\<exists>s. run_event 0 (Schedule None) (demo_sys SCHED_ROUND_ROBIN) = Ok s \<and> myproc 0 (kmach s) = Some 1 \<and>
     initproc (kmach s) = Some 1 \<and> kexiting s = {}"
  by (simp add: demo_eval)

theorem scheduling_never_panics_witness:
  "\<exists>s. run_event 0 (Schedule None) (demo_sys SCHED_ROUND_ROBIN) = Ok s \<and> myproc 0 (kmach s) = Some 1 \<and>
     (\<exists>s'. run_event 0 Yield s = Ok s') \<and> run_event 0 ExitStart s = Panic ''init exiting''"
proof -
  let ?s = "demo_sys SCHED_ROUND_ROBIN"
  obtain s where s: "run_event 0 (Schedule None) ?s = Ok s" "myproc 0 (kmach s) = Some 1"
      "initproc (kmach s) = Some 1" "kexiting s = {}"
    using demo_schedule by blast
  have "kstep ?s s"
    using s(1) demo_sys_inv(2) by (intro kstep.event [of 0 "Schedule None"]) simp_all
  then have *: "\<forall>i e. enabled i e s \<longrightarrow> (if e = ExitStart \<and> initproc (kmach s) = myproc i (kmach s)
      then run_event i e s = Panic ''init exiting'' else \<exists>s'. run_event i e s = Ok s')"
    using scheduling_never_panics [OF demo_sys_inv(1) r_into_rtranclp] by blast
  show ?thesis
    using s * [rule_format, of 0 Yield] * [rule_format, of 0 ExitStart] by (auto simp del: run_event.simps)
qed

section \<open>Fairness of round robin\<close>

text \<open>The slot at which the search of a processor starts, and the slot it runs.\<close>

definition slot_of :: "nat option \<Rightarrow> nat" where
  "slot_of pos = (case pos of None \<Rightarrow> 0 | Some k \<Rightarrow> k)"

definition dispatched :: "nat \<Rightarrow> ksys \<Rightarrow> nat option" where
  "dispatched i s = (case scheduler_next i (kpos s i) (kmach s) of Ok (r, _) \<Rightarrow> r | _ \<Rightarrow> None)"

lemma rr_search:
  assumes "sched_inv (kmach s)" and "sched_mode (kmach s) = SCHED_ROUND_ROBIN"
  shows "dispatched i s = first_slot (\<lambda>j. p_state (procs (kmach s) j) = RUNNABLE)
      (slot_of (kpos s i)) (NPROC - slot_of (kpos s i))"
    and "next_choice (kpos s i) (sched_mode (kmach s)) (procs (kmach s)) = dispatched i s"
proof -
  have q: "quiet (kmach s)"
    using assms(1) by (simp add: sched_inv_def)
  show n: "next_choice (kpos s i) (sched_mode (kmach s)) (procs (kmach s)) = dispatched i s"
    using scheduler_next_eq [OF q, of i "kpos s i"] by (auto simp: dispatched_def split: option.splits)
  show "dispatched i s = first_slot (\<lambda>j. p_state (procs (kmach s) j) = RUNNABLE)
      (slot_of (kpos s i)) (NPROC - slot_of (kpos s i))"
    using assms(2) by (simp add: n [symmetric] next_choice_def slot_of_def choice_def split: option.splits)
qed

text \<open>How many more searches it can take until the search reaches the slot \<open>q\<close>.\<close>

definition rr_distance :: "nat \<Rightarrow> nat \<Rightarrow> nat" where
  "rr_distance q k = (if k \<le> q then q - k else NPROC - k + q + 1)"

lemma rr_distance_le: "q < NPROC \<Longrightarrow> rr_distance q k \<le> NPROC"
  by (auto simp: rr_distance_def)

lemma rr_search_distance:
  assumes inv: "sched_inv (kmach s)" "sched_mode (kmach s) = SCHED_ROUND_ROBIN"
    and q: "p_state (procs (kmach s) q) = RUNNABLE" "q < NPROC"
  shows "dispatched i s = None \<Longrightarrow> rr_distance q 0 < rr_distance q (slot_of (kpos s i))"
    and "dispatched i s = Some p \<Longrightarrow> rr_distance q p \<le> rr_distance q (slot_of (kpos s i))"
    and "dispatched i s = Some p \<Longrightarrow> p \<noteq> q \<Longrightarrow> rr_distance q (Suc p) < rr_distance q p"
proof -
  let ?P = "\<lambda>j. p_state (procs (kmach s) j) = RUNNABLE" and ?k = "slot_of (kpos s i)"
  note r = rr_search(1) [OF inv, of i]
  show "rr_distance q 0 < rr_distance q ?k" if "dispatched i s = None"
  proof -
    have "\<forall>j. ?k \<le> j \<and> j < ?k + (NPROC - ?k) \<longrightarrow> \<not> ?P j"
      using first_slot_None [of ?P ?k "NPROC - ?k"] r that by metis
    then have "\<not> ?k \<le> q"
      using q by auto
    then show ?thesis
      by (simp add: rr_distance_def)
  qed
  have p: "?k \<le> p" "p < NPROC" "?k \<le> q \<longrightarrow> p \<le> q" if "dispatched i s = Some p"
  proof -
    have *: "?k \<le> p \<and> p < ?k + (NPROC - ?k) \<and> ?P p \<and> (\<forall>j. ?k \<le> j \<and> j < p \<longrightarrow> \<not> ?P j)"
      using first_slot_Some [of ?P ?k "NPROC - ?k" p] r that by metis
    then show "?k \<le> p" "p < NPROC"
      by auto
    show "?k \<le> q \<longrightarrow> p \<le> q"
      using * q(1) by (metis not_less)
  qed
  show "rr_distance q p \<le> rr_distance q ?k" if "dispatched i s = Some p"
    using p [OF that] q(2) by (auto simp: rr_distance_def)
  show "rr_distance q (Suc p) < rr_distance q p" if "dispatched i s = Some p" "p \<noteq> q"
    using p(2) [OF that(1)] that(2) by (auto simp: rr_distance_def)
qed

text \<open>
  \<open>waiting q i s ds n s'\<close>: events lead from \<open>s\<close> to \<open>s'\<close>, on any processors and in any order, during which
  the policy is round robin and the process \<open>q\<close> is runnable until the processor \<open>i\<close> runs it; in these
  events the processor \<open>i\<close> has searched the table \<open>n\<close> times and has run the slots \<open>ds\<close>.
\<close>

definition waits :: "nat \<Rightarrow> nat list \<Rightarrow> ksys \<Rightarrow> bool" where
  "waits q ds s \<longleftrightarrow>
     q \<notin> set ds \<and> p_state (procs (kmach s) q) = RUNNABLE \<and> sched_mode (kmach s) = SCHED_ROUND_ROBIN"

inductive waiting :: "nat \<Rightarrow> nat \<Rightarrow> ksys \<Rightarrow> nat list \<Rightarrow> nat \<Rightarrow> ksys \<Rightarrow> bool" for q i s where
  start: "waiting q i s [] 0 s"
| other: "waiting q i s ds n s1 \<Longrightarrow> waits q ds s1 \<Longrightarrow> enabled j e s1 \<Longrightarrow> run_event j e s1 = Ok s2 \<Longrightarrow>
    j \<noteq> i \<or> e \<notin> range Schedule \<Longrightarrow> waiting q i s ds n s2"
| search: "waiting q i s ds n s1 \<Longrightarrow> waits q ds s1 \<Longrightarrow> enabled i (Schedule again) s1 \<Longrightarrow>
    run_event i (Schedule again) s1 = Ok s2 \<Longrightarrow>
    waiting q i s (ds @ (case dispatched i s1 of None \<Rightarrow> [] | Some p \<Rightarrow> [p])) (Suc n) s2"

lemma event_inv:
  assumes "sched_inv (kmach s)" and "enabled j e s" and "run_event j e s = Ok s'"
  shows "sched_inv (kmach s')" and "j \<noteq> i \<or> e \<notin> range Schedule \<Longrightarrow> kpos s' i = kpos s i"
proof -
  have "\<not> init_exits j e s"
    using init_exits_panics [OF assms(2)] assms(3) by auto
  then show "sched_inv (kmach s')"
    using run_event_ok [OF assms(1,2)] assms(3) by force
  show "kpos s' i = kpos s i" if "j \<noteq> i \<or> e \<notin> range Schedule"
  proof (cases "e \<in> range Schedule")
    case True
    then obtain again where e: "e = Schedule again"
      by blast
    then have "myproc j (kmach s) = None" "j \<noteq> i"
      using that assms(2) by auto
    then show ?thesis
      using schedule_ok [OF assms(1), of j again] assms(3) e by (auto simp del: run_event.simps)
  next
    case False
    then show ?thesis
      using run_event_ok [OF assms(1,2)] \<open>\<not> init_exits j e s\<close> assms(3) by auto
  qed
qed

lemma search_pos:
  assumes "sched_inv (kmach s)" and "sched_mode (kmach s) = SCHED_ROUND_ROBIN" and "enabled i (Schedule again) s"
    and "run_event i (Schedule again) s = Ok s'"
  shows "kpos s' i = map_option Suc (dispatched i s)"
  using schedule_ok [OF assms(1), of i again] rr_search(2) [OF assms(1,2), of i] assms(2-4)
  by (auto simp: next_pos_def simp del: run_event.simps)

lemma waiting_bound:
  assumes "waiting q i s ds n s'" and "sched_inv (kmach s)" and q: "q < NPROC"
  shows "sched_inv (kmach s') \<and> distinct ds \<and> n \<le> Suc NPROC \<and>
    (q \<notin> set ds \<longrightarrow> n + rr_distance q (slot_of (kpos s' i)) \<le> NPROC \<and>
       (\<forall>d\<in>set ds. rr_distance q (slot_of (kpos s' i)) < rr_distance q d))"
  using assms(1,2)
proof induction
  case start
  then show ?case
    using rr_distance_le [OF q] by simp
next
  case (other ds n s1 j e s2)
  then have "sched_inv (kmach s1)"
    by simp
  then have "sched_inv (kmach s2)" "kpos s2 i = kpos s1 i"
    using event_inv other.hyps by blast+
  then show ?case
    using other.IH [OF other.prems] by simp
next
  case (search ds n s1 again s2)
  let ?k = "slot_of (kpos s1 i)"
  have w: "q \<notin> set ds" "p_state (procs (kmach s1) q) = RUNNABLE" "sched_mode (kmach s1) = SCHED_ROUND_ROBIN"
    using search.hyps(2) by (simp_all add: waits_def)
  then have inv: "sched_inv (kmach s1)" and d: "distinct ds" and b: "n + rr_distance q ?k \<le> NPROC"
    and far: "\<forall>d\<in>set ds. rr_distance q ?k < rr_distance q d"
    using search.IH [OF search.prems] by auto
  note dist = rr_search_distance [OF inv w(3,2) q, of i]
  note pos = search_pos [OF inv w(3) search.hyps(3,4)]
  have inv': "sched_inv (kmach s2)"
    using event_inv(1) [OF inv search.hyps(3,4)] .
  show ?case
  proof (cases "dispatched i s1")
    case None
    then show ?thesis
      using inv' d b far w(1) dist(1) pos by (fastforce simp: slot_of_def)
  next
    case (Some p)
    have "p \<notin> set ds"
      using far dist(2) [OF Some] by auto
    then show ?thesis
      using inv' d b far w(1) dist(2,3) [OF Some] pos Some by (fastforce simp: slot_of_def)
  qed
qed

text \<open>
  Claim C12: round robin starves no process. Take any run of the system, on any processors, during
  which the policy is round robin and the process \<open>q\<close> stays runnable until the processor \<open>i\<close> runs it. In
  this run the processor \<open>i\<close> runs no slot twice, and it searches the table at most \<open>NPROC + 1\<close> times: at
  the latest the last of these searches runs \<open>q\<close>.
\<close>

theorem round_robin_no_starvation:
  assumes "waiting q i s ds n s'" and "sched_inv (kmach s)" and "q < NPROC"
  shows "distinct ds \<and> n \<le> NPROC + 1 \<and> (n = NPROC + 1 \<longrightarrow> q \<in> set ds)"
  using waiting_bound [OF assms] by auto

lemma demo_run:
  "\<exists>s1 s2 s3. run_event 0 (Schedule None) (demo_sys SCHED_ROUND_ROBIN) = Ok s1 \<and>
     run_event 0 Yield s1 = Ok s2 \<and> run_event 0 (Schedule None) s2 = Ok s3 \<and>
     dispatched 0 (demo_sys SCHED_ROUND_ROBIN) = Some 1 \<and> dispatched 0 s2 = Some 3 \<and>
     waits 3 [] (demo_sys SCHED_ROUND_ROBIN) \<and> waits 3 [1] s1 \<and> waits 3 [1] s2 \<and>
     enabled 0 Yield s1 \<and> enabled 0 (Schedule None) s2"
  by (simp add: demo_eval dispatched_def waits_def)

theorem round_robin_no_starvation_witness:
  "\<exists>s. waiting 3 0 (demo_sys SCHED_ROUND_ROBIN) [1, 3] 2 s \<and> distinct [1, 3 :: nat] \<and> 2 \<le> NPROC + 1"
proof -
  let ?s = "demo_sys SCHED_ROUND_ROBIN"
  obtain s1 s2 s3 where r: "run_event 0 (Schedule None) ?s = Ok s1" "run_event 0 Yield s1 = Ok s2"
      "run_event 0 (Schedule None) s2 = Ok s3"
    and d: "dispatched 0 ?s = Some 1" "dispatched 0 s2 = Some 3"
    and w: "waits 3 [] ?s" "waits 3 [1] s1" "waits 3 [1] s2" "enabled 0 Yield s1" "enabled 0 (Schedule None) s2"
    using demo_run by blast
  have "enabled 0 (Schedule None) ?s"
    using demo_sys_inv(2) by simp
  from waiting.search [OF waiting.start w(1) this r(1)] have "waiting 3 0 ?s [1] (Suc 0) s1"
    using d(1) by simp
  from waiting.other [OF this w(2,4) r(2)] have "waiting 3 0 ?s [1] (Suc 0) s2"
    by blast
  from waiting.search [OF this w(3,5) r(3)] have "waiting 3 0 ?s [1, 3] 2 s3"
    using d(2) by (simp add: numeral_2_eq_2)
  then show ?thesis
    using round_robin_no_starvation [of 3 0 ?s "[1, 3]" 2 s3] demo_sys_inv(1) by (auto simp: NPROC_def)
qed

end
