(* ===== verification/Xv6_Kill.thy ===== *)
theory Xv6_Kill
  imports Xv6_Sched_System Xv6_Vm_Theorems
begin

text \<open>
  \<open>kill\<close>, \<open>wakeup\<close> and the allocation of slots as functions on the process table, and that
  \<open>allocproc\<close> succeeds when a slot and seven pages are free.
\<close>

section \<open>Waking\<close>

text \<open>
  Claim C19: \<^verbatim>\<open>wakeup(chan)\<close> makes exactly the processes that sleep on the channel runnable, except the
  caller, stamps them with the time, and changes nothing else of the table; it returns with every
  lock as it was.
\<close>

theorem wakeup_wakes_exactly:
  assumes "quiet st"
  shows "\<exists>st'. wakeup i ch st = Ok st' \<and> lks st' = lks st \<and> quiet st' \<and>
    (\<forall>j. procs st' j =
       (if j < NPROC \<and> myproc i st \<noteq> Some j \<and> p_state (procs st j) = SLEEPING \<and> p_chan (procs st j) = ch
        then (procs st j)\<lparr>p_state := RUNNABLE, p_last_runnable_time := ticks st\<rparr> else procs st j))"
proof -
  obtain b where b: "wakeup i ch st =
      Ok (settled b i (st\<lparr>procs := on_range 0 NPROC (wake_if (myproc i st) ch (ticks st)) (procs st)\<rparr>))"
    using wakeup_eq [OF quietD(4,3) [OF assms]] by blast
  then show ?thesis
    using assms by (auto simp: on_range_def wake_if_def wake_def)
qed

definition demo_sleepers :: machine where
  "demo_sleepers = (demo_machine 0)\<lparr>procs := (demo_procs(7 := (demo_proc SLEEPING 1 10 9)\<lparr>p_chan := Some ChTicks\<rparr>))\<rparr>"

theorem wakeup_wakes_exactly_witness:
  "\<exists>st'. wakeup 0 (Some ChTicks) demo_sleepers = Ok st' \<and> p_state (procs st' 7) = RUNNABLE \<and>
     procs st' 3 = demo_procs 3"
proof -
  have q: "quiet demo_sleepers"
    using demo_machine_inv [of 0] by (simp add: demo_sleepers_def sched_inv_def)
  have "myproc 0 demo_sleepers = None" "procs demo_sleepers 3 = demo_procs 3"
    "procs demo_sleepers 7 = (demo_proc SLEEPING 1 10 9)\<lparr>p_chan := Some ChTicks\<rparr>"
    by (simp_all add: demo_sleepers_def demo_machine_def myproc_def idle_cpu_def)
  then show ?thesis
    using wakeup_wakes_exactly [OF q, of 0 "Some ChTicks"]
    by (auto simp: NPROC_def demo_proc_def demo_procs_def)
qed

section \<open>Killing\<close>

text \<open>
  Claim C20: \<^verbatim>\<open>kill(pid)\<close> returns -1 and changes no process when no slot has the pid; otherwise it
  returns 0, marks the first slot with the pid as killed, wakes it if it sleeps, whatever it sleeps
  on, and changes no other process.
\<close>

theorem kill_marks_first:
  assumes "quiet st"
  shows "\<exists>r st'. kill i pid st = Ok (r, st') \<and> quiet st' \<and>
    (if \<exists>j < NPROC. p_pid (procs st j) = pid
     then r = 0 \<and> (\<exists>p < NPROC. p_pid (procs st p) = pid \<and> (\<forall>j < p. p_pid (procs st j) \<noteq> pid) \<and>
       p_killed (procs st' p) = 1 \<and>
       p_state (procs st' p) = (if p_state (procs st p) = SLEEPING then RUNNABLE else p_state (procs st p)) \<and>
       (\<forall>j. j \<noteq> p \<longrightarrow> procs st' j = procs st j))
     else r = - 1 \<and> procs st' = procs st)"
proof (cases "first_slot (\<lambda>j. p_pid (procs st j) = pid) 0 NPROC")
  case None
  then show ?thesis
    using kill_from_eq [OF quietD(4,3) [OF assms], of i pid 0 NPROC]
      first_slot_None [of "\<lambda>j. p_pid (procs st j) = pid" 0 NPROC] assms
    by (auto simp: kill_def)
next
  case (Some p)
  let ?st = "settled True i (st\<lparr>procs := (procs st)(p := kill_mark (ticks st) (procs st p))\<rparr>)"
  have k: "kill i pid st = Ok (0, ?st)"
    using kill_from_eq [OF quietD(4,3) [OF assms], of i pid 0 NPROC] Some by (simp add: kill_def)
  have p: "p < NPROC" "p_pid (procs st p) = pid" "\<forall>j < p. p_pid (procs st j) \<noteq> pid"
    using first_slot_Some [OF Some] by auto
  have "p_killed (procs ?st p) = 1"
    "p_state (procs ?st p) = (if p_state (procs st p) = SLEEPING then RUNNABLE else p_state (procs st p))"
    "\<forall>j. j \<noteq> p \<longrightarrow> procs ?st j = procs st j" "quiet ?st"
    using assms by (simp_all add: kill_mark_def wake_def)
  then show ?thesis
    using k p by auto
qed

theorem kill_marks_first_witness:
  "\<exists>r st'. kill 0 2 (demo_machine 0) = Ok (r, st') \<and> r = 0"
proof -
  have "quiet (demo_machine 0)"
    using demo_machine_inv [of 0] by (simp add: sched_inv_def)
  moreover have "\<exists>j < NPROC. p_pid (procs (demo_machine 0) j) = 2"
    by (intro exI [of _ 3]) (simp add: demo_machine_ok demo_procs_def demo_proc_def NPROC_def)
  ultimately show ?thesis
    using kill_marks_first [of "demo_machine 0" 0 2] by auto
qed

section \<open>Allocation with enough memory\<close>

lemma uvmcreate_Cons:
  assumes inv: "kmem_inv s (q # qs)"
  shows "\<exists>s'. uvmcreate s = (q, s') \<and> q \<noteq> 0 \<and> pt_ok 2 s' q qs \<and> (\<forall>va. leaf 2 (pmem s') q va = 0)"
proof -
  obtain s1 where s1: "kalloc s = (q, s1)" "kmem_inv s1 qs"
    using kalloc_Cons [OF inv] by blast
  have q: "pg_aligned q" "q \<noteq> 0" "q \<notin> set qs"
    using kmem_inv_aligned [OF inv, of q] inv by (auto simp: kmem_inv_def)
  let ?m = "memset (pmem s1) (unat q) 0 (ucast PGSIZE)"
  let ?s = "s1\<lparr>pmem := ?m\<rparr>"
  have "same_outside {q} (pmem s1) ?m"
    by (simp add: same_outside_def memset_eq in_page_def)
  then have inv': "kmem_inv ?s qs"
    using kmem_inv_same_outside [OF s1(2), of "{q}" ?s] q by simp
  have "entry ?m q j = 0" if "j < 512" for j
    using that by (simp add: entry_def, intro bit_word_eqI) (auto simp: bit_load64 memset_eq)
  then have z: "\<forall>j<512. entry ?m q j = 0"
    by blast
  have "uvmcreate s = (q, ?s)"
    using s1(1) q(2) by (simp add: uvmcreate_def)
  then show ?thesis
    using zero_table [OF z q(1,2), of 2] inv' q by (simp add: pt_ok_def)
qed

lemma proc_pagetable_enough:
  assumes inv: "kmem_inv s fs" and n: "6 \<le> length fs"
  shows "\<exists>pt s'. proc_pagetable trampoline tf s = Ok (pt, s') \<and> pt \<noteq> 0"
proof -
  obtain q qs where fs: "fs = q # qs" "5 \<le> length qs"
    using n by (cases fs) auto
  obtain s1 where s1: "uvmcreate s = (q, s1)" "q \<noteq> 0" "pt_ok 2 s1 q qs" "\<forall>va. leaf 2 (pmem s1) q va = 0"
    using uvmcreate_Cons inv fs(1) by blast
  have tr: "pg_aligned TRAMPOLINE" "TRAMPOLINE < MAXVA" "\<not> valid (leaf 2 (pmem s1) q TRAMPOLINE)"
    using s1(4) by (simp_all add: pg_aligned_def)
  have "2 < length qs"
    using fs(2) by simp
  then obtain s2 ns gs where s2: "mappages q TRAMPOLINE PGSIZE trampoline (PTE_R OR PTE_X) s1 = Ok (0, s2)"
      "pt_ext q s1 qs s2 ns gs" "length ns \<le> 2"
      "\<forall>va<MAXVA. leaf 2 (pmem s2) q va =
        (if PGROUNDDOWN va = TRAMPOLINE then PA2PTE trampoline OR (PTE_R OR PTE_X) OR PTE_V else leaf 2 (pmem s1) q va)"
    using mappages_enough [OF s1(3) tr] by metis
  have tf: "pg_aligned TRAPFRAME" "TRAPFRAME < MAXVA" "\<not> valid (leaf 2 (pmem s2) q TRAPFRAME)"
    using s1(4) s2(4) by (simp_all add: pg_aligned_def PGROUNDDOWN_def)
  have "pt_ok 2 s2 q gs" "2 < length gs"
    using s2(2,3) fs(2) by (auto simp: pt_ext_def)
  then obtain s3 where "mappages q TRAPFRAME PGSIZE tf (PTE_R OR PTE_W) s2 = Ok (0, s3)"
    using mappages_enough [OF _ tf] by metis
  then show ?thesis
    using s1(1,2) s2(1) by (simp add: proc_pagetable_def)
qed

text \<open>
  \<^verbatim>\<open>allocproc()\<close> needs at most seven pages: the trapframe, the root of the page table and at most two
  tables for each of its two mappings.
\<close>

lemma allocproc_enough:
  assumes q: "quiet st" and k: "first_slot (\<lambda>j. p_state (procs st j) = UNUSED) 0 NPROC = Some k"
    and mem: "kmem_inv (ph st) fs" "7 \<le> length fs"
  shows "\<exists>st'. allocproc i st = Ok (Some k, st')"
proof -
  have scan: "alloc_scan i 0 NPROC st = Ok (Some k, acq i (PLock k) st)"
    using alloc_scan_eq [OF quietD(4,3) [OF q], of i 0 NPROC] k by simp
  let ?b = "acq i (PLock k) (st\<lparr>nextpid := nextpid st + 1\<rparr>)"
  have np: "(acq i l m)\<lparr>nextpid := x\<rparr> = acq i l (m\<lparr>nextpid := x\<rparr>)" "nextpid (acq i l m) = nextpid m" for l m x
    by (simp_all add: acq_def)
  have ok: "cpu_ok i ?b" "lock_free (lks ?b PidLock)"
    using cpu_ok_acq(1) [of i "st\<lparr>nextpid := nextpid st + 1\<rparr>"] quietD(1,2,4) [OF q] by (simp_all add: cpu_ok_def)
  then have pid: "allocpid i (acq i (PLock k) st) = Ok (nextpid st, settled True i ?b)"
    using release_acq [OF ok] quietD(1) [OF q] by (simp add: allocpid_def acquire_acq Let_def np)
  obtain tf gs where fs: "fs = tf # gs" "6 \<le> length gs"
    using mem(2) by (cases fs) auto
  obtain s where s: "kalloc (ph st) = (tf, s)" "kmem_inv s gs" "tf \<noteq> 0"
    using kalloc_Cons [of "ph st" tf gs] mem(1) kmem_inv_aligned [OF mem(1), of tf] fs(1) by auto
  obtain pt s' where "proc_pagetable (sym_trampoline st) tf s = Ok (pt, s')" "pt \<noteq> 0"
    using proc_pagetable_enough [OF s(2) fs(2)] by blast
  moreover have "sym_trampoline (settled True i ?b) = sym_trampoline st"
    by (simp add: settled_def upd_cpu_def acq_def)
  ultimately show ?thesis
    using scan pid s(1,3) by (simp add: allocproc_def Let_def upd_proc_def)
qed

section \<open>Killing pid 0\<close>

lemma alloc_keeps_killed:
  assumes "allocproc i st = Ok (Some k, st')" and "quiet st"
  shows "first_slot (\<lambda>j. p_state (procs st j) = UNUSED) 0 NPROC = Some k \<and>
    p_killed (procs st' k) = p_killed (procs st k)"
proof -
  obtain k' where k': "first_slot (\<lambda>j. p_state (procs st j) = UNUSED) 0 NPROC = Some k'"
      "alloc_scan i 0 NPROC st = Ok (Some k', acq i (PLock k') st)"
    using alloc_scan_eq [OF quietD(4,3) [OF assms(2)], of i 0 NPROC] assms(1)
    by (auto simp: allocproc_def split: option.splits)
  have pid: "procs st2 = procs st1" if "allocpid i st1 = Ok (x, st2)" for x and st1 st2 :: "'a machine_scheme"
    using that by (auto simp: allocpid_def rbind_eq_Ok acquire_def release_def pop_off_def push_off_def Let_def
        split: if_splits)
  obtain x st1 where st1: "allocpid i (acq i (PLock k') st) = Ok (x, st1)"
    using assms(1) k'(2) by (auto simp: allocproc_def rbind_eq_Ok)
  obtain tf s where tf: "kalloc (ph st1) = (tf, s)"
    by fastforce
  have "tf \<noteq> 0"
    using assms(1) k'(2) st1 tf by (auto simp: allocproc_def rbind_eq_Ok Let_def)
  then obtain pt s' where pt: "proc_pagetable (sym_trampoline st1) tf s = Ok (pt, s')"
    using assms(1) k'(2) st1 tf by (auto simp: allocproc_def rbind_eq_Ok Let_def upd_proc_def)
  have "pt \<noteq> 0"
    using assms(1) k'(2) st1 tf pt \<open>tf \<noteq> 0\<close> by (auto simp: allocproc_def rbind_eq_Ok Let_def upd_proc_def)
  then have "k = k' \<and> p_killed (procs st' k) = p_killed (procs st1 k)"
    using assms(1) k'(2) st1 tf pt \<open>tf \<noteq> 0\<close> by (auto simp: allocproc_def Let_def upd_proc_def)
  then show ?thesis
    using k'(1) pid [OF st1] by auto
qed

text \<open>
  Claim C21: pid 0 is not refused. Unused slots have pid 0, so \<^verbatim>\<open>kill(0)\<close> marks an unused slot as killed
  and returns 0; allocating the slot does not clear the mark, so the process that \<^verbatim>\<open>allocproc()\<close>
  creates next is killed from the start.
\<close>

theorem kill_zero_kills_next_process:
  assumes "quiet st" and "\<forall>j < NPROC. p_pid (procs st j) = 0 \<longleftrightarrow> p_state (procs st j) = UNUSED"
    and "\<exists>j < NPROC. p_state (procs st j) = UNUSED"
  shows "\<exists>st1. kill i 0 st = Ok (0, st1) \<and>
    (\<forall>k st2. allocproc i st1 = Ok (Some k, st2) \<longrightarrow> p_killed (procs st2 k) = 1)"
proof -
  have ex: "\<exists>j < NPROC. p_pid (procs st j) = 0"
    using assms(2,3) by blast
  then obtain p where p: "first_slot (\<lambda>j. p_pid (procs st j) = 0) 0 NPROC = Some p"
    using first_slot_None [of "\<lambda>j. p_pid (procs st j) = 0" 0 NPROC] by fastforce
  then have fp: "p < NPROC" "p_pid (procs st p) = 0" "\<forall>j < p. p_pid (procs st j) \<noteq> 0"
    using first_slot_Some [OF p] by auto
  let ?st = "settled True i (st\<lparr>procs := (procs st)(p := kill_mark (ticks st) (procs st p))\<rparr>)"
  have k: "kill i 0 st = Ok (0, ?st)"
    using kill_from_eq [OF quietD(4,3) [OF assms(1)], of i 0 0 NPROC] p by (simp add: kill_def)
  have u: "p_state (procs st p) = UNUSED" "\<forall>j < p. p_state (procs st j) \<noteq> UNUSED"
    using fp assms(2) by auto
  have "p_killed (procs st2 k) = 1" if a: "allocproc i ?st = Ok (Some k, st2)" for k st2
  proof -
    have f: "first_slot (\<lambda>j. p_state (procs ?st j) = UNUSED) 0 NPROC = Some k"
      "p_killed (procs st2 k) = p_killed (procs ?st k)"
      using alloc_keeps_killed [OF a] assms(1) by auto
    have "p_state (procs ?st j) = p_state (procs st j)" for j
      using u(1) by (simp add: kill_mark_def)
    then have "p_state (procs st k) = UNUSED" "\<forall>j < k. p_state (procs st j) \<noteq> UNUSED"
      using first_slot_Some [OF f(1)] by auto
    then have "k = p"
      using u by (meson linorder_neqE_nat)
    then show ?thesis
      using f(2) u(1) by (simp add: kill_mark_def)
  qed
  then show ?thesis
    using k by blast
qed

lemma boot_memory:
  "\<exists>s fs. kinit (boot_phys\<lparr>kend := 0x80000000\<rparr>) = Ok s \<and> kmem_inv s fs \<and> 7 \<le> length fs"
proof -
  let ?b = "boot_phys\<lparr>kend := 0x80000000\<rparr>"
  obtain s fs where s: "kinit ?b = Ok s" "kmem_inv s fs" "set fs = {q. ram_page ?b q}"
    using kinit_ok [of ?b] by (auto simp: boot_phys_def)
  let ?Q = "{0x80000000, 0x80001000, 0x80002000, 0x80003000, 0x80004000, 0x80005000, 0x80006000} :: u64 set"
  have "?Q \<subseteq> set fs"
    unfolding s(3) by (simp add: ram_page_def pg_aligned_def boot_phys_def)
  then have "card ?Q \<le> length fs"
    using card_mono [of "set fs" ?Q] card_length [of fs] by (meson List.finite_set le_trans)
  then show ?thesis
    using s by auto
qed

theorem kill_zero_kills_next_process_witness:
  "\<exists>s st1 k st2. kinit (boot_phys\<lparr>kend := 0x80000000\<rparr>) = Ok s \<and> kill 0 0 ((demo_machine 0)\<lparr>ph := s\<rparr>) = Ok (0, st1) \<and>
     allocproc 0 st1 = Ok (Some k, st2) \<and> p_killed (procs st2 k) = 1"
proof -
  obtain s fs where s: "kinit (boot_phys\<lparr>kend := 0x80000000\<rparr>) = Ok s" "kmem_inv s fs" "7 \<le> length fs"
    using boot_memory by blast
  let ?st = "(demo_machine 0)\<lparr>ph := s\<rparr>"
  have q: "quiet ?st" and ps: "procs ?st = demo_procs"
    using demo_machine_inv [of 0] by (simp_all add: sched_inv_def quiet_def demo_machine_ok)
  have u: "\<forall>j < NPROC. p_pid (procs ?st j) = 0 \<longleftrightarrow> p_state (procs ?st j) = UNUSED"
    by (simp add: ps demo_procs_def demo_proc_def)
  have "\<exists>j < NPROC. p_state (procs ?st j) = UNUSED"
    by (intro exI [of _ 0]) (simp add: ps demo_procs_def demo_proc_def NPROC_def)
  then obtain st1 where st1: "kill 0 0 ?st = Ok (0, st1)"
      "\<forall>k st2. allocproc 0 st1 = Ok (Some k, st2) \<longrightarrow> p_killed (procs st2 k) = 1"
    using kill_zero_kills_next_process [OF q u, of 0] by blast
  let ?st1 = "settled True 0 (?st\<lparr>procs := demo_procs(0 := kill_mark (ticks ?st) (demo_procs 0))\<rparr>)"
  have "first_slot (\<lambda>j. p_pid (procs ?st j) = 0) 0 NPROC = Some 0"
    by (simp add: ps NPROC_def eval_nat_numeral demo_procs_def demo_proc_def)
  then have "st1 = ?st1"
    using kill_from_eq [OF quietD(4,3) [OF q], of 0 0 0 NPROC] st1(1) ps by (simp add: kill_def)
  moreover have "first_slot (\<lambda>j. p_state (procs ?st1 j) = UNUSED) 0 NPROC = Some 0"
    by (simp add: NPROC_def eval_nat_numeral demo_procs_def demo_proc_def kill_mark_def)
  ultimately have "quiet st1 \<and> ph st1 = s \<and> first_slot (\<lambda>j. p_state (procs st1 j) = UNUSED) 0 NPROC = Some 0"
    using q by simp
  then obtain st2 where "allocproc 0 st1 = Ok (Some 0, st2)"
    using allocproc_enough [of st1 0 fs 0] s(2,3) by auto
  then show ?thesis
    using s(1) st1 by blast
qed

end
