(* ===== verification/Xv6_Bio.thy ===== *)
theory Xv6_Bio
  imports Xv6_Mem Xv6_Spinlock
begin

text \<open>
  The buffer cache, \<^verbatim>\<open>kernel/bio.c\<close>. A \<^verbatim>\<open>struct buf *\<close> is the index of the buffer in \<^verbatim>\<open>bcache.buf\<close>; the
  doubly linked list through \<^verbatim>\<open>prev\<close> and \<^verbatim>\<open>next\<close> is the list of these indices from \<^verbatim>\<open>head.next\<close> to
  \<^verbatim>\<open>head.prev\<close>. A block is a function from byte offsets to bytes.

  The disk is an array of blocks; a request of the driver reads or writes one block. The writes
  are recorded in their order, so that a crash is a prefix of them.

  The functions run as one process, whose pid is \<open>curpid\<close>; \<^verbatim>\<open>acquiresleep\<close> on a buffer somebody has
  locked does not return (\<open>Stuck\<close>).
\<close>

section \<open>Code\<close>

type_synonym block = mem

definition BSIZE :: nat where "BSIZE = 1024"
definition MAXOPBLOCKS :: nat where "MAXOPBLOCKS = 10"
definition NBUF :: nat where "NBUF = MAXOPBLOCKS * 3"

record buf =
  b_valid :: bool
  b_dev :: u32
  b_blockno :: u32
  b_lock :: sleeplock
  b_refcnt :: u32
  b_data :: block

record bcache =
  bufs :: "nat \<Rightarrow> buf"
  lru :: "nat list"
  disk :: "u32 \<Rightarrow> block"
  dwrites :: "(u32 \<times> block) list"
  curpid :: c_int

definition upd_buf :: "nat \<Rightarrow> (buf \<Rightarrow> buf) \<Rightarrow> 'z bcache_scheme \<Rightarrow> 'z bcache_scheme" where
  "upd_buf k f st = st\<lparr>bufs := (bufs st)(k := f (bufs st k))\<rparr>"

text \<open>A request to the disk for the block of a buffer.\<close>

definition disk_read :: "nat \<Rightarrow> 'z bcache_scheme \<Rightarrow> 'z bcache_scheme" where
  "disk_read k st = upd_buf k (\<lambda>b. b\<lparr>b_data := disk st (b_blockno b)\<rparr>) st"

definition disk_write :: "nat \<Rightarrow> 'z bcache_scheme \<Rightarrow> 'z bcache_scheme" where
  "disk_write k st =
     (let n = b_blockno (bufs st k); d = b_data (bufs st k)
      in st\<lparr>disk := (disk st)(n := d), dwrites := dwrites st @ [(n, d)]\<rparr>)"

fun binit_from :: "nat \<Rightarrow> nat \<Rightarrow> 'z bcache_scheme \<Rightarrow> 'z bcache_scheme" where
  "binit_from k 0 st = st"
| "binit_from k (Suc n) st =
     binit_from (Suc k) n
       (upd_buf k (\<lambda>b. b\<lparr>b_lock := initsleeplock ''buffer''\<rparr>) st\<lparr>lru := k # lru st\<rparr>)"

definition binit :: "'z bcache_scheme \<Rightarrow> 'z bcache_scheme" where
  "binit st = binit_from 0 NBUF (st\<lparr>lru := []\<rparr>)"

definition lock_buf :: "nat \<Rightarrow> 'z bcache_scheme \<Rightarrow> (nat \<times> 'z bcache_scheme) res" where
  "lock_buf k st =
     (case acquiresleep (curpid st) (b_lock (bufs st k)) of None \<Rightarrow> Stuck
      | Some l \<Rightarrow> Ok (k, upd_buf k (\<lambda>b. b\<lparr>b_lock := l\<rparr>) st))"

definition bget :: "u32 \<Rightarrow> u32 \<Rightarrow> 'z bcache_scheme \<Rightarrow> (nat \<times> 'z bcache_scheme) res" where
  "bget dev blockno st =
     (case find (\<lambda>k. b_dev (bufs st k) = dev \<and> b_blockno (bufs st k) = blockno) (lru st) of
        Some k \<Rightarrow> lock_buf k (upd_buf k (\<lambda>b. b\<lparr>b_refcnt := b_refcnt b + 1\<rparr>) st)
      | None \<Rightarrow>
        (case find (\<lambda>k. b_refcnt (bufs st k) = 0) (rev (lru st)) of
           Some k \<Rightarrow> lock_buf k (upd_buf k (\<lambda>b. b\<lparr>b_dev := dev, b_blockno := blockno, b_valid := False, b_refcnt := 1\<rparr>) st)
         | None \<Rightarrow> Panic ''bget: no buffers''))"

definition bread :: "u32 \<Rightarrow> u32 \<Rightarrow> 'z bcache_scheme \<Rightarrow> (nat \<times> 'z bcache_scheme) res" where
  "bread dev blockno st =
     rbind (bget dev blockno st) (\<lambda>(k, st).
       if \<not> b_valid (bufs st k)
       then Ok (k, upd_buf k (\<lambda>b. b\<lparr>b_valid := True\<rparr>) (disk_read k st))
       else Ok (k, st))"

definition bwrite :: "nat \<Rightarrow> 'z bcache_scheme \<Rightarrow> 'z bcache_scheme res" where
  "bwrite k st =
     (if \<not> holdingsleep (curpid st) (b_lock (bufs st k)) then Panic ''bwrite''
      else Ok (disk_write k st))"

definition brelse :: "nat \<Rightarrow> 'z bcache_scheme \<Rightarrow> 'z bcache_scheme res" where
  "brelse k st =
     (if \<not> holdingsleep (curpid st) (b_lock (bufs st k)) then Panic ''brelse''
      else
        let st = upd_buf k (\<lambda>b. b\<lparr>b_lock := releasesleep (b_lock b)\<rparr>) st;
            st = upd_buf k (\<lambda>b. b\<lparr>b_refcnt := b_refcnt b - 1\<rparr>) st
        in Ok (if b_refcnt (bufs st k) = 0 then st\<lparr>lru := k # remove1 k (lru st)\<rparr> else st))"

definition bpin :: "nat \<Rightarrow> 'z bcache_scheme \<Rightarrow> 'z bcache_scheme" where
  "bpin k st = upd_buf k (\<lambda>b. b\<lparr>b_refcnt := b_refcnt b + 1\<rparr>) st"

definition bunpin :: "nat \<Rightarrow> 'z bcache_scheme \<Rightarrow> 'z bcache_scheme" where
  "bunpin k st = upd_buf k (\<lambda>b. b\<lparr>b_refcnt := b_refcnt b - 1\<rparr>) st"

section \<open>Abstraction\<close>

text \<open>
  The cache as its clients see it, for the one device \<open>ROOTDEV\<close>: \<open>r n\<close> references to the block \<open>n\<close>,
  a set \<open>L\<close> of blocks the process has locked, and the contents \<open>v n\<close> that a reader of the block
  finds. A block that is not referenced is the block on the disk: its buffer may be recycled.
\<close>

definition ROOTDEV :: u32 where "ROOTDEV = 1"

definition has_buf :: "'z bcache_scheme \<Rightarrow> nat \<Rightarrow> u32 \<Rightarrow> bool" where
  "has_buf st k n \<longleftrightarrow> k < NBUF \<and> b_dev (bufs st k) = ROOTDEV \<and> b_blockno (bufs st k) = n"

definition buf_ok :: "c_int \<Rightarrow> (u32 \<Rightarrow> nat) \<Rightarrow> u32 set \<Rightarrow> (u32 \<Rightarrow> block) \<Rightarrow> buf \<Rightarrow> bool" where
  "buf_ok pid r L v b \<longleftrightarrow>
     (if b_dev b = ROOTDEV then
        unat (b_refcnt b) = r (b_blockno b) \<and> (0 < r (b_blockno b) \<longrightarrow> b_valid b) \<and>
        (b_valid b \<longrightarrow> b_data b = v (b_blockno b)) \<and>
        (if b_blockno b \<in> L then holdingsleep pid (b_lock b) else slocked (b_lock b) = 0)
      else b_dev b = 0 \<and> b_refcnt b = 0 \<and> slocked (b_lock b) = 0)"

definition cache :: "'z bcache_scheme \<Rightarrow> (u32 \<Rightarrow> nat) \<Rightarrow> u32 set \<Rightarrow> (u32 \<Rightarrow> block) \<Rightarrow> bool" where
  "cache st r L v \<longleftrightarrow>
     distinct (lru st) \<and> set (lru st) = {..<NBUF} \<and>
     (\<forall>k < NBUF. buf_ok (curpid st) r L v (bufs st k)) \<and>
     (\<forall>j k n. has_buf st j n \<longrightarrow> has_buf st k n \<longrightarrow> j = k) \<and>
     (\<forall>n. 0 < r n \<longrightarrow> (\<exists>k. has_buf st k n)) \<and>
     (\<forall>n. r n = 0 \<longrightarrow> v n = disk st n \<and> n \<notin> L)"

lemma cacheD:
  assumes "cache st r L v"
  shows "\<And>k. k < NBUF \<Longrightarrow> buf_ok (curpid st) r L v (bufs st k)"
    "\<And>j k n. has_buf st j n \<Longrightarrow> has_buf st k n \<Longrightarrow> j = k"
    "\<And>n. 0 < r n \<Longrightarrow> \<exists>k. has_buf st k n"
    "\<And>n. r n = 0 \<Longrightarrow> v n = disk st n" "\<And>n. r n = 0 \<Longrightarrow> n \<notin> L"
  using assms unfolding cache_def by blast+

lemma cache_lru:
  "cache st r L v \<Longrightarrow> distinct l \<Longrightarrow> set l = {..<NBUF} \<Longrightarrow> cache (st\<lparr>lru := l\<rparr>) r L v"
  by (simp add: cache_def has_buf_def)

lemma buf_ok_other:
  assumes "b_dev b = ROOTDEV \<longrightarrow> b_blockno b \<noteq> n" and "\<And>m. m \<noteq> n \<Longrightarrow> m \<in> L' \<longleftrightarrow> m \<in> L"
  shows "buf_ok pid (r(n := x)) L' (v(n := d)) b = buf_ok pid r L v b"
  using assms by (auto simp: buf_ok_def)

lemma cache_upd:
  assumes c: "cache st r L v" and k: "k < NBUF" and b: "b_dev b = ROOTDEV" "b_blockno b = n"
    and uniq: "\<And>j. has_buf st j n \<Longrightarrow> j = k"
    and old: "has_buf st k n \<or> b_refcnt (bufs st k) = 0"
    and ok: "buf_ok (curpid st) (r(n := x)) L' (v(n := d)) b"
    and L': "\<And>m. m \<noteq> n \<Longrightarrow> m \<in> L' \<longleftrightarrow> m \<in> L"
    and clean: "x = 0 \<Longrightarrow> d = dk n \<and> n \<notin> L'" and dk: "\<And>m. m \<noteq> n \<Longrightarrow> dk m = disk st m"
  shows "cache (st\<lparr>bufs := (bufs st)(k := b), disk := dk, dwrites := w\<rparr>) (r(n := x)) L' (v(n := d))"
    (is "cache ?st _ _ _")
proof -
  have hb: "has_buf ?st j m \<longleftrightarrow> (if j = k then m = n else has_buf st j m)" for j m
    using k b by (auto simp: has_buf_def)
  have "buf_ok (curpid st) (r(n := x)) L' (v(n := d)) (bufs st j)" if "j < NBUF" "j \<noteq> k" for j
  proof (subst buf_ok_other [OF _ L'])
    show "b_dev (bufs st j) = ROOTDEV \<longrightarrow> b_blockno (bufs st j) \<noteq> n"
      using uniq [of j] that by (auto simp: has_buf_def)
  qed (use cacheD(1) [OF c] that in simp_all)
  then have 1: "\<forall>j < NBUF. buf_ok (curpid ?st) (r(n := x)) L' (v(n := d)) (bufs ?st j)"
    using ok by simp
  have 2: "j = j'" if "has_buf ?st j m" "has_buf ?st j' m" for j j' m
    using that uniq [of j] uniq [of j'] cacheD(2) [OF c, of j m j'] unfolding hb
    by metis
  have 3: "\<exists>j. has_buf ?st j m" if m: "0 < (r(n := x)) m" for m
  proof (cases "m = n")
    case False
    then obtain j where j: "has_buf st j m"
      using cacheD(3) [OF c, of m] m by auto
    have "j \<noteq> k"
    proof
      assume "j = k"
      then have "b_refcnt (bufs st k) = 0"
        using old j False by (auto simp: has_buf_def)
      then show False
        using cacheD(1) [OF c k] j m False \<open>j = k\<close> by (auto simp: buf_ok_def has_buf_def)
    qed
    then show ?thesis
      using j by (auto simp: hb)
  qed (auto simp: hb)
  have 4: "(v(n := d)) m = disk ?st m \<and> m \<notin> L'" if "(r(n := x)) m = 0" for m
    using that clean cacheD(4,5) [OF c, of m] L' [of m] dk [of m] by (auto split: if_splits)
  show ?thesis
    unfolding cache_def using 1 2 3 4 c by (simp add: cache_def del: fun_upd_apply)
qed

text \<open>Room for another block: fewer blocks are referenced than there are buffers.\<close>

lemma free_buf:
  assumes c: "cache st r L v" and "card {m. 0 < r m} < NBUF"
  shows "\<exists>k \<in> set (lru st). b_refcnt (bufs st k) = 0"
proof (rule ccontr)
  assume "\<not> ?thesis"
  then have all: "b_refcnt (bufs st k) \<noteq> 0" if "k < NBUF" for k
    using c that by (auto simp: cache_def)
  have hb: "has_buf st k (b_blockno (bufs st k))" "0 < r (b_blockno (bufs st k))" if "k < NBUF" for k
    using cacheD(1) [OF c that] all [OF that] that unat_eq_zero [of "b_refcnt (bufs st k)"]
    by (auto simp: buf_ok_def has_buf_def split: if_splits)
  have "inj_on (\<lambda>k. b_blockno (bufs st k)) {..<NBUF}"
  proof (rule inj_onI)
    fix j k
    assume "j \<in> {..<NBUF}" "k \<in> {..<NBUF}" "b_blockno (bufs st j) = b_blockno (bufs st k)"
    then show "j = k"
      using cacheD(2) [OF c hb(1) [of j], of k] hb(1) [of k] by simp
  qed
  moreover have "(\<lambda>k. b_blockno (bufs st k)) ` {..<NBUF} \<subseteq> {m. 0 < r m}"
    using hb(2) by auto
  ultimately have "NBUF \<le> card {m. 0 < r m}"
    using card_inj_on_le [of "\<lambda>k. b_blockno (bufs st k)" "{..<NBUF}" "{m. 0 < r m}"] by simp
  then show False
    using assms(2) by simp
qed

lemma acquire_unlocked:
  "slocked l = 0 \<Longrightarrow> acquiresleep pid l = Some (l\<lparr>slocked := 1, spid := pid\<rparr>)"
  by (simp add: acquiresleep_def)

lemma bget_cached:
  assumes c: "cache st r L v" and k: "has_buf st k n" and "n \<notin> L"
  shows "bget ROOTDEV n st = Ok (k, st\<lparr>bufs := (bufs st)(k := (bufs st k)\<lparr>b_refcnt := b_refcnt (bufs st k) + 1,
    b_lock := (b_lock (bufs st k))\<lparr>slocked := 1, spid := curpid st\<rparr>\<rparr>)\<rparr>)"
proof -
  let ?P = "\<lambda>k. b_dev (bufs st k) = ROOTDEV \<and> b_blockno (bufs st k) = n"
  have set: "set (lru st) = {..<NBUF}"
    using c by (simp add: cache_def)
  have "find ?P (lru st) \<noteq> None"
    using k set by (auto simp: find_None_iff has_buf_def)
  then obtain k' where f: "find ?P (lru st) = Some k'"
    by auto
  then have "has_buf st k' n"
    using set by (metis (mono_tags, lifting) find_Some_iff has_buf_def lessThan_iff nth_mem)
  then have "find ?P (lru st) = Some k"
    using f cacheD(2) [OF c _ k] by blast
  moreover have "slocked (b_lock (bufs st k)) = 0"
    using cacheD(1) [OF c, of k] k assms(3) by (auto simp: has_buf_def buf_ok_def)
  ultimately show ?thesis
    by (simp add: bget_def lock_buf_def upd_buf_def acquire_unlocked)
qed

lemma buf_touch:
  "b_valid b \<Longrightarrow> b_data b = d \<Longrightarrow>
   b\<lparr>b_refcnt := x, b_lock := l, b_data := d, b_valid := True\<rparr> = b\<lparr>b_refcnt := x, b_lock := l\<rparr>"
  by (cases b) simp

lemma bread_cached:
  assumes c: "cache st r L v" and k: "has_buf st k n" and "n \<notin> L" and "r n + 1 < 2 ^ 32"
  shows "\<exists>B. bread ROOTDEV n st = Ok (k, st\<lparr>bufs := B\<rparr>) \<and>
    cache (st\<lparr>bufs := B\<rparr>) (r(n := r n + 1)) (insert n L) v \<and> (\<forall>j. j \<noteq> k \<longrightarrow> B j = bufs st j) \<and>
    has_buf (st\<lparr>bufs := B\<rparr>) k n"
proof -
  let ?l = "(b_lock (bufs st k))\<lparr>slocked := 1, spid := curpid st\<rparr>"
  let ?b = "(bufs st k)\<lparr>b_refcnt := b_refcnt (bufs st k) + 1, b_lock := ?l,
      b_data := v n, b_valid := True\<rparr>"
  have kn: "k < NBUF" "b_dev (bufs st k) = ROOTDEV" "b_blockno (bufs st k) = n"
    using k by (auto simp: has_buf_def)
  have ok: "unat (b_refcnt (bufs st k)) = r n" "b_valid (bufs st k) \<longrightarrow> b_data (bufs st k) = v n"
      "0 < r n \<longrightarrow> b_valid (bufs st k)"
    using cacheD(1) [OF c kn(1)] kn by (auto simp: buf_ok_def)
  have "v n = disk st n" if "\<not> b_valid (bufs st k)"
    using ok(3) that cacheD(4) [OF c, of n] by simp
  then have "bread ROOTDEV n st = Ok (k, st\<lparr>bufs := (bufs st)(k := ?b)\<rparr>)"
    using bget_cached [OF assms(1-3)] kn ok(2)
    by (cases "b_valid (bufs st k)") (simp_all add: bread_def disk_read_def upd_buf_def buf_touch)
  moreover have "unat (b_refcnt (bufs st k) + 1) = r n + 1"
    using ok(1) assms(4) by (simp add: unat_word_ariths)
  then have "buf_ok (curpid st) (r(n := r n + 1)) (insert n L) (v(n := v n)) ?b"
    using kn by (simp add: buf_ok_def holdingsleep_def)
  from cache_upd [OF c kn(1) _ _ cacheD(2) [OF c _ k] _ this, of "disk st" "dwrites st"]
  have "cache (st\<lparr>bufs := (bufs st)(k := ?b), disk := disk st, dwrites := dwrites st\<rparr>)
      (r(n := r n + 1)) (insert n L) (v(n := v n))"
    using kn k by simp
  ultimately show ?thesis
    using kn by (intro exI [of _ "(bufs st)(k := ?b)"]) (simp add: has_buf_def)
qed

lemma bread_uncached:
  assumes c: "cache st r L v" and no: "\<And>k. \<not> has_buf st k n" and room: "card {m. 0 < r m} < NBUF"
  shows "\<exists>k B. bread ROOTDEV n st = Ok (k, st\<lparr>bufs := B\<rparr>) \<and>
    cache (st\<lparr>bufs := B\<rparr>) (r(n := r n + 1)) (insert n L) v \<and> (\<forall>j. j \<noteq> k \<longrightarrow> B j = bufs st j) \<and>
    has_buf (st\<lparr>bufs := B\<rparr>) k n \<and> b_refcnt (bufs st k) = 0"
proof -
  have set: "set (lru st) = {..<NBUF}"
    using c by (simp add: cache_def)
  have r: "r n = 0" "v n = disk st n"
    using cacheD(3,4) [OF c, of n] no by auto
  let ?P = "\<lambda>k. b_dev (bufs st k) = ROOTDEV \<and> b_blockno (bufs st k) = n"
  have f: "find ?P (lru st) = None"
    using no set by (auto simp: find_None_iff has_buf_def)
  have "find (\<lambda>k. b_refcnt (bufs st k) = 0) (rev (lru st)) \<noteq> None"
    using free_buf [OF c room] by (auto simp: find_None_iff)
  then obtain k where k: "find (\<lambda>k. b_refcnt (bufs st k) = 0) (rev (lru st)) = Some k"
    by auto
  then have kn: "k < NBUF" "b_refcnt (bufs st k) = 0"
    using set by (metis (mono_tags, lifting) find_Some_iff lessThan_iff nth_mem set_rev)
       (metis (mono_tags, lifting) k find_Some_iff)
  then have l: "slocked (b_lock (bufs st k)) = 0"
    using cacheD(1) [OF c kn(1)] cacheD(5) [OF c, of "b_blockno (bufs st k)"]
    by (auto simp: buf_ok_def split: if_splits)
  let ?b = "(bufs st k)\<lparr>b_dev := ROOTDEV, b_blockno := n, b_refcnt := 1,
      b_lock := (b_lock (bufs st k))\<lparr>slocked := 1, spid := curpid st\<rparr>, b_data := v n, b_valid := True\<rparr>"
  have "bread ROOTDEV n st = Ok (k, st\<lparr>bufs := (bufs st)(k := ?b)\<rparr>)"
    using f k l r by (simp add: bread_def bget_def lock_buf_def upd_buf_def disk_read_def acquire_unlocked)
  moreover have "buf_ok (curpid st) (r(n := r n + 1)) (insert n L) (v(n := v n)) ?b"
    using r by (simp add: buf_ok_def holdingsleep_def)
  from cache_upd [OF c kn(1) _ _ _ _ this, of "disk st" "dwrites st"]
  have "cache (st\<lparr>bufs := (bufs st)(k := ?b), disk := disk st, dwrites := dwrites st\<rparr>)
      (r(n := r n + 1)) (insert n L) (v(n := v n))"
    using kn(2) no by simp
  ultimately show ?thesis
    using kn by (intro exI [of _ k] exI [of _ "(bufs st)(k := ?b)"]) (simp add: has_buf_def)
qed

text \<open>
  \<open>bread\<close> returns the buffer of the block, locked, with the contents a reader expects; buffers that
  are in use stay where they are.
\<close>

lemma bread_ok:
  assumes c: "cache st r L v" and "n \<notin> L" and "r n + 1 < 2 ^ 32"
    and room: "0 < r n \<or> card {m. 0 < r m} < NBUF"
  shows "\<exists>k B. bread ROOTDEV n st = Ok (k, st\<lparr>bufs := B\<rparr>) \<and>
    cache (st\<lparr>bufs := B\<rparr>) (r(n := r n + 1)) (insert n L) v \<and> has_buf (st\<lparr>bufs := B\<rparr>) k n \<and>
    (\<forall>j m. has_buf st j m \<longrightarrow> 0 < r m \<longrightarrow> has_buf (st\<lparr>bufs := B\<rparr>) j m)"
proof (cases "\<exists>k. has_buf st k n")
  case True
  then obtain k where k: "has_buf st k n" ..
  obtain B where B: "bread ROOTDEV n st = Ok (k, st\<lparr>bufs := B\<rparr>)"
      "cache (st\<lparr>bufs := B\<rparr>) (r(n := r n + 1)) (insert n L) v" "\<forall>j. j \<noteq> k \<longrightarrow> B j = bufs st j"
      "has_buf (st\<lparr>bufs := B\<rparr>) k n"
    using bread_cached [OF c k assms(2,3)] by blast
  have "has_buf (st\<lparr>bufs := B\<rparr>) j m" if "has_buf st j m" for j m
    using that B(3,4) k by (cases "j = k") (auto simp: has_buf_def)
  then show ?thesis
    using B(1,2,4) by blast
next
  case False
  then have "r n = 0"
    using cacheD(3) [OF c, of n] by auto
  then obtain k B where B: "bread ROOTDEV n st = Ok (k, st\<lparr>bufs := B\<rparr>)"
      "cache (st\<lparr>bufs := B\<rparr>) (r(n := r n + 1)) (insert n L) v" "\<forall>j. j \<noteq> k \<longrightarrow> B j = bufs st j"
      "has_buf (st\<lparr>bufs := B\<rparr>) k n" "b_refcnt (bufs st k) = 0"
    using bread_uncached [OF c, of n] False room by auto
  have "has_buf (st\<lparr>bufs := B\<rparr>) j m" if h: "has_buf st j m" "0 < r m" for j m
  proof -
    have "j \<noteq> k"
      using cacheD(1) [OF c, of j] h B(5) by (auto simp: has_buf_def buf_ok_def)
    then show ?thesis
      using h(1) B(3) by (simp add: has_buf_def)
  qed
  then show ?thesis
    using B(1,2,4) by blast
qed

lemma buf_data_ok: "cache st r L v \<Longrightarrow> has_buf st k n \<Longrightarrow> 0 < r n \<Longrightarrow> b_data (bufs st k) = v n"
  using cacheD(1) [of st r L v k] by (auto simp: has_buf_def buf_ok_def)

lemma buf_held: "cache st r L v \<Longrightarrow> has_buf st k n \<Longrightarrow> n \<in> L \<Longrightarrow> holdingsleep (curpid st) (b_lock (bufs st k))"
  using cacheD(1) [of st r L v k] by (auto simp: has_buf_def buf_ok_def)

lemma has_buf_upd:
  "b_dev (f (bufs st k)) = b_dev (bufs st k) \<Longrightarrow> b_blockno (f (bufs st k)) = b_blockno (bufs st k) \<Longrightarrow>
   has_buf (upd_buf k f st) j m = has_buf st j m"
  by (simp add: has_buf_def upd_buf_def)

text \<open>A change of the contents of a buffer in use.\<close>

lemma set_data_ok:
  assumes c: "cache st r L v" and k: "has_buf st k n" and "0 < r n"
  shows "cache (upd_buf k (\<lambda>b. b\<lparr>b_data := d\<rparr>) st) r L (v(n := d))"
proof -
  let ?b = "(bufs st k)\<lparr>b_data := d\<rparr>"
  have ok: "buf_ok (curpid st) r L v (bufs st k)" and kn: "b_dev (bufs st k) = ROOTDEV" "b_blockno (bufs st k) = n" "k < NBUF"
    using cacheD(1) [OF c] k by (auto simp: has_buf_def)
  then have "buf_ok (curpid st) (r(n := r n)) L (v(n := d)) ?b"
    by (auto simp: buf_ok_def)
  from cache_upd [OF c kn(3) _ _ cacheD(2) [OF c _ k] _ this, of "disk st" "dwrites st"]
  have "cache (st\<lparr>bufs := (bufs st)(k := ?b), disk := disk st, dwrites := dwrites st\<rparr>) (r(n := r n)) L (v(n := d))"
    using kn k assms(3) by simp
  then show ?thesis
    by (simp add: upd_buf_def)
qed

lemma bwrite_ok:
  assumes c: "cache st r L v" and k: "has_buf st k n" and "n \<in> L"
  shows "bwrite k st = Ok (st\<lparr>disk := (disk st)(n := v n), dwrites := dwrites st @ [(n, v n)]\<rparr>)"
    and "cache (st\<lparr>disk := (disk st)(n := v n), dwrites := dwrites st @ [(n, v n)]\<rparr>) r L v"
proof -
  have rn: "0 < r n"
    using cacheD(5) [OF c, of n] assms(3) by auto
  show "bwrite k st = Ok (st\<lparr>disk := (disk st)(n := v n), dwrites := dwrites st @ [(n, v n)]\<rparr>)"
    using buf_held [OF c k assms(3)] buf_data_ok [OF c k rn] k
    by (simp add: bwrite_def disk_write_def has_buf_def Let_def)
  show "cache (st\<lparr>disk := (disk st)(n := v n), dwrites := dwrites st @ [(n, v n)]\<rparr>) r L v"
    using c rn by (auto simp: cache_def has_buf_def)
qed

lemma unat_pred: "0 < unat (x :: u32) \<Longrightarrow> unat (x - 1) = unat x - 1"
  using unat_sub [of 1 x] by (simp add: word_le_nat_alt)

lemma refcnt_ok:
  assumes c: "cache st r L v" and k: "has_buf st k n"
    and b: "b_dev b = ROOTDEV" "b_blockno b = n" "unat (b_refcnt b) = x" "b_valid b" "b_data b = v n"
      "if n \<in> L' then holdingsleep (curpid st) (b_lock b) else slocked (b_lock b) = 0"
    and L': "\<And>m. m \<noteq> n \<Longrightarrow> m \<in> L' \<longleftrightarrow> m \<in> L" and clean: "x = 0 \<Longrightarrow> v n = disk st n \<and> n \<notin> L'"
  shows "cache (st\<lparr>bufs := (bufs st)(k := b)\<rparr>) (r(n := x)) L' v"
proof -
  have "buf_ok (curpid st) (r(n := x)) L' (v(n := v n)) b"
    using b by (simp add: buf_ok_def)
  moreover have "k < NBUF"
    using k by (simp add: has_buf_def)
  ultimately have "cache (st\<lparr>bufs := (bufs st)(k := b), disk := disk st, dwrites := dwrites st\<rparr>) (r(n := x)) L' (v(n := v n))"
    using cache_upd [OF c _ b(1,2) cacheD(2) [OF c _ k] _ _ L', of x "v n" "disk st" "dwrites st"] clean k by simp
  then show ?thesis
    by simp
qed

lemma buf_fields:
  assumes c: "cache st r L v" and k: "has_buf st k n" and "0 < r n"
  shows "b_dev (bufs st k) = ROOTDEV" "b_blockno (bufs st k) = n" "unat (b_refcnt (bufs st k)) = r n"
    "b_valid (bufs st k)" "b_data (bufs st k) = v n"
    "if n \<in> L then holdingsleep (curpid st) (b_lock (bufs st k)) else slocked (b_lock (bufs st k)) = 0"
  using cacheD(1) [OF c, of k] k assms(3) by (auto simp: has_buf_def buf_ok_def)

lemma brelse_ok:
  assumes c: "cache st r L v" and k: "has_buf st k n" and n: "n \<in> L"
    and clean: "r n = 1 \<Longrightarrow> v n = disk st n"
  shows "\<exists>B l. brelse k st = Ok (st\<lparr>bufs := B, lru := l\<rparr>) \<and>
    cache (st\<lparr>bufs := B, lru := l\<rparr>) (r(n := r n - 1)) (L - {n}) v \<and>
    (\<forall>j m. has_buf (st\<lparr>bufs := B, lru := l\<rparr>) j m = has_buf st j m)"
proof -
  let ?b = "(bufs st k)\<lparr>b_lock := releasesleep (b_lock (bufs st k)), b_refcnt := b_refcnt (bufs st k) - 1\<rparr>"
  let ?B = "(bufs st)(k := ?b)"
  let ?l = "if b_refcnt ?b = 0 then k # remove1 k (lru st) else lru st"
  have rn: "0 < r n"
    using cacheD(5) [OF c, of n] n by auto
  note f = buf_fields [OF c k rn]
  have "unat (b_refcnt ?b) = r n - 1"
    using f(3) rn by (simp add: unat_pred)
  then have "cache (st\<lparr>bufs := ?B\<rparr>) (r(n := r n - 1)) (L - {n}) v"
    using f clean rn by (intro refcnt_ok [OF c k]) (auto simp: releasesleep_def le_Suc_eq)
  moreover have "distinct ?l" "set ?l = {..<NBUF}"
    using c k by (auto simp: cache_def has_buf_def)
  ultimately have "cache (st\<lparr>bufs := ?B, lru := ?l\<rparr>) (r(n := r n - 1)) (L - {n}) v"
    using cache_lru [of "st\<lparr>bufs := ?B\<rparr>"] by simp
  moreover have "brelse k st = Ok (st\<lparr>bufs := ?B, lru := ?l\<rparr>)"
    using buf_held [OF c k n] by (simp add: brelse_def upd_buf_def Let_def)
  moreover have "has_buf (st\<lparr>bufs := ?B, lru := ?l\<rparr>) j m = has_buf st j m" for j m
    by (simp add: has_buf_def)
  ultimately show ?thesis
    by blast
qed

lemma bpin_ok:
  assumes c: "cache st r L v" and k: "has_buf st k n" and rn: "0 < r n" "r n + 1 < 2 ^ 32"
  shows "cache (bpin k st) (r(n := r n + 1)) L v"
proof -
  note f = buf_fields [OF c k rn(1)]
  have "unat (b_refcnt (bufs st k) + 1) = r n + 1"
    using f(3) rn(2) by (simp add: unat_word_ariths)
  then show ?thesis
    unfolding bpin_def upd_buf_def using f by (intro refcnt_ok [OF c k]) auto
qed

lemma bunpin_ok:
  assumes c: "cache st r L v" and k: "has_buf st k n" and rn: "0 < r n"
    and clean: "r n = 1 \<Longrightarrow> v n = disk st n \<and> n \<notin> L"
  shows "cache (bunpin k st) (r(n := r n - 1)) L v"
proof -
  note f = buf_fields [OF c k rn(1)]
  have "unat (b_refcnt (bufs st k) - 1) = r n - 1"
    using f(3) rn by (simp add: unat_pred)
  then show ?thesis
    unfolding bunpin_def upd_buf_def using f clean rn by (intro refcnt_ok [OF c k]) (auto simp: le_Suc_eq)
qed

lemma has_buf_pin [simp]:
  "has_buf (bpin k st) j m = has_buf st j m" "has_buf (bunpin k st) j m = has_buf st j m"
  by (simp_all add: bpin_def bunpin_def has_buf_def upd_buf_def)

section \<open>Start\<close>

lemma binit_from_eq:
  "lru (binit_from k n st) = rev [k..<k + n] @ lru st \<and> disk (binit_from k n st) = disk st \<and>
   dwrites (binit_from k n st) = dwrites st \<and> curpid (binit_from k n st) = curpid st \<and>
   (\<forall>j. bufs (binit_from k n st) j = (if k \<le> j \<and> j < k + n
      then (bufs st j)\<lparr>b_lock := initsleeplock ''buffer''\<rparr> else bufs st j))"
proof (induction n arbitrary: k st)
  case (Suc n)
  have "rev [k..<k + Suc n] = rev [Suc k..<Suc k + n] @ [k]"
    by (simp add: upt_rec [of k])
  then show ?case
    using Suc [of "Suc k" "upd_buf k (\<lambda>b. b\<lparr>b_lock := initsleeplock ''buffer''\<rparr>) st\<lparr>lru := k # lru st\<rparr>"]
    by (auto simp: upd_buf_def)
qed auto

text \<open>The buffers of a machine that has just been switched on are zero.\<close>

definition zero_buf :: buf where
  "zero_buf = \<lparr>b_valid = False, b_dev = 0, b_blockno = 0, b_lock = \<lparr>slocked = 0, sname = [], spid = 0\<rparr>,
     b_refcnt = 0, b_data = (\<lambda>_. 0)\<rparr>"

lemma binit_ok:
  assumes "bufs st = (\<lambda>_. zero_buf)"
  shows "cache (binit st) (\<lambda>_. 0) {} (disk st) \<and> disk (binit st) = disk st"
proof -
  note e = binit_from_eq [of 0 NBUF "st\<lparr>lru := []\<rparr>"]
  have "bufs (binit st) j = zero_buf\<lparr>b_lock := initsleeplock ''buffer''\<rparr>" if "j < NBUF" for j
    using e assms that by (simp add: binit_def)
  then have "\<forall>j < NBUF. buf_ok pid (\<lambda>_. 0) {} (disk st) (bufs (binit st) j) \<and> b_dev (bufs (binit st) j) = 0" for pid
    by (simp add: buf_ok_def zero_buf_def initsleeplock_def ROOTDEV_def)
  then show ?thesis
    using e by (auto simp: cache_def has_buf_def binit_def ROOTDEV_def)
qed

end
