(* ===== verification/Xv6_Log.thy ===== *)
theory Xv6_Log
  imports Xv6_Bio
begin

text \<open>
  The log, \<^verbatim>\<open>kernel/log.c\<close>: transactions that are written to the log on the disk, committed by
  one write of the log header, and then copied to their home blocks; recovery repeats the copy.

  \<^verbatim>\<open>begin_op\<close> that has to wait for another system call does not return (\<open>Stuck\<close>), as the functions
  here run alone. The header on the disk holds the number of blocks and their numbers as 32-bit
  words. \<^verbatim>\<open>read_head\<close> does not check the number it reads: with more than \<^verbatim>\<open>LOGSIZE\<close> blocks it writes
  outside its array, which is \<open>Stuck\<close> here.
\<close>

section \<open>Code\<close>

definition LOGSIZE :: nat where "LOGSIZE = MAXOPBLOCKS * 3"

record logst = bcache +
  lg_start :: c_int
  lg_size :: c_int
  lg_outstanding :: c_int
  lg_committing :: bool
  lg_dev :: c_int
  lg_n :: c_int
  lg_block :: "nat \<Rightarrow> c_int"

text \<open>The number of rounds of a loop \<^verbatim>\<open>for(i = 0; i < n; i++)\<close> over a signed \<^verbatim>\<open>n\<close>.\<close>

definition rounds :: "c_int \<Rightarrow> nat" where
  "rounds n = nat (sint n)"

fun install_from :: "bool \<Rightarrow> nat \<Rightarrow> nat \<Rightarrow> 'z logst_scheme \<Rightarrow> 'z logst_scheme res" where
  "install_from recovering tail 0 st = Ok st"
| "install_from recovering tail (Suc n) st =
     rbind (bread (lg_dev st) (lg_start st + of_nat tail + 1) st) (\<lambda>(lbuf, st).
     rbind (bread (lg_dev st) (lg_block st tail) st) (\<lambda>(dbuf, st).
     rbind (bwrite dbuf (upd_buf dbuf (\<lambda>b. b\<lparr>b_data := b_data (bufs st lbuf)\<rparr>) st)) (\<lambda>st.
     rbind (brelse lbuf (if recovering then st else bunpin dbuf st)) (\<lambda>st.
     rbind (brelse dbuf st) (\<lambda>st.
     install_from recovering (Suc tail) n st)))))"

definition install_trans :: "bool \<Rightarrow> 'z logst_scheme \<Rightarrow> 'z logst_scheme res" where
  "install_trans recovering st = install_from recovering 0 (rounds (lg_n st)) st"

definition hdr_n :: "block \<Rightarrow> c_int" where
  "hdr_n d = load_le d 0 4"

definition hdr_block :: "block \<Rightarrow> nat \<Rightarrow> c_int" where
  "hdr_block d i = load_le d (4 + 4 * i) 4"

definition read_head :: "'z logst_scheme \<Rightarrow> 'z logst_scheme res" where
  "read_head st =
     rbind (bread (lg_dev st) (lg_start st) st) (\<lambda>(b, st).
       let d = b_data (bufs st b); n = hdr_n d
       in if LOGSIZE < rounds n then Stuck
          else brelse b (st\<lparr>lg_n := n, lg_block := (\<lambda>i. if i < rounds n then hdr_block d i else lg_block st i)\<rparr>))"

fun put_blocks :: "nat \<Rightarrow> nat \<Rightarrow> (nat \<Rightarrow> c_int) \<Rightarrow> block \<Rightarrow> block" where
  "put_blocks i 0 f d = d"
| "put_blocks i (Suc n) f d = put_blocks (Suc i) n f (store_le d (4 + 4 * i) 4 (f i))"

definition hdr :: "c_int \<Rightarrow> (nat \<Rightarrow> c_int) \<Rightarrow> block \<Rightarrow> block" where
  "hdr n f d = put_blocks 0 (rounds n) f (store_le d 0 4 n)"

definition write_head :: "'z logst_scheme \<Rightarrow> 'z logst_scheme res" where
  "write_head st =
     rbind (bread (lg_dev st) (lg_start st) st) (\<lambda>(b, st).
     rbind (bwrite b (upd_buf b (\<lambda>x. x\<lparr>b_data := hdr (lg_n st) (lg_block st) (b_data x)\<rparr>) st)) (\<lambda>st.
     brelse b st))"

definition recover_from_log :: "'z logst_scheme \<Rightarrow> 'z logst_scheme res" where
  "recover_from_log st =
     rbind (read_head st) (\<lambda>st.
     rbind (install_trans True st) (\<lambda>st.
     write_head (st\<lparr>lg_n := 0\<rparr>)))"

text \<open>\<^verbatim>\<open>sizeof(struct logheader)\<close> is \<open>4 + 4 * LOGSIZE\<close>.\<close>

definition initlog :: "c_int \<Rightarrow> u32 \<Rightarrow> u32 \<Rightarrow> 'z logst_scheme \<Rightarrow> 'z logst_scheme res" where
  "initlog dev logstart nlog st =
     (if BSIZE \<le> 4 + 4 * LOGSIZE then Panic ''initlog: too big logheader''
      else recover_from_log (st\<lparr>lg_start := logstart, lg_size := nlog, lg_dev := dev\<rparr>))"

definition begin_op :: "'z logst_scheme \<Rightarrow> 'z logst_scheme res" where
  "begin_op st =
     (if lg_committing st then Stuck
      else if of_nat LOGSIZE <s lg_n st + (lg_outstanding st + 1) * of_nat MAXOPBLOCKS then Stuck
      else Ok (st\<lparr>lg_outstanding := lg_outstanding st + 1\<rparr>))"

fun write_log_from :: "nat \<Rightarrow> nat \<Rightarrow> 'z logst_scheme \<Rightarrow> 'z logst_scheme res" where
  "write_log_from tail 0 st = Ok st"
| "write_log_from tail (Suc n) st =
     rbind (bread (lg_dev st) (lg_start st + of_nat tail + 1) st) (\<lambda>(tobuf, st).
     rbind (bread (lg_dev st) (lg_block st tail) st) (\<lambda>(frm, st).
     rbind (bwrite tobuf (upd_buf tobuf (\<lambda>b. b\<lparr>b_data := b_data (bufs st frm)\<rparr>) st)) (\<lambda>st.
     rbind (brelse frm st) (\<lambda>st.
     rbind (brelse tobuf st) (\<lambda>st.
     write_log_from (Suc tail) n st)))))"

definition write_log :: "'z logst_scheme \<Rightarrow> 'z logst_scheme res" where
  "write_log st = write_log_from 0 (rounds (lg_n st)) st"

definition commit :: "'z logst_scheme \<Rightarrow> 'z logst_scheme res" where
  "commit st =
     (if 0 <s lg_n st then
        rbind (write_log st) (\<lambda>st.
        rbind (write_head st) (\<lambda>st.
        rbind (install_trans False st) (\<lambda>st.
        write_head (st\<lparr>lg_n := 0\<rparr>))))
      else Ok st)"

text \<open>The wakeups of the processes that wait in \<^verbatim>\<open>begin_op\<close> change nothing here.\<close>

definition end_op :: "'z logst_scheme \<Rightarrow> 'z logst_scheme res" where
  "end_op st =
     (let st = st\<lparr>lg_outstanding := lg_outstanding st - 1\<rparr> in
      if lg_committing st then Panic ''log.committing''
      else if lg_outstanding st = 0 then
        rbind (commit (st\<lparr>lg_committing := True\<rparr>)) (\<lambda>st. Ok (st\<lparr>lg_committing := False\<rparr>))
      else Ok st)"

text \<open>The index of the block in the header, or the number of blocks if it is not there.\<close>

fun log_index :: "nat \<Rightarrow> nat \<Rightarrow> (nat \<Rightarrow> c_int) \<Rightarrow> c_int \<Rightarrow> nat" where
  "log_index i 0 f b = i"
| "log_index i (Suc n) f b = (if f i = b then i else log_index (Suc i) n f b)"

definition log_write :: "nat \<Rightarrow> 'z logst_scheme \<Rightarrow> 'z logst_scheme res" where
  "log_write k st =
     (if of_nat LOGSIZE \<le>s lg_n st \<or> lg_size st - 1 \<le>s lg_n st then Panic ''too big a transaction''
      else if lg_outstanding st <s 1 then Panic ''log_write outside of trans''
      else
        let i = log_index 0 (rounds (lg_n st)) (lg_block st) (b_blockno (bufs st k));
            st = st\<lparr>lg_block := (lg_block st)(i := b_blockno (bufs st k))\<rparr>
        in Ok (if i = rounds (lg_n st) then (bpin k st)\<lparr>lg_n := lg_n st + 1\<rparr> else st))"

section \<open>The header block\<close>

lemma put_blocks_outside:
  "x < 4 + 4 * i \<or> 4 + 4 * (i + n) \<le> x \<Longrightarrow> put_blocks i n f d x = d x"
  by (induction n arbitrary: i d) (auto simp: store_le_def)

lemma put_blocks_get:
  "i \<le> j \<Longrightarrow> j < i + n \<Longrightarrow> hdr_block (put_blocks i n f d) j = f j"
proof (induction n arbitrary: i d)
  case (Suc n)
  show ?case
  proof (cases "j = i")
    case True
    have "hdr_block (put_blocks (Suc i) n f (store_le d (4 + 4 * i) 4 (f i))) i =
        hdr_block (store_le d (4 + 4 * i) 4 (f i)) i"
      unfolding hdr_block_def by (rule load_le_cong) (simp add: put_blocks_outside)
    then show ?thesis
      using True by (simp add: hdr_block_def load_le_store_le_same)
  next
    case False
    then show ?thesis
      using Suc by simp
  qed
qed simp

lemma hdr_get: "hdr_n (hdr n f d) = n" "j < rounds n \<Longrightarrow> hdr_block (hdr n f d) j = f j"
proof -
  have "hdr_n (hdr n f d) = hdr_n (store_le d 0 4 n)"
    unfolding hdr_n_def hdr_def by (rule load_le_cong) (simp add: put_blocks_outside)
  then show "hdr_n (hdr n f d) = n"
    by (simp add: hdr_n_def load_le_store_le_same)
  show "j < rounds n \<Longrightarrow> hdr_block (hdr n f d) j = f j"
    by (simp add: hdr_def put_blocks_get)
qed

lemma rounds_small: "unat n < 2 ^ 31 \<Longrightarrow> rounds n = unat n"
  by (simp add: rounds_def sint_small)

lemma rounds_0 [simp]: "rounds 0 = 0"
  by (simp add: rounds_def)

section \<open>Copying blocks\<close>

text \<open>\<open>rest\<close>: everything but the cache and the disk is unchanged.\<close>

definition rest :: "'z bcache_scheme \<Rightarrow> 'z bcache_scheme \<Rightarrow> bool" where
  "rest st st' \<longleftrightarrow> curpid st' = curpid st \<and> bcache.more st' = bcache.more st"

lemma rest_refl [simp]: "rest st st"
  by (simp add: rest_def)

lemma rest_trans: "rest st st' \<Longrightarrow> rest st' st'' \<Longrightarrow> rest st st''"
  by (simp add: rest_def)

lemma rest_upd [simp]:
  "rest st (st\<lparr>bufs := B\<rparr>)" "rest st (st\<lparr>bufs := B, lru := l\<rparr>)" "rest st (st\<lparr>disk := d, dwrites := w\<rparr>)"
  "rest st (upd_buf k f st)" "rest st (bpin k st)" "rest st (bunpin k st)"
  by (simp_all add: rest_def upd_buf_def bpin_def bunpin_def)

lemma rest_log:
  fixes st st' :: "'z logst_scheme"
  assumes "rest st st'"
  shows "lg_start st' = lg_start st" "lg_size st' = lg_size st" "lg_dev st' = lg_dev st"
    "lg_n st' = lg_n st" "lg_block st' = lg_block st" "lg_outstanding st' = lg_outstanding st"
    "lg_committing st' = lg_committing st"
  using assms by (cases st; cases st'; simp add: rest_def)+

lemma card_insert_refs: "card {m. 0 < (r(n := Suc x)) m} \<le> card {m. 0 < r m} + 1" for r :: "u32 \<Rightarrow> nat"
proof -
  have "{m. 0 < (r(n := Suc x)) m} \<subseteq> insert n {m. 0 < r m}"
    by auto
  then have "card {m. 0 < (r(n := Suc x)) m} \<le> card (insert n {m. 0 < r m})"
    by (rule card_mono [rotated]) simp
  also have "card (insert n {m. 0 < r m}) \<le> card {m. 0 < r m} + 1"
    by (simp add: card_insert_if)
  finally show ?thesis .
qed

text \<open>Two buffers in use at once, the second of another block.\<close>

lemma bread_two:
  assumes c: "cache st r {} v" and ab: "a \<noteq> b" and r: "r a = 0" "r b + 1 < 2 ^ 32"
    and room: "card {m. 0 < r m} + (if r b = 0 then 2 else 1) \<le> NBUF"
  obtains i j st1 st2 where "bread ROOTDEV a st = Ok (i, st1)" "bread ROOTDEV b st1 = Ok (j, st2)"
    "cache st2 (r(a := 1, b := r b + 1)) {a, b} v" "has_buf st2 i a" "has_buf st2 j b"
    "rest st st1" "rest st st2" "disk st2 = disk st" "dwrites st2 = dwrites st"
proof -
  have "0 < r a \<or> card {m. 0 < r m} < NBUF"
    using room by (auto split: if_splits)
  then obtain i B where 1: "bread ROOTDEV a st = Ok (i, st\<lparr>bufs := B\<rparr>)"
      "cache (st\<lparr>bufs := B\<rparr>) (r(a := r a + 1)) (insert a {}) v" "has_buf (st\<lparr>bufs := B\<rparr>) i a"
    using bread_ok [OF c, of a] r(1) by fastforce
  have s: "card {m. 0 < (r(a := Suc (r a))) m} \<le> card {m. 0 < r m} + 1"
    by (rule card_insert_refs)
  have "0 < (r(a := Suc (r a))) b \<or> card {m. 0 < (r(a := Suc (r a))) m} < NBUF"
  proof (cases "r b = 0")
    case True
    then have "card {m. 0 < r m} + 2 \<le> NBUF"
      using room by simp
    then show ?thesis
      using s by linarith
  qed (use ab in simp)
  then obtain j B' where 2: "bread ROOTDEV b (st\<lparr>bufs := B\<rparr>) = Ok (j, st\<lparr>bufs := B'\<rparr>)"
      "cache (st\<lparr>bufs := B'\<rparr>) (r(a := 1, b := r b + 1)) {a, b} v" "has_buf (st\<lparr>bufs := B'\<rparr>) j b"
      "has_buf (st\<lparr>bufs := B'\<rparr>) i a"
    using bread_ok [OF 1(2) [unfolded Suc_eq_plus1 [symmetric]], of b] ab r 1(3)
    by (fastforce simp: insert_commute simp del: Collect_conj_eq)
  show thesis
    using that [OF 1(1) 2(1,2,4,3)] by simp
qed

lemma has_buf_data [simp]: "has_buf (upd_buf k (\<lambda>b. b\<lparr>b_data := d b\<rparr>) st) j m = has_buf st j m"
  by (simp add: has_buf_def upd_buf_def)

lemma has_buf_disk [simp]: "has_buf (st\<lparr>disk := d, dwrites := w\<rparr>) j m = has_buf st j m"
  by (simp add: has_buf_def)

text \<open>One round of \<^verbatim>\<open>write_log\<close>: the block \<open>f\<close> goes to the log block \<open>t\<close>.\<close>

lemma write_log_round:
  assumes c: "cache st r {} v" and tf: "t \<noteq> f" and r: "r t = 0" "r f + 1 < 2 ^ 32"
    and room: "card {m. 0 < r m} + (if r f = 0 then 2 else 1) \<le> NBUF"
    and stable: "\<And>s. rest st s \<Longrightarrow> dev s = ROOTDEV \<and> blk s = f"
  shows "\<exists>st'. rbind (bread ROOTDEV t st) (\<lambda>(tobuf, st). rbind (bread (dev st) (blk st) st) (\<lambda>(frm, st).
       rbind (bwrite tobuf (upd_buf tobuf (\<lambda>b. b\<lparr>b_data := b_data (bufs st frm)\<rparr>) st)) (\<lambda>st.
       rbind (brelse frm st) (\<lambda>st. rbind (brelse tobuf st) G)))) = G st' \<and>
    cache st' r {} (v(t := v f)) \<and>
    rest st st' \<and>
    disk st' = (disk st)(t := v f) \<and>
    dwrites st' = dwrites st @ [(t, v f)]"
proof -
  obtain i j st1 st2 where two: "bread ROOTDEV t st = Ok (i, st1)" "bread ROOTDEV f st1 = Ok (j, st2)"
    "cache st2 (r(t := 1, f := r f + 1)) {t, f} v" "has_buf st2 i t" "has_buf st2 j f"
    "rest st st2" "disk st2 = disk st" "dwrites st2 = dwrites st" "dev st1 = ROOTDEV" "blk st1 = f"
    using bread_two [OF c tf r room] stable by metis
  let ?r = "r(t := 1, f := r f + 1)" and ?v = "v(t := v f)"
  let ?s = "upd_buf i (\<lambda>b. b\<lparr>b_data := b_data (bufs st2 j)\<rparr>) st2"
  have "b_data (bufs st2 j) = v f"
    using buf_data_ok [OF two(3,5)] tf by simp
  then have c3: "cache ?s ?r {t, f} ?v"
    using set_data_ok [OF two(3,4)] tf by simp
  let ?w = "?s\<lparr>disk := (disk ?s)(t := ?v t), dwrites := dwrites ?s @ [(t, ?v t)]\<rparr>"
  have w: "bwrite i ?s = Ok ?w" "cache ?w ?r {t, f} ?v"
    using bwrite_ok [OF c3, of i t] two(4) by simp_all
  have "?r f = 1 \<Longrightarrow> ?v f = disk ?w f"
    using cacheD(4) [OF c, of f] tf two(7) by (simp add: upd_buf_def)
  then obtain B l where b: "brelse j ?w = Ok (?w\<lparr>bufs := B, lru := l\<rparr>)"
      "cache (?w\<lparr>bufs := B, lru := l\<rparr>) (?r(f := ?r f - 1)) ({t, f} - {f}) ?v"
      "\<And>j m. has_buf (?w\<lparr>bufs := B, lru := l\<rparr>) j m = has_buf ?w j m"
    using brelse_ok [OF w(2), of j f] two(5) by auto
  let ?b = "?w\<lparr>bufs := B, lru := l\<rparr>"
  have b2: "cache ?b (r(t := 1)) {t} ?v"
    using b(2) tf by (simp add: fun_upd_idem insert_Diff_if)
  obtain B' l' where e: "brelse i ?b = Ok (?b\<lparr>bufs := B', lru := l'\<rparr>)"
      "cache (?b\<lparr>bufs := B', lru := l'\<rparr>) ((r(t := 1))(t := (r(t := 1)) t - 1)) ({t} - {t}) ?v"
    using brelse_ok [OF b2, of i t] b(3) two(4) by auto
  let ?e = "?b\<lparr>bufs := B', lru := l'\<rparr>"
  show ?thesis
  proof (intro exI [of _ ?e] conjI)
    show "cache ?e r {} ?v"
      using e(2) r(1) by (simp add: fun_upd_idem)
    show "rest st ?e"
      using two(6) by (simp add: rest_def upd_buf_def)
  qed (use two w b e in \<open>simp_all add: upd_buf_def\<close>)
qed

text \<open>
  One round of \<^verbatim>\<open>install_trans\<close>: the log block \<open>t\<close> goes to the home block \<open>d\<close>, which has one reference
  for its place in the log when the log is not being recovered, and none afterwards.
\<close>

lemma install_round:
  assumes c: "cache st r {} v" and td: "t \<noteq> d" and r: "r t = 0" "r d = (if recovering then 0 else 1)"
    and room: "card {m. 0 < r m} + (if recovering then 2 else 1) \<le> NBUF"
    and stable: "\<And>s. rest st s \<Longrightarrow> dev s = ROOTDEV \<and> blk s = d"
  shows "\<exists>st'. rbind (bread ROOTDEV t st) (\<lambda>(lbuf, st). rbind (bread (dev st) (blk st) st) (\<lambda>(dbuf, st).
       rbind (bwrite dbuf (upd_buf dbuf (\<lambda>b. b\<lparr>b_data := b_data (bufs st lbuf)\<rparr>) st)) (\<lambda>st.
       rbind (brelse lbuf (if recovering then st else bunpin dbuf st)) (\<lambda>st. rbind (brelse dbuf st) G)))) = G st' \<and>
    cache st' (r(d := 0)) {} (v(d := v t)) \<and>
    rest st st' \<and>
    disk st' = (disk st)(d := v t) \<and>
    dwrites st' = dwrites st @ [(d, v t)]"
proof -
  have rd: "r d + 1 < 2 ^ 32" "card {m. 0 < r m} + (if r d = 0 then 2 else 1) \<le> NBUF"
    using r room by (auto split: if_splits)
  obtain i j st1 st2 where two: "bread ROOTDEV t st = Ok (i, st1)" "bread ROOTDEV d st1 = Ok (j, st2)"
    "cache st2 (r(t := 1, d := r d + 1)) {t, d} v" "has_buf st2 i t" "has_buf st2 j d"
    "rest st st2" "disk st2 = disk st" "dwrites st2 = dwrites st" "dev st1 = ROOTDEV" "blk st1 = d"
    using bread_two [OF c td r(1) rd] stable by metis
  let ?r = "r(t := 1, d := r d + 1)" and ?v = "v(d := v t)"
  let ?s = "upd_buf j (\<lambda>b. b\<lparr>b_data := b_data (bufs st2 i)\<rparr>) st2"
  have "b_data (bufs st2 i) = v t"
    using buf_data_ok [OF two(3,4)] td by simp
  then have c3: "cache ?s ?r {t, d} ?v"
    using set_data_ok [OF two(3,5)] td by simp
  let ?w = "?s\<lparr>disk := (disk ?s)(d := ?v d), dwrites := dwrites ?s @ [(d, ?v d)]\<rparr>"
  have w: "bwrite j ?s = Ok ?w" "cache ?w ?r {t, d} ?v"
    using bwrite_ok [OF c3, of j d] two(5) by simp_all
  let ?u = "if recovering then ?w else bunpin j ?w"
  have hu: "has_buf ?u k m = has_buf st2 k m" for k m
    by simp
  have "cache ?u (r(t := 1, d := 1)) {t, d} ?v"
    using bunpin_ok [OF w(2), of j d] w(2) r(2) two(5) by (cases recovering) simp_all
  moreover have "rest ?w ?u" "disk ?u = disk ?w" "dwrites ?u = dwrites ?w"
    by (simp_all add: bunpin_def upd_buf_def rest_def)
  ultimately have u: "cache ?u (r(t := 1, d := 1)) {t, d} ?v" "rest ?w ?u" "disk ?u = disk ?w" "dwrites ?u = dwrites ?w"
    by blast+
  have "(r(t := 1, d := 1)) t = 1 \<Longrightarrow> ?v t = disk ?u t"
    using cacheD(4) [OF c, of t] r(1) td two(7) u(3) by (simp add: upd_buf_def)
  then obtain B l where b: "brelse i ?u = Ok (?u\<lparr>bufs := B, lru := l\<rparr>)"
      "cache (?u\<lparr>bufs := B, lru := l\<rparr>) ((r(t := 1, d := 1))(t := (r(t := 1, d := 1)) t - 1)) ({t, d} - {t}) ?v"
      "\<forall>k m. has_buf (?u\<lparr>bufs := B, lru := l\<rparr>) k m = has_buf ?u k m"
    using brelse_ok [OF u(1), of i t] two(4) hu by blast
  let ?b = "?u\<lparr>bufs := B, lru := l\<rparr>"
  have b2: "cache ?b (r(d := 1)) {d} ?v"
    using b(2) td r(1) by (simp add: fun_upd_twist [of d t] fun_upd_idem insert_Diff_if)
  have "has_buf ?b j d"
    using b(3) hu two(5) by simp
  moreover have "(r(d := 1)) d = 1 \<Longrightarrow> ?v d = disk ?b d"
    using u(3) by simp
  ultimately obtain B' l' where e: "brelse j ?b = Ok (?b\<lparr>bufs := B', lru := l'\<rparr>)"
      "cache (?b\<lparr>bufs := B', lru := l'\<rparr>) ((r(d := 1))(d := (r(d := 1)) d - 1)) ({d} - {d}) ?v"
    using brelse_ok [OF b2, of j d] by blast
  let ?e = "?b\<lparr>bufs := B', lru := l'\<rparr>"
  show ?thesis
  proof (intro exI [of _ ?e] conjI)
    show "cache ?e (r(d := 0)) {} ?v"
      using e(2) by simp
    show "rest st ?e"
      using two(6) u(2) by (simp add: rest_def upd_buf_def)
    show "disk ?e = (disk st)(d := v t)" "dwrites ?e = dwrites st @ [(d, v t)]"
      using u(3,4) two(7,8) by (simp_all add: upd_buf_def)
  qed (simp only: two(1,2,9,10) w(1) b(1) e(1) rbind_Ok prod.case)
qed

lemma write_head_ok:
  assumes c: "cache st r {} v" and "lg_dev st = ROOTDEV" and r: "r (lg_start st) = 0"
    and room: "card {m. 0 < r m} < NBUF" and h: "h = hdr (lg_n st) (lg_block st) (v (lg_start st))"
  shows "\<exists>st'. write_head st = Ok st' \<and>
    cache st' r {} (v(lg_start st := h)) \<and>
    rest st st' \<and>
    disk st' = (disk st)(lg_start st := h) \<and>
    dwrites st' = dwrites st @ [(lg_start st, h)]"
proof -
  let ?s = "lg_start st"
  obtain k B where k: "bread ROOTDEV ?s st = Ok (k, st\<lparr>bufs := B\<rparr>)"
      "cache (st\<lparr>bufs := B\<rparr>) (r(?s := r ?s + 1)) (insert ?s {}) v" "has_buf (st\<lparr>bufs := B\<rparr>) k ?s"
    using bread_ok [OF c, of ?s] r room by fastforce
  let ?d = "upd_buf k (\<lambda>x. x\<lparr>b_data := hdr (lg_n st) (lg_block st) (b_data x)\<rparr>) (st\<lparr>bufs := B\<rparr>)"
  have "b_data (B k) = v ?s"
    using buf_data_ok [OF k(2,3)] by simp
  then have "?d = upd_buf k (\<lambda>x. x\<lparr>b_data := h\<rparr>) (st\<lparr>bufs := B\<rparr>)"
    by (simp add: upd_buf_def h)
  then have c2: "cache ?d (r(?s := 1)) {?s} (v(?s := h))"
    using set_data_ok [OF k(2,3), of h] r by simp
  let ?w = "?d\<lparr>disk := (disk ?d)(?s := h), dwrites := dwrites ?d @ [(?s, h)]\<rparr>"
  have w: "bwrite k ?d = Ok ?w" "cache ?w (r(?s := 1)) {?s} (v(?s := h))"
    using bwrite_ok [OF c2, of k ?s] k(3) by simp_all
  obtain B' l where b: "brelse k ?w = Ok (?w\<lparr>bufs := B', lru := l\<rparr>)"
      "cache (?w\<lparr>bufs := B', lru := l\<rparr>) ((r(?s := 1))(?s := (r(?s := 1)) ?s - 1)) ({?s} - {?s}) (v(?s := h))"
    using brelse_ok [OF w(2), of k ?s] k(3) by fastforce
  show ?thesis
  proof (intro exI [of _ "?w\<lparr>bufs := B', lru := l\<rparr>"] conjI)
    show "cache (?w\<lparr>bufs := B', lru := l\<rparr>) r {} (v(?s := h))"
      using b(2) r by (simp add: fun_upd_idem)
    show "write_head st = Ok (?w\<lparr>bufs := B', lru := l\<rparr>)"
      using assms(2) k(1) w(1) b(1) by (simp add: write_head_def)
  qed (simp_all add: rest_def upd_buf_def)
qed

section \<open>The loops\<close>

definition apply_writes :: "(u32 \<times> block) list \<Rightarrow> (u32 \<Rightarrow> block) \<Rightarrow> u32 \<Rightarrow> block" where
  "apply_writes ws D = fold (\<lambda>(n, d) D. D(n := d)) ws D"

lemma apply_writes_simps [simp]:
  "apply_writes [] D = D" "apply_writes ((n, d) # ws) D = apply_writes ws (D(n := d))"
  by (simp_all add: apply_writes_def)

lemma apply_writes_append [simp]: "apply_writes (ws @ ws') D = apply_writes ws' (apply_writes ws D)"
  by (simp add: apply_writes_def)

lemma apply_writes_other: "n \<notin> fst ` set ws \<Longrightarrow> apply_writes ws D n = D n"
  by (induction ws arbitrary: D) (auto simp: split: prod.splits)

lemma apply_writes_map:
  "inj_on f {a..<b} \<Longrightarrow> i \<in> {a..<b} \<Longrightarrow> apply_writes (map (\<lambda>i. (f i, g i)) [a..<b]) D (f i) = g i"
proof (induction "b - a" arbitrary: a D)
  case (Suc n)
  then have ab: "[a..<b] = a # [Suc a..<b]"
    by (simp add: upt_conv_Cons)
  show ?case
  proof (cases "i = a")
    case True
    have "f a \<noteq> f j" if "j \<in> {Suc a..<b}" for j
      using inj_onD [OF Suc.prems(1), of a j] that Suc.prems(2) by auto
    then have "f a \<notin> f ` {Suc a..<b}"
      by blast
    then have "f a \<notin> fst ` set (map (\<lambda>i. (f i, g i)) [Suc a..<b])"
      by (simp add: image_image)
    then show ?thesis
      using True by (simp add: ab apply_writes_other)
  next
    case False
    then show ?thesis
      using Suc.hyps(1) [of "Suc a"] Suc.hyps(2) Suc.prems by (simp add: ab inj_on_def)
  qed
qed simp

definition log_blk :: "u32 \<Rightarrow> nat \<Rightarrow> u32" where
  "log_blk s i = s + of_nat i + 1"

lemma write_log_from_ok:
  assumes "cache st r {} v" and "lg_dev st = ROOTDEV" and "card {m. 0 < r m} + 1 \<le> NBUF"
    and "\<And>i. tail \<le> i \<Longrightarrow> i < tail + n \<Longrightarrow> r (lg_block st i) = 1 \<and> r (log_blk (lg_start st) i) = 0"
  shows "\<exists>st' W. write_log_from tail n st = Ok st' \<and> cache st' r {} (apply_writes W v) \<and> rest st st' \<and>
    W = map (\<lambda>i. (log_blk (lg_start st) i, v (lg_block st i))) [tail..<tail + n] \<and>
    disk st' = apply_writes W (disk st) \<and> dwrites st' = dwrites st @ W"
  using assms
proof (induction n arbitrary: tail st v)
  case 0
  then show ?case by simp
next
  case (Suc n)
  let ?t = "log_blk (lg_start st) tail" and ?f = "lg_block st tail"
  have r: "r ?f = 1" "r ?t = 0"
    using Suc.prems(4) [of tail] by auto
  then have tf: "?t \<noteq> ?f" "r ?f + 1 < 2 ^ 32" "card {m. 0 < r m} + (if r ?f = 0 then 2 else 1) \<le> NBUF"
    using Suc.prems(3) by auto
  have stable: "lg_dev s = ROOTDEV \<and> lg_block s tail = ?f" if "rest st s" for s
    using rest_log [OF that] Suc.prems(2) by simp
  obtain st1 where 1: "write_log_from tail (Suc n) st = write_log_from (Suc tail) n st1"
    "cache st1 r {} (v(?t := v ?f))" "rest st st1" "disk st1 = (disk st)(?t := v ?f)"
    "dwrites st1 = dwrites st @ [(?t, v ?f)]"
    using write_log_round [where dev = lg_dev and blk = "\<lambda>s. lg_block s tail" and G = "write_log_from (Suc tail) n",
        OF Suc.prems(1) tf(1) r(2) tf(2,3) stable] Suc.prems(2)
    by (auto simp: log_blk_def)
  note l = rest_log [OF 1(3)]
  have pre: "r (lg_block st1 i) = 1 \<and> r (log_blk (lg_start st1) i) = 0" if "Suc tail \<le> i" "i < Suc tail + n" for i
    using Suc.prems(4) [of i] that l by simp
  have "lg_dev st1 = ROOTDEV"
    using l Suc.prems(2) by simp
  from Suc.IH [OF 1(2) this Suc.prems(3) pre]
  obtain st' W where st': "write_log_from (Suc tail) n st1 = Ok st'" "cache st' r {} (apply_writes W (v(?t := v ?f)))"
      "rest st1 st'" "W = map (\<lambda>i. (log_blk (lg_start st1) i, (v(?t := v ?f)) (lg_block st1 i))) [Suc tail..<Suc tail + n]"
      "disk st' = apply_writes W (disk st1)" "dwrites st' = dwrites st1 @ W"
    by blast
  have "(v(?t := v ?f)) (lg_block st1 i) = v (lg_block st i)" if "Suc tail \<le> i" "i < Suc tail + n" for i
    using Suc.prems(4) [of i] that r l by auto
  then have W: "(?t, v ?f) # W = map (\<lambda>i. (log_blk (lg_start st) i, v (lg_block st i))) [tail..<tail + Suc n]"
    unfolding st'(4) using l by (simp add: upt_conv_Cons del: upt_Suc)
  show ?case
  proof (intro exI [of _ st'] exI [of _ "(?t, v ?f) # W"] conjI)
    show "(?t, v ?f) # W = map (\<lambda>i. (log_blk (lg_start st) i, v (lg_block st i))) [tail..<tail + Suc n]"
      by (rule W)
  qed (use st'(1,2,5,6) 1(1,4,5) rest_trans [OF 1(3) st'(3)] in \<open>simp_all only: apply_writes_simps append.simps append_assoc\<close>)
qed

text \<open>
  The rounds of \<^verbatim>\<open>install_trans\<close> from \<open>tail\<close>. While the log is being recovered no block has a
  reference; otherwise the blocks of the log have one each, and they are distinct.
\<close>

lemma card_refs_less: "card {m. 0 < (r(d := 0)) m} \<le> card {m. 0 < r m}" for r :: "u32 \<Rightarrow> nat"
  by (intro card_mono) auto

lemma install_from_ok:
  assumes "cache st r {} v" and "lg_dev st = ROOTDEV"
    and "card {m. 0 < r m} + (if recovering then 2 else 1) \<le> NBUF"
    and "\<And>i. tail \<le> i \<Longrightarrow> i < tail + n \<Longrightarrow>
      r (lg_block st i) = (if recovering then 0 else 1) \<and> r (log_blk (lg_start st) i) = 0"
    and "\<And>i j. tail \<le> i \<Longrightarrow> i < tail + n \<Longrightarrow> tail \<le> j \<Longrightarrow> j < tail + n \<Longrightarrow>
      lg_block st i \<noteq> log_blk (lg_start st) j"
    and "recovering \<or> inj_on (lg_block st) {tail..<tail + n}"
  shows "\<exists>st' W. install_from recovering tail n st = Ok st' \<and>
    cache st' (\<lambda>m. if m \<in> lg_block st ` {tail..<tail + n} then 0 else r m) {} (apply_writes W v) \<and> rest st st' \<and>
    W = map (\<lambda>i. (lg_block st i, v (log_blk (lg_start st) i))) [tail..<tail + n] \<and>
    disk st' = apply_writes W (disk st) \<and> dwrites st' = dwrites st @ W"
  using assms
proof (induction n arbitrary: tail st v r)
  case 0
  then show ?case by simp
next
  case (Suc n)
  let ?t = "log_blk (lg_start st) tail" and ?d = "lg_block st tail"
  have r: "r ?d = (if recovering then 0 else 1)" "r ?t = 0" and td: "?t \<noteq> ?d"
    using Suc.prems(4) [of tail] Suc.prems(5) [of tail tail] by auto
  have stable: "lg_dev s = ROOTDEV \<and> lg_block s tail = ?d" if "rest st s" for s
    using rest_log [OF that] Suc.prems(2) by simp
  obtain st1 where 1: "install_from recovering tail (Suc n) st = install_from recovering (Suc tail) n st1"
    "cache st1 (r(?d := 0)) {} (v(?d := v ?t))" "rest st st1" "disk st1 = (disk st)(?d := v ?t)"
    "dwrites st1 = dwrites st @ [(?d, v ?t)]"
    using install_round [where dev = lg_dev and blk = "\<lambda>s. lg_block s tail" and G = "install_from recovering (Suc tail) n",
        OF Suc.prems(1) td r(2,1) Suc.prems(3) stable] Suc.prems(2)
    by (auto simp: log_blk_def)
  note l = rest_log [OF 1(3)]
  have dev: "lg_dev st1 = ROOTDEV"
    using l Suc.prems(2) by simp
  have room: "card {m. 0 < (r(?d := 0)) m} + (if recovering then 2 else 1) \<le> NBUF"
    using Suc.prems(3) card_refs_less [of r ?d] by linarith
  have new: "recovering \<or> lg_block st i \<noteq> ?d" if "Suc tail \<le> i" "i < Suc tail + n" for i
    using Suc.prems(6) that inj_onD [of "lg_block st" "{tail..<tail + Suc n}" i tail] by auto
  have pre: "(r(?d := 0)) (lg_block st1 i) = (if recovering then 0 else 1) \<and> (r(?d := 0)) (log_blk (lg_start st1) i) = 0"
    if "Suc tail \<le> i" "i < Suc tail + n" for i
    using Suc.prems(4) [of i] that l new [OF that] by auto
  have sep: "lg_block st1 i \<noteq> log_blk (lg_start st1) j"
    if "Suc tail \<le> i" "i < Suc tail + n" "Suc tail \<le> j" "j < Suc tail + n" for i j
    using Suc.prems(5) [of i j] that l by simp
  have inj: "recovering \<or> inj_on (lg_block st1) {Suc tail..<Suc tail + n}"
    using Suc.prems(6) l by (auto simp: inj_on_def)
  obtain st' W where st': "install_from recovering (Suc tail) n st1 = Ok st'"
      "cache st' (\<lambda>m. if m \<in> lg_block st1 ` {Suc tail..<Suc tail + n} then 0 else (r(?d := 0)) m) {}
         (apply_writes W (v(?d := v ?t)))" "rest st1 st'"
      "W = map (\<lambda>i. (lg_block st1 i, (v(?d := v ?t)) (log_blk (lg_start st1) i))) [Suc tail..<Suc tail + n]"
      "disk st' = apply_writes W (disk st1)" "dwrites st' = dwrites st1 @ W"
    using Suc.IH [OF 1(2) dev room pre sep inj] by blast
  have "(v(?d := v ?t)) (log_blk (lg_start st1) i) = v (log_blk (lg_start st) i)" if "Suc tail \<le> i" "i < Suc tail + n" for i
    using Suc.prems(5) [of tail i] that l by auto
  then have W: "(?d, v ?t) # W = map (\<lambda>i. (lg_block st i, v (log_blk (lg_start st) i))) [tail..<tail + Suc n]"
    unfolding st'(4) using l by (simp add: upt_conv_Cons del: upt_Suc)
  have "{tail..<tail + Suc n} = insert tail {Suc tail..<Suc tail + n}"
    by auto
  then have R: "(\<lambda>m. if m \<in> lg_block st1 ` {Suc tail..<Suc tail + n} then 0 else (r(?d := 0)) m) =
      (\<lambda>m. if m \<in> lg_block st ` {tail..<tail + Suc n} then 0 else r m)"
    using l by auto
  show ?case
  proof (intro exI [of _ st'] exI [of _ "(?d, v ?t) # W"] conjI)
    show "(?d, v ?t) # W = map (\<lambda>i. (lg_block st i, v (log_blk (lg_start st) i))) [tail..<tail + Suc n]"
      by (rule W)
  qed (use st'(1,2,5,6) 1(1,4,5) rest_trans [OF 1(3) st'(3)] in
      \<open>simp_all only: apply_writes_simps append.simps append_assoc R\<close>)
qed

lemma read_head_ok:
  assumes c: "cache st (\<lambda>_. 0) {} v" and dev: "lg_dev st = ROOTDEV"
    and n: "rounds (hdr_n (v (lg_start st))) \<le> LOGSIZE"
  obtains st' where "read_head st = Ok st'" "cache st' (\<lambda>_. 0) {} v" "disk st' = disk st" "dwrites st' = dwrites st"
    "lg_dev st' = ROOTDEV" "lg_start st' = lg_start st" "lg_n st' = hdr_n (v (lg_start st))"
    "\<And>i. i < rounds (lg_n st') \<Longrightarrow> lg_block st' i = hdr_block (v (lg_start st)) i"
proof -
  let ?s = "lg_start st" and ?r = "(\<lambda>_. 0) :: u32 \<Rightarrow> nat"
  have "card {m. 0 < ?r m} < NBUF"
    by (simp add: NBUF_def MAXOPBLOCKS_def)
  then obtain k B where k: "bread ROOTDEV ?s st = Ok (k, st\<lparr>bufs := B\<rparr>)"
      "cache (st\<lparr>bufs := B\<rparr>) (?r(?s := 1)) {?s} v" "has_buf (st\<lparr>bufs := B\<rparr>) k ?s"
    using bread_ok [OF c, of ?s] by fastforce
  let ?d = "v ?s" and ?n = "hdr_n (v ?s)"
  let ?t = "st\<lparr>bufs := B, lg_n := ?n, lg_block := (\<lambda>i. if i < rounds ?n then hdr_block ?d i else lg_block st i)\<rparr>"
  have d: "b_data (B k) = ?d"
    using buf_data_ok [OF k(2,3)] by simp
  have ct: "cache ?t (?r(?s := 1)) {?s} v" "has_buf ?t k ?s"
    using k(2,3) by (simp_all add: cache_def has_buf_def)
  have "v ?s = disk st ?s"
    using cacheD(4) [OF c] by simp
  then obtain B' l where b: "brelse k ?t = Ok (?t\<lparr>bufs := B', lru := l\<rparr>)"
      "cache (?t\<lparr>bufs := B', lru := l\<rparr>) ((?r(?s := 1))(?s := (?r(?s := 1)) ?s - 1)) ({?s} - {?s}) v"
    using brelse_ok [OF ct, of] by fastforce
  have "read_head st = Ok (?t\<lparr>bufs := B', lru := l\<rparr>)"
    using dev k(1) d n b(1) by (simp add: read_head_def Let_def cong: if_cong)
  moreover have "(?r(?s := 1))(?s := (?r(?s := 1)) ?s - 1) = ?r"
    by (simp add: fun_eq_iff)
  ultimately show thesis
    using that [of "?t\<lparr>bufs := B', lru := l\<rparr>"] b(2) dev by simp
qed

section \<open>Recovery\<close>

text \<open>
  What recovery makes of a disk: the blocks of the log go to the blocks the header names, and the
  header is cleared.
\<close>

definition recover_writes :: "u32 \<Rightarrow> (u32 \<Rightarrow> block) \<Rightarrow> (u32 \<times> block) list" where
  "recover_writes s D = map (\<lambda>i. (hdr_block (D s) i, D (log_blk s i))) [0..<rounds (hdr_n (D s))]"

definition log_ok :: "u32 \<Rightarrow> (u32 \<Rightarrow> block) \<Rightarrow> bool" where
  "log_ok s D \<longleftrightarrow> rounds (hdr_n (D s)) \<le> LOGSIZE \<and>
     (\<forall>i < rounds (hdr_n (D s)). hdr_block (D s) i \<noteq> s \<and>
        (\<forall>j < rounds (hdr_n (D s)). hdr_block (D s) i \<noteq> log_blk s j))"

lemma initlog_ok:
  assumes c: "cache st (\<lambda>_. 0) {} (disk st)" and ok: "log_ok s (disk st)"
  shows "\<exists>st'. initlog ROOTDEV s nlog st = Ok st' \<and> cache st' (\<lambda>_. 0) {} (disk st') \<and> hdr_n (disk st' s) = 0 \<and>
    (\<forall>m. m \<noteq> s \<longrightarrow> disk st' m = apply_writes (recover_writes s (disk st)) (disk st) m)"
proof -
  let ?D = "disk st"
  let ?a = "st\<lparr>lg_start := s, lg_size := nlog, lg_dev := ROOTDEV\<rparr>"
  have a: "cache ?a (\<lambda>_. 0) {} ?D" "lg_dev ?a = ROOTDEV" "rounds (hdr_n (?D (lg_start ?a))) \<le> LOGSIZE"
    using c ok by (simp_all add: cache_def has_buf_def log_ok_def)
  obtain b where b: "read_head ?a = Ok b" "cache b (\<lambda>_. 0) {} ?D" "disk b = ?D" "lg_dev b = ROOTDEV"
      "lg_start b = s" "lg_n b = hdr_n (?D s)" "\<And>i. i < rounds (lg_n b) \<Longrightarrow> lg_block b i = hdr_block (?D s) i"
    using read_head_ok [OF a] by auto
  let ?n = "rounds (hdr_n (?D s))"
  have card: "card {m :: u32. 0 < (0 :: nat)} + (if True then 2 else 1) \<le> NBUF"
    by (simp add: NBUF_def MAXOPBLOCKS_def)
  have "\<exists>st' W. install_from True 0 ?n b = Ok st' \<and>
      cache st' (\<lambda>m. if m \<in> lg_block b ` {0..<0 + ?n} then 0 else 0) {} (apply_writes W ?D) \<and> rest b st' \<and>
      W = map (\<lambda>i. (lg_block b i, ?D (log_blk (lg_start b) i))) [0..<0 + ?n] \<and>
      disk st' = apply_writes W (disk b) \<and> dwrites st' = dwrites b @ W"
    using ok b(5-7) by (intro install_from_ok [OF b(2,4)] card) (simp_all add: log_ok_def)
  then obtain e W where e: "install_from True 0 ?n b = Ok e" "cache e (\<lambda>m. 0) {} (apply_writes W ?D)" "rest b e"
      "W = map (\<lambda>i. (lg_block b i, ?D (log_blk (lg_start b) i))) [0..<?n]" "disk e = apply_writes W ?D"
    using b(3) by auto
  have W: "W = recover_writes s ?D"
    using e(4) b(5-7) by (simp add: recover_writes_def)
  note l = rest_log [OF e(3)]
  let ?e = "e\<lparr>lg_n := 0\<rparr>"
  have "cache ?e (\<lambda>m. 0) {} (apply_writes W ?D)" "lg_dev ?e = ROOTDEV" "card {m :: u32. 0 < (0 :: nat)} < NBUF"
    using e(2) l b(4) card by (simp_all add: cache_def has_buf_def)
  then obtain st' where st': "write_head ?e = Ok st'"
      "cache st' (\<lambda>m. 0) {} ((apply_writes W ?D)(s := hdr 0 (lg_block ?e) (apply_writes W ?D s)))"
      "disk st' = (disk ?e)(s := hdr 0 (lg_block ?e) (apply_writes W ?D s))"
    using write_head_ok [of ?e "\<lambda>m. 0" "apply_writes W ?D"] l b(5) by auto
  have "initlog ROOTDEV s nlog st = Ok st'"
    using b(1,6) e(1) st'(1)
    by (simp add: initlog_def recover_from_log_def install_trans_def BSIZE_def LOGSIZE_def MAXOPBLOCKS_def)
  then show ?thesis
    using st'(2,3) e(5) W by (simp add: hdr_get)
qed

end
