(* ===== verification/Xv6_Log_Crash.thy ===== *)
theory Xv6_Log_Crash
  imports Xv6_Log
begin

text \<open>
  Crash safety of the log. A commit is a sequence of disk writes; a crash keeps a prefix of it.
  Whatever the prefix, recovery at the next boot leaves either all blocks of the transaction or none.
\<close>

section \<open>A transaction that is ready to commit\<close>

definition log_len :: "'z logst_scheme \<Rightarrow> nat" where
  "log_len st = rounds (lg_n st)"

definition log_homes :: "'z logst_scheme \<Rightarrow> u32 set" where
  "log_homes st = lg_block st ` {0..<log_len st}"

definition log_area :: "u32 \<Rightarrow> u32 set" where
  "log_area s = insert s (log_blk s ` {0..<LOGSIZE})"

text \<open>
  The blocks of the transaction are distinct, outside the log area and held in the cache with their
  new contents; the header on the disk is empty.
\<close>

definition pending :: "'z logst_scheme \<Rightarrow> (u32 \<Rightarrow> block) \<Rightarrow> bool" where
  "pending st v \<longleftrightarrow>
     cache st (\<lambda>m. if m \<in> log_homes st then 1 else 0) {} v \<and> lg_dev st = ROOTDEV \<and>
     inj_on (lg_block st) {0..<log_len st} \<and> log_len st < NBUF \<and>
     log_homes st \<inter> log_area (lg_start st) = {} \<and> unat (lg_start st) + LOGSIZE < 2 ^ 32 \<and>
     hdr_n (disk st (lg_start st)) = 0"

lemma LOGSIZE_simp: "LOGSIZE = 30"
  by (simp add: LOGSIZE_def MAXOPBLOCKS_def)

lemma NBUF_simp: "NBUF = 30"
  by (simp add: NBUF_def MAXOPBLOCKS_def)

lemma unat_log_blk: "unat s + LOGSIZE < 2 ^ 32 \<Longrightarrow> i < LOGSIZE \<Longrightarrow> unat (log_blk s i) = unat s + i + 1"
  by (simp add: log_blk_def LOGSIZE_simp unat_word_ariths unat_of_nat)

lemma log_blk_inj: "unat s + LOGSIZE < 2 ^ 32 \<Longrightarrow> inj_on (log_blk s) {0..<LOGSIZE}"
  by (rule inj_onI) (metis add_left_cancel add_right_cancel atLeastLessThan_iff unat_log_blk)

lemma log_blk_start: "unat s + LOGSIZE < 2 ^ 32 \<Longrightarrow> i < LOGSIZE \<Longrightarrow> log_blk s i \<noteq> s"
  using unat_log_blk [of s i] by auto

lemma pendingD:
  assumes "pending st v"
  shows "cache st (\<lambda>m. if m \<in> log_homes st then 1 else 0) {} v" "lg_dev st = ROOTDEV"
    "inj_on (lg_block st) {0..<log_len st}" "log_len st < NBUF"
    "\<And>i. i < log_len st \<Longrightarrow> lg_block st i \<notin> log_area (lg_start st)"
    "unat (lg_start st) + LOGSIZE < 2 ^ 32" "hdr_n (disk st (lg_start st)) = 0"
    "\<And>m. m \<notin> log_homes st \<Longrightarrow> v m = disk st m"
proof -
  show c: "cache st (\<lambda>m. if m \<in> log_homes st then 1 else 0) {} v"
    using assms by (simp add: pending_def)
  show "v m = disk st m" if "m \<notin> log_homes st" for m
    using cacheD(4) [OF c, of m] that by simp
  show "lg_block st i \<notin> log_area (lg_start st)" if "i < log_len st" for i
  proof -
    have "lg_block st i \<in> log_homes st"
      using that by (simp add: log_homes_def)
    then show ?thesis
      using assms by (auto simp: pending_def)
  qed
qed (use assms in \<open>simp_all add: pending_def\<close>)

section \<open>The writes of a commit\<close>

definition log_copies :: "'z logst_scheme \<Rightarrow> (u32 \<Rightarrow> block) \<Rightarrow> (u32 \<times> block) list" where
  "log_copies st v = map (\<lambda>i. (log_blk (lg_start st) i, v (lg_block st i))) [0..<log_len st]"

definition home_copies :: "'z logst_scheme \<Rightarrow> (u32 \<Rightarrow> block) \<Rightarrow> (u32 \<times> block) list" where
  "home_copies st v = map (\<lambda>i. (lg_block st i, v (lg_block st i))) [0..<log_len st]"

definition full_hdr :: "'z logst_scheme \<Rightarrow> block" where
  "full_hdr st = hdr (lg_n st) (lg_block st) (disk st (lg_start st))"

definition empty_hdr :: "'z logst_scheme \<Rightarrow> block" where
  "empty_hdr st = hdr 0 (lg_block st) (full_hdr st)"

definition commit_writes :: "'z logst_scheme \<Rightarrow> (u32 \<Rightarrow> block) \<Rightarrow> (u32 \<times> block) list" where
  "commit_writes st v = log_copies st v @ (lg_start st, full_hdr st) # home_copies st v @ [(lg_start st, empty_hdr st)]"

lemma copies_fst:
  "fst ` set (log_copies st v) = log_blk (lg_start st) ` {0..<log_len st}"
  "fst ` set (home_copies st v) = log_homes st"
  by (auto simp: log_copies_def home_copies_def log_homes_def image_image)

lemma log_area_mem:
  "i < LOGSIZE \<Longrightarrow> log_blk s i \<in> log_area s" "s \<in> log_area s"
  by (auto simp: log_area_def)

lemma log_len_le: "pending st v \<Longrightarrow> log_len st < LOGSIZE"
  using pendingD(4) [of st v] by (simp add: NBUF_simp LOGSIZE_simp)

lemma home_copies_value:
  assumes "pending st v"
  shows "apply_writes (home_copies st v) D m = (if m \<in> log_homes st then v m else D m)"
proof (cases "m \<in> log_homes st")
  case True
  then obtain i where "i \<in> {0..<log_len st}" "m = lg_block st i"
    by (auto simp: log_homes_def)
  then show ?thesis
    using apply_writes_map [OF pendingD(3) [OF assms], of i "\<lambda>i. v (lg_block st i)" D] True
    by (simp add: home_copies_def)
next
  case False
  then show ?thesis
    by (simp add: apply_writes_other copies_fst)
qed

lemma log_copies_value:
  assumes "pending st v"
  shows "i < log_len st \<Longrightarrow> apply_writes (log_copies st v) D (log_blk (lg_start st) i) = v (lg_block st i)"
    "m \<notin> log_area (lg_start st) \<Longrightarrow> apply_writes (take k (log_copies st v)) D m = D m"
    "apply_writes (take k (log_copies st v)) D (lg_start st) = D (lg_start st)"
proof -
  have inj: "inj_on (log_blk (lg_start st)) {0..<log_len st}"
    using log_blk_inj [OF pendingD(6) [OF assms]] log_len_le [OF assms] by (auto intro: inj_on_subset)
  show "apply_writes (log_copies st v) D (log_blk (lg_start st) i) = v (lg_block st i)" if "i < log_len st"
    using apply_writes_map [OF inj, of i "\<lambda>i. v (lg_block st i)" D] that by (simp add: log_copies_def)
  have sub: "fst ` set (take k (log_copies st v)) \<subseteq> log_blk (lg_start st) ` {0..<log_len st}"
    using set_take_subset [of k "log_copies st v"] by (metis copies_fst(1) image_mono)
  then show "apply_writes (take k (log_copies st v)) D m = D m" if "m \<notin> log_area (lg_start st)"
    using that log_len_le [OF assms] by (intro apply_writes_other) (force simp: log_area_def)
  show "apply_writes (take k (log_copies st v)) D (lg_start st) = D (lg_start st)"
  proof (rule apply_writes_other)
    have "lg_start st \<notin> log_blk (lg_start st) ` {0..<log_len st}"
    proof
      assume "lg_start st \<in> log_blk (lg_start st) ` {0..<log_len st}"
      then obtain i where "lg_start st = log_blk (lg_start st) i" "i < log_len st"
        by auto
      then show False
        using log_blk_start [OF pendingD(6) [OF assms], of i] log_len_le [OF assms] by simp
    qed
    then show "lg_start st \<notin> fst ` set (take k (log_copies st v))"
      using sub by blast
  qed
qed

lemma commit_ok:
  assumes p: "pending st v" and n: "0 < log_len st"
  shows "\<exists>st'. commit st = Ok st' \<and> dwrites st' = dwrites st @ commit_writes st v \<and>
    disk st' = apply_writes (commit_writes st v) (disk st) \<and> cache st' (\<lambda>_. 0) {} (disk st') \<and> lg_n st' = 0 \<and>
    lg_outstanding st' = lg_outstanding st \<and> lg_committing st' = lg_committing st"
proof -
  let ?s = "lg_start st" and ?n = "log_len st"
  let ?r = "\<lambda>m. if m \<in> log_homes st then 1 else 0 :: nat"
  note d = pendingD [OF p]
  have "log_homes st \<noteq> {}"
    using n by (auto simp: log_homes_def)
  have "card (log_homes st) \<le> ?n"
    using card_image_le [of "{0..<?n}" "lg_block st"] by (simp add: log_homes_def)
  moreover have "{m. 0 < ?r m} = log_homes st"
    by auto
  ultimately have room: "card {m. 0 < ?r m} + 1 \<le> NBUF"
    using d(4) by simp
  have area: "?r (lg_block st i) = 1 \<and> ?r (log_blk ?s i) = 0" if "i < ?n" for i
    using d(5) that log_len_le [OF p] log_area_mem(1) [of i ?s] by (force simp: log_homes_def)
  have sh: "?s \<notin> log_homes st"
    using d(5) log_area_mem(2) [of ?s] by (force simp: log_homes_def)
  then have rs: "?r ?s = 0"
    by simp
  obtain a where a: "write_log st = Ok a" "cache a ?r {} (apply_writes (log_copies st v) v)" "rest st a"
      "disk a = apply_writes (log_copies st v) (disk st)" "dwrites a = dwrites st @ log_copies st v"
    using write_log_from_ok [OF d(1,2) room, of 0 ?n] area
    by (auto simp: write_log_def log_copies_def log_len_def)
  note la = rest_log [OF a(3)]
  have s0: "apply_writes (log_copies st v) D ?s = D ?s" for D
    using log_copies_value(3) [OF p, of ?n D] by (simp add: log_copies_def)
  have vs: "v ?s = disk st ?s"
    using d(8) [of ?s] rs by (simp split: if_splits)
  let ?v = "(apply_writes (log_copies st v) v)(?s := full_hdr st)"
  obtain b where b: "write_head a = Ok b" "cache b ?r {} ?v" "rest a b"
      "disk b = (disk a)(?s := full_hdr st)" "dwrites b = dwrites a @ [(?s, full_hdr st)]"
    using write_head_ok [OF a(2), of "full_hdr st"] la d(2) rs room s0 vs by (auto simp: full_hdr_def)
  note lb = rest_log [OF b(3)]
  have fields: "lg_block b = lg_block st" "lg_start b = ?s" "lg_dev b = ROOTDEV" "lg_n b = lg_n st"
      "lg_outstanding b = lg_outstanding st" "lg_committing b = lg_committing st"
    using la lb d(2) by simp_all
  have vlog: "?v (log_blk ?s i) = v (lg_block st i)" if "i < ?n" for i
    using log_copies_value(1) [OF p that, of v] log_blk_start [OF d(6), of i] that log_len_le [OF p] by simp
  have sep: "lg_block st i \<noteq> log_blk ?s j" if "i < ?n" "j < ?n" for i j
    using d(5) [OF that(1)] log_area_mem(1) [of j ?s] that(2) log_len_le [OF p] by auto
  have "\<exists>e W. install_from False 0 ?n b = Ok e \<and>
      cache e (\<lambda>m. if m \<in> lg_block b ` {0..<0 + ?n} then 0 else ?r m) {} (apply_writes W ?v) \<and> rest b e \<and>
      W = map (\<lambda>i. (lg_block b i, ?v (log_blk (lg_start b) i))) [0..<0 + ?n] \<and>
      disk e = apply_writes W (disk b) \<and> dwrites e = dwrites b @ W"
    using room area sep d(3) by (intro install_from_ok [OF b(2) fields(3)]) (auto simp: fields)
  then obtain e W where e: "install_from False 0 ?n b = Ok e"
      "cache e (\<lambda>m. if m \<in> log_homes st then 0 else ?r m) {} (apply_writes W ?v)" "rest b e"
      "W = map (\<lambda>i. (lg_block st i, ?v (log_blk ?s i))) [0..<?n]"
      "disk e = apply_writes W (disk b)" "dwrites e = dwrites b @ W"
    by (auto simp: fields log_homes_def)
  have W: "W = home_copies st v"
    using e(4) vlog by (simp add: home_copies_def)
  have r0: "(\<lambda>m. if m \<in> log_homes st then 0 else ?r m) = (\<lambda>_. 0)"
    by auto
  note le = rest_log [OF e(3)]
  let ?e = "e\<lparr>lg_n := 0\<rparr>"
  have "apply_writes W ?v ?s = full_hdr st"
    using home_copies_value [OF p, of ?v ?s] sh W by simp
  then have h: "empty_hdr st = hdr (lg_n ?e) (lg_block ?e) (apply_writes W ?v (lg_start ?e))"
    using le fields by (simp add: empty_hdr_def)
  have "cache ?e (\<lambda>_. 0) {} (apply_writes W ?v)" "lg_dev ?e = ROOTDEV" "card {m :: u32. 0 < (0 :: nat)} < NBUF"
    using e(2) r0 le fields by (simp_all add: cache_def has_buf_def NBUF_simp)
  then obtain f where f: "write_head ?e = Ok f" "cache f (\<lambda>_. 0) {} ((apply_writes W ?v)(?s := empty_hdr st))"
      "rest ?e f" "disk f = (disk e)(?s := empty_hdr st)" "dwrites f = dwrites e @ [(?s, empty_hdr st)]"
    using write_head_ok [of ?e "\<lambda>_. 0" "apply_writes W ?v" "empty_hdr st"] h le fields by auto
  have "0 <s lg_n st"
    using n by (simp add: log_len_def rounds_def word_sless_alt)
  moreover have "rounds (lg_n st) = ?n"
    by (simp add: log_len_def)
  ultimately have "commit st = Ok f"
    using a(1) b(1) e(1) f(1) fields by (simp add: commit_def install_trans_def)
  moreover have "dwrites f = dwrites st @ commit_writes st v"
    "disk f = apply_writes (commit_writes st v) (disk st)"
    using a(4,5) b(4,5) e(5,6) f(4,5) W by (simp_all add: commit_writes_def)
  moreover have "(apply_writes W ?v)(?s := empty_hdr st) = disk f"
    using cacheD(4) [OF f(2)] by auto
  ultimately show ?thesis
    using f(2) rest_log [OF f(3)] le fields by (intro exI [of _ f]) simp
qed

section \<open>Recovery from a prefix of the writes\<close>

definition boot :: "c_int \<Rightarrow> u32 \<Rightarrow> u32 \<Rightarrow> 'z logst_scheme \<Rightarrow> 'z logst_scheme res" where
  "boot dev s nlog st = initlog dev s nlog (binit (st\<lparr>bufs := (\<lambda>_. zero_buf)\<rparr>))"

lemma boot_ok:
  assumes "log_ok s (disk st)"
  shows "\<exists>st'. boot ROOTDEV s nlog st = Ok st' \<and>
    (\<forall>m. m \<noteq> s \<longrightarrow> disk st' m = apply_writes (recover_writes s (disk st)) (disk st) m)"
proof -
  have "cache (binit (st\<lparr>bufs := (\<lambda>_. zero_buf)\<rparr>)) (\<lambda>_. 0) {} (disk st)" "disk (binit (st\<lparr>bufs := (\<lambda>_. zero_buf)\<rparr>)) = disk st"
    using binit_ok [of "st\<lparr>bufs := (\<lambda>_. zero_buf)\<rparr>"] by simp_all
  then show ?thesis
    using initlog_ok [of "binit (st\<lparr>bufs := (\<lambda>_. zero_buf)\<rparr>)" s nlog] assms by (auto simp: boot_def)
qed

lemma empty_log: "hdr_n (D s) = 0 \<Longrightarrow> log_ok s D \<and> recover_writes s D = []"
  by (simp add: log_ok_def recover_writes_def)

lemma full_log:
  assumes p: "pending st v" and s: "D (lg_start st) = full_hdr st"
    and c: "\<And>i. i < log_len st \<Longrightarrow> D (log_blk (lg_start st) i) = v (lg_block st i)"
  shows "log_ok (lg_start st) D \<and> recover_writes (lg_start st) D = home_copies st v"
proof -
  have n: "rounds (hdr_n (D (lg_start st))) = log_len st"
    and b: "\<And>i. i < log_len st \<Longrightarrow> hdr_block (D (lg_start st)) i = lg_block st i"
    using s by (simp_all add: full_hdr_def hdr_get log_len_def)
  have "lg_block st i \<noteq> lg_start st \<and> (\<forall>j < log_len st. lg_block st i \<noteq> log_blk (lg_start st) j)"
    if "i < log_len st" for i
    using pendingD(5) [OF p that] log_area_mem log_len_le [OF p] by (metis order.strict_trans)
  then show ?thesis
    using n b c log_len_le [OF p] by (simp add: log_ok_def recover_writes_def home_copies_def)
qed

text \<open>The disk after a crash: the first \<open>k\<close> writes of the commit have reached it.\<close>

definition crash :: "'z logst_scheme \<Rightarrow> (u32 \<Rightarrow> block) \<Rightarrow> nat \<Rightarrow> u32 \<Rightarrow> block" where
  "crash st v k = apply_writes (take k (commit_writes st v)) (disk st)"

lemma crash_before:
  assumes p: "pending st v" and "k \<le> log_len st"
  shows "hdr_n (crash st v k (lg_start st)) = 0"
    "m \<notin> log_area (lg_start st) \<Longrightarrow> crash st v k m = disk st m"
proof -
  have "crash st v k = apply_writes (take k (log_copies st v)) (disk st)"
    using assms(2) by (simp add: crash_def commit_writes_def log_copies_def)
  then show "hdr_n (crash st v k (lg_start st)) = 0"
    "m \<notin> log_area (lg_start st) \<Longrightarrow> crash st v k m = disk st m"
    using log_copies_value(2,3) [OF p] pendingD(7) [OF p] by simp_all
qed

lemma crash_after:
  assumes p: "pending st v" and "k \<le> log_len st" and D: "D = crash st v (log_len st + 1 + k)"
  shows "D (lg_start st) = full_hdr st" "i < log_len st \<Longrightarrow> D (log_blk (lg_start st) i) = v (lg_block st i)"
    "m \<notin> log_area (lg_start st) \<Longrightarrow> m \<notin> log_homes st \<Longrightarrow> D m = v m"
proof -
  let ?s = "lg_start st" and ?L = "apply_writes (log_copies st v) (disk st)"
  have "length (log_copies st v) = log_len st" "length (home_copies st v) = log_len st"
    by (simp_all add: log_copies_def home_copies_def)
  then have e: "D = apply_writes (take k (home_copies st v)) (?L(?s := full_hdr st))"
    using assms(2) by (simp add: D crash_def commit_writes_def)
  have sub: "fst ` set (take k (home_copies st v)) \<subseteq> log_homes st"
    using set_take_subset [of k "home_copies st v"] by (metis copies_fst(2) image_mono)
  have out: "D m = (?L(?s := full_hdr st)) m" if "m \<notin> log_homes st" for m
    using that sub unfolding e by (intro apply_writes_other) blast
  have area: "m \<notin> log_homes st" if "m \<in> log_area ?s" for m
    using that pendingD(5) [OF p] by (auto simp: log_homes_def)
  show "D ?s = full_hdr st"
    using out [OF area] log_area_mem(2) [of ?s] by simp
  show "D (log_blk ?s i) = v (lg_block st i)" if "i < log_len st"
    using out [OF area [OF log_area_mem(1)], of i] log_copies_value(1) [OF p that, of "disk st"]
      log_blk_start [OF pendingD(6) [OF p], of i] log_len_le [OF p] that by simp
  show "D m = v m" if "m \<notin> log_area ?s" "m \<notin> log_homes st"
    using out [OF that(2)] log_copies_value(2) [OF p that(1), of "log_len st" "disk st"] pendingD(8) [OF p that(2)] that(1)
      log_area_mem(2) [of ?s] by (auto simp: log_copies_def)
qed

lemma crash_end:
  assumes p: "pending st v" and "2 * log_len st + 2 \<le> k"
  shows "hdr_n (crash st v k (lg_start st)) = 0" "m \<notin> log_area (lg_start st) \<Longrightarrow> crash st v k m = v m"
proof -
  let ?s = "lg_start st"
  have "length (commit_writes st v) \<le> k"
    using assms(2) by (simp add: commit_writes_def log_copies_def home_copies_def)
  then have e: "crash st v k = (apply_writes (home_copies st v)
      ((apply_writes (log_copies st v) (disk st))(?s := full_hdr st)))(?s := empty_hdr st)"
    by (simp add: crash_def commit_writes_def)
  show "hdr_n (crash st v k ?s) = 0"
    by (simp add: e empty_hdr_def hdr_get)
  show "crash st v k m = v m" if "m \<notin> log_area ?s"
    using that log_area_mem(2) [of ?s] log_copies_value(2) [OF p that, of "log_len st" "disk st"] pendingD(8) [OF p, of m]
    by (auto simp: e home_copies_value [OF p] log_copies_def)
qed

text \<open>
  Claim C2: the log makes transactions atomic. The last system call of a transaction ends it with
  \<^verbatim>\<open>end_op()\<close>, which commits and returns. The disk then holds the new contents of every block. If the
  machine crashes after any number \<open>k\<close> of the disk writes of the commit, then booting from that disk
  succeeds and recovers, outside the log area, exactly the old contents when the write of the
  header had not reached the disk, and exactly the new contents otherwise.
\<close>

theorem commit_is_atomic:
  assumes p: "pending st v" and n: "0 < log_len st" and "lg_outstanding st = 1" and "\<not> lg_committing st"
  shows "\<exists>st'. end_op st = Ok st' \<and> dwrites st' = dwrites st @ commit_writes st v \<and>
    (\<forall>m. m \<notin> log_area (lg_start st) \<longrightarrow> disk st' m = v m) \<and>
    (\<forall>k nlog. \<exists>st2. boot ROOTDEV (lg_start st) nlog (st\<lparr>disk := crash st v k\<rparr>) = Ok st2 \<and>
       (\<forall>m. m \<notin> log_area (lg_start st) \<longrightarrow> disk st2 m = (if k \<le> log_len st then disk st m else v m)))"
proof -
  let ?s = "lg_start st" and ?c = "st\<lparr>lg_outstanding := 0, lg_committing := True\<rparr>"
  have p': "pending ?c v" "0 < log_len ?c" "commit_writes ?c v = commit_writes st v"
    using p n by (simp_all add: pending_def log_homes_def log_len_def cache_def has_buf_def commit_writes_def
        log_copies_def home_copies_def full_hdr_def empty_hdr_def)
  obtain c where c: "commit ?c = Ok c" "dwrites c = dwrites st @ commit_writes st v"
      "disk c = apply_writes (commit_writes st v) (disk st)"
    using commit_ok [OF p'(1,2)] p'(3) by auto
  have "disk c = crash st v (2 * log_len st + 2)"
    using c(3) by (simp add: crash_def commit_writes_def log_copies_def home_copies_def)
  then have new: "disk c m = v m" if "m \<notin> log_area ?s" for m
    using crash_end(2) [OF p order_refl that] by simp
  have "end_op st = Ok (c\<lparr>lg_committing := False\<rparr>)"
    using assms(3,4) c(1) by (simp add: end_op_def Let_def)
  moreover have "\<exists>st2. boot ROOTDEV ?s nlog (st\<lparr>disk := crash st v k\<rparr>) = Ok st2 \<and>
       (\<forall>m. m \<notin> log_area ?s \<longrightarrow> disk st2 m = (if k \<le> log_len st then disk st m else v m))" for k nlog
  proof -
    let ?D = "crash st v k"
    have rec: "log_ok ?s ?D \<and> (\<forall>m. m \<notin> log_area ?s \<longrightarrow>
        apply_writes (recover_writes ?s ?D) ?D m = (if k \<le> log_len st then disk st m else v m))"
    proof -
      consider "k \<le> log_len st" | "2 * log_len st + 2 \<le> k" | "log_len st < k" "k < 2 * log_len st + 2"
        by linarith
      then show ?thesis
      proof cases
        case 1
        then show ?thesis
          using empty_log [of ?D ?s] crash_before [OF p 1] by simp
      next
        case 2
        then show ?thesis
          using empty_log [of ?D ?s] crash_end [OF p 2] 2 by simp
      next
        case 3
        define j where "j = k - (log_len st + 1)"
        have j: "j \<le> log_len st" "k = log_len st + 1 + j"
          using 3 by (simp_all add: j_def)
        have "?D = crash st v (log_len st + 1 + j)"
          using j(2) by simp
        note a = crash_after [OF p j(1) this]
        have "log_ok ?s ?D \<and> recover_writes ?s ?D = home_copies st v"
          using full_log [OF p a(1,2)] by simp
        then show ?thesis
          using a(3) 3(1) by (auto simp: home_copies_value [OF p])
      qed
    qed
    then obtain st2 where "boot ROOTDEV ?s nlog (st\<lparr>disk := ?D\<rparr>) = Ok st2"
        "\<forall>m. m \<noteq> ?s \<longrightarrow> disk st2 m = apply_writes (recover_writes ?s ?D) ?D m"
      using boot_ok [of ?s "st\<lparr>disk := ?D\<rparr>" nlog] by auto
    moreover have "m \<noteq> ?s" if "m \<notin> log_area ?s" for m
      using that log_area_mem(2) by auto
    ultimately show ?thesis
      using rec by auto
  qed
  ultimately show ?thesis
    using c(2) new by (intro exI [of _ "c\<lparr>lg_committing := False\<rparr>"]) simp
qed

section \<open>An example\<close>

definition demo_block :: block where "demo_block = (\<lambda>_. 7)"

definition demo_log :: logst where
  "demo_log = \<lparr>bufs = (\<lambda>_. zero_buf)(0 := zero_buf\<lparr>b_valid := True, b_dev := 1, b_blockno := 50, b_refcnt := 1, b_data := demo_block\<rparr>),
     lru = [0..<NBUF], disk = (\<lambda>_ _. 0), dwrites = [], curpid = 1, lg_start = 2, lg_size = 30,
     lg_outstanding = 1, lg_committing = False, lg_dev = 1, lg_n = 1, lg_block = (\<lambda>_. 50)\<rparr>"

lemma demo_log_len: "log_len demo_log = 1" "log_homes demo_log = {50}"
  by (simp_all add: log_homes_def log_len_def demo_log_def rounds_def)

lemma load_le_zero [simp]: "load_le (\<lambda>_. 0) a k = 0"
  by (rule bit_word_eqI) (simp add: bit_load_le)

lemma demo_log_pending: "pending demo_log ((\<lambda>_ _. 0)(50 := demo_block))"
proof -
  let ?v = "(\<lambda>_ _. 0)(50 := demo_block) :: u32 \<Rightarrow> block"
  let ?r = "\<lambda>m. if m \<in> log_homes demo_log then 1 else 0 :: nat"
  have "buf_ok 1 ?r {} ?v (bufs demo_log k)" for k
    unfolding demo_log_len by (simp add: demo_log_def buf_ok_def zero_buf_def ROOTDEV_def)
  moreover have hb: "has_buf demo_log k n \<longleftrightarrow> k = 0 \<and> n = 50" for k n
    by (auto simp: has_buf_def demo_log_def zero_buf_def ROOTDEV_def NBUF_simp)
  ultimately have "cache demo_log ?r {} ?v"
    unfolding cache_def hb demo_log_len by (auto simp: demo_log_def)
  moreover have "50 \<notin> log_area 2"
  proof -
    have "log_blk 2 i \<noteq> 50" if "i < LOGSIZE" for i
      using unat_log_blk [of 2 i] that by (auto simp: LOGSIZE_simp)
    then show ?thesis
      by (auto simp: log_area_def)
  qed
  ultimately show ?thesis
    unfolding pending_def demo_log_len
    by (simp add: demo_log_def ROOTDEV_def NBUF_simp LOGSIZE_simp hdr_n_def)
qed

theorem commit_is_atomic_witness:
  "\<exists>st' st2. end_op demo_log = Ok st' \<and> disk st' 50 = demo_block \<and>
     boot ROOTDEV 2 30 (demo_log\<lparr>disk := crash demo_log ((\<lambda>_ _. 0)(50 := demo_block)) 1\<rparr>) = Ok st2 \<and>
     disk st2 50 = (\<lambda>_. 0)"
proof -
  let ?v = "(\<lambda>_ _. 0)(50 := demo_block) :: u32 \<Rightarrow> block"
  have start: "lg_start demo_log = 2" "disk demo_log = (\<lambda>_ _. 0)"
    by (simp_all add: demo_log_def)
  have "50 \<notin> log_area 2"
    using pendingD(5) [OF demo_log_pending, of 0] demo_log_len(1) by (simp add: demo_log_def)
  then show ?thesis
    using commit_is_atomic [OF demo_log_pending] demo_log_len(1) start by (fastforce simp: demo_log_def)
qed

end
