(* ===== verification/Xv6_Blocking.thy ===== *)
theory Xv6_Blocking
  imports Xv6_Sched_System Xv6_Vm_Theorems
begin

text \<open>
  What the drivers and the pipes share: waking and sleeping with the lock of an object held, and
  moving single bytes between the kernel and a process.
\<close>

section \<open>Waking and sleeping\<close>

text \<open>What the processes that wait on a channel become when another one wakes them.\<close>

definition woken :: "nat \<Rightarrow> chan \<Rightarrow> 'z machine_scheme \<Rightarrow> 'z machine_scheme \<Rightarrow> bool" where
  "woken i ch st st' \<longleftrightarrow>
     (\<forall>q < NPROC. myproc i st \<noteq> Some q \<longrightarrow> p_state (procs st q) = SLEEPING \<longrightarrow>
        p_chan (procs st q) = Some ch \<longrightarrow> p_state (procs st' q) = RUNNABLE)"

definition waits :: "nat \<Rightarrow> chan \<Rightarrow> 'z machine_scheme \<Rightarrow> bool" where
  "waits p ch st \<longleftrightarrow> p_state (procs st p) = SLEEPING \<and> p_chan (procs st p) = Some ch"

lemma killed_inside:
  "quiet st \<Longrightarrow> killed i p (acq i (ObjLock a) st) = Ok (p_killed (procs st p), acq i (ObjLock a) st)"
  by (simp add: killed_def lock_rules quietD)

lemma wake_release:
  assumes "quiet st"
  shows "\<exists>st'. rbind (wakeup i (Some ch) (acq i (ObjLock a) st)) (release i (ObjLock a)) = Ok st' \<and>
    quiet st' \<and> ph st' = ph st \<and> woken i ch st st'"
  using wakeup_inside [OF assms, of "ObjLock a" i "Some ch"] assms
  by (auto simp: lock_rules quietD woken_def on_range_def wake_if_def wake_def)

lemma sleep_release:
  assumes "quiet st" and "myproc i st = Some p"
  shows "\<exists>st'. sleep i ch (ObjLock a) (acq i (ObjLock a) st) = Ok st' \<and> ph st' = ph st \<and> waits p ch st' \<and>
    lks st' (ObjLock a) = lks st (ObjLock a) \<and> (\<forall>q. q \<noteq> p \<longrightarrow> procs st' q = procs st q)"
  using assms noff_step(1) [of "noff (cpus st i)"]
  by (simp add: sleep_def lock_rules quietD sched_def waits_def word_unat_eq_iff)


lemma wake_sleep:
  assumes "quiet st" and "myproc i st = Some p"
  shows "\<exists>st'. rbind (wakeup i (Some ch) (acq i (ObjLock a) st)) (sleep i ch' (ObjLock a)) = Ok st' \<and>
    ph st' = ph st \<and> waits p ch' st' \<and> woken i ch st st' \<and> lock_free (lks st' (ObjLock a))"
proof -
  let ?st = "st\<lparr>procs := on_range 0 NPROC (wake_if (myproc i st) (Some ch) (ticks st)) (procs st)\<rparr>"
  obtain st' where "sleep i ch' (ObjLock a) (acq i (ObjLock a) ?st) = Ok st'" "ph st' = ph st"
    "waits p ch' st'" "lks st' (ObjLock a) = lks st (ObjLock a)" "\<forall>q. q \<noteq> p \<longrightarrow> procs st' q = procs ?st q"
    using sleep_release [of ?st i p ch' a] assms by auto
  then show ?thesis
    using wakeup_inside [OF assms(1), of "ObjLock a" i "Some ch"] assms quietD(1) [OF assms(1)]
    by (auto simp: woken_def on_range_def wake_if_def wake_def)
qed

section \<open>Single bytes\<close>

lemma copyin_byte:
  assumes "user_space s pt fs A"
  shows "copyin pt va (Suc 0) s = Ok (if uacc (pmem s) pt va then (0, [ubyte (pmem s) pt va]) else (- 1, []))"
  using copyin_result [OF assms, of 1 va "[]"]
  by (auto simp: copyin_def ubytes_def)

lemma copyout_byte:
  assumes "user_space s pt fs A"
  shows "\<exists>s'. copyout pt va [c] s = Ok (if uwritable (pmem s) pt va then 0 else - 1, s') \<and>
    user_space s' pt fs A \<and> written (pmem s) (pmem s') pt A va (if uwritable (pmem s) pt va then [c] else [])"
proof -
  obtain r s' where r: "copyout pt va [c] s = Ok (r, s')" "out_result pt s fs A va [c] r s'"
    using copyout_result [OF assms] by blast
  then obtain n where n: "n \<le> 1" "written (pmem s) (pmem s') pt A va (take n [c])" "user_space s' pt fs A"
    "\<forall>i<n. uwritable (pmem s) pt (va + of_nat i)"
    "r = 0 \<and> n = 1 \<or> r = - 1 \<and> n = 0 \<and> \<not> uwritable (pmem s) pt va"
    by (auto simp: out_result_def)
  then show ?thesis
    using r(1) by (auto simp: le_Suc_eq)
qed

lemma next_addr:
  assumes "uwritable m pt va"
  shows "unat (va + 1) = unat va + 1"
proof -
  have "unat va < 0x4000000000"
    using assms by (simp add: uwritable_def uacc_def word_less_nat_alt)
  then show ?thesis
    by (simp add: unat_word_ariths(1))
qed

lemma written_nil: "written m m pt A va []"
  by (auto simp: written_def)

lemma small_int: "j \<le> nat (sint (n :: c_int)) \<Longrightarrow> unat (of_nat j :: c_int) = j \<and> (of_nat j :: c_int) \<noteq> - 1"
proof -
  assume "j \<le> nat (sint n)"
  then have "j < 2 ^ 31"
    using sint_lt [of n] by simp
  then have u: "unat (of_nat j :: c_int) = j"
    by (simp add: unat_of_nat)
  moreover have "(of_nat j :: c_int) \<noteq> - 1"
  proof
    assume "(of_nat j :: c_int) = - 1"
    then have "j = unat (- 1 :: c_int)"
      using u by simp
    then show False
      using \<open>j < 2 ^ 31\<close> by (simp add: unsigned_minus_1_eq_mask mask_eq_exp_minus_1)
  qed
  ultimately show ?thesis
    by blast
qed

section \<open>A process for examples\<close>

text \<open>The machine of the examples with a process that runs on the small address space.\<close>

definition demo_writer :: machine where
  "demo_writer = (demo_machine 0)\<lparr>
     cpus := (\<lambda>_. idle_cpu)(0 := idle_cpu\<lparr>cproc := Some 2\<rparr>),
     procs := demo_procs(2 := (demo_proc RUNNING 1 10 9)\<lparr>p_pagetable := demo_root\<rparr>), ph := demo_phys\<rparr>"

lemma demo_writer:
  "quiet demo_writer" "myproc 0 demo_writer = Some 2" "p_killed (procs demo_writer 2) = 0"
  "user_space (ph demo_writer) (p_pagetable (procs demo_writer 2)) [0x87FF4000] {0}"
  using demo_user_space
  by (simp_all add: demo_writer_def quiet_def demo_machine_def lock_free_def idle_cpu_def myproc_def demo_proc_def)

end
