(* ===== verification/Xv6_Ring.thy ===== *)
theory Xv6_Ring
  imports Xv6_Prelude
begin

text \<open>
  Ring buffers as the kernel uses them for pipes, console input and serial output: a buffer of
  \<open>cap\<close> bytes and two counters that only ever grow, modulo the width of the counter. The byte with
  number \<open>k\<close> is at index \<open>k\<close> modulo \<open>cap\<close>. Because \<open>cap\<close> divides the range of the counters, nothing
  changes when they wrap around.
\<close>

text \<open>Moving one counter towards the other one shrinks their distance.\<close>

lemma distance_less:
  fixes a b :: "'w::len word"
  assumes "a \<noteq> b"
  shows "unat (a - (b + 1)) < unat (a - b)" "unat (a - 1 - b) < unat (a - b)"
proof -
  have pos: "0 < unat (a - b)"
    using assms by (simp add: unat_gt_0)
  then have "unat (a - b - 1) = unat (a - b) - 1"
    using unat_sub [of 1 "a - b"] by (simp add: word_le_nat_alt)
  then have "unat (a - b - 1) < unat (a - b)"
    using pos by linarith
  moreover have "a - (b + 1) = a - b - 1" "a - 1 - b = a - b - 1"
    by simp_all
  ultimately show "unat (a - (b + 1)) < unat (a - b)" "unat (a - 1 - b) < unat (a - b)"
    by (simp_all only:)
qed

locale ring =
  fixes cap :: nat and ctr :: "'w::len itself"
  assumes cap_pos: "0 < cap" and cap_dvd: "cap dvd 2 ^ LENGTH('w)" and cap_less: "cap < 2 ^ LENGTH('w)"
begin

definition used :: "'w word \<Rightarrow> 'w word \<Rightarrow> nat" where
  "used r w = unat (w - r)"

definition contents :: "(nat \<Rightarrow> 'b) \<Rightarrow> 'w word \<Rightarrow> 'w word \<Rightarrow> 'b list" where
  "contents buf r w = map (\<lambda>i. buf (unat (r + of_nat i) mod cap)) [0..<used r w]"

definition ring_ok :: "'w word \<Rightarrow> 'w word \<Rightarrow> bool" where
  "ring_ok r w \<longleftrightarrow> used r w \<le> cap"

lemma length_contents [simp]: "length (contents buf r w) = used r w"
  by (simp add: contents_def)

lemma used_self [simp]: "used r r = 0"
  by (simp add: used_def)

lemma contents_empty [simp]: "contents buf r r = []"
  by (simp add: contents_def)

lemma used_zero: "used r w = 0 \<longleftrightarrow> r = w"
  by (simp add: used_def unat_eq_zero) (metis right_minus_eq)

lemma nat_mod_cap: "unat (of_nat n :: 'w word) mod cap = n mod cap"
  by (simp add: unat_of_nat mod_mod_cancel [OF cap_dvd])

lemma index: "unat (r + of_nat i :: 'w word) mod cap = (unat r + i) mod cap"
proof -
  have "r + of_nat i = (of_nat (unat r + i) :: 'w word)"
    by simp
  then show ?thesis
    by (simp only: nat_mod_cap)
qed

lemma of_nat_used [simp]: "r + of_nat (used r w) = w"
  by (simp add: used_def)

lemma full_iff: "w = r + of_nat cap \<longleftrightarrow> used r w = cap"
proof
  assume "w = r + of_nat cap"
  then show "used r w = cap"
    using cap_less by (simp add: used_def unat_of_nat)
next
  assume "used r w = cap"
  then show "w = r + of_nat cap"
    by (metis of_nat_used)
qed

lemma used_push: "used r w < cap \<Longrightarrow> used r (w + 1) = used r w + 1"
proof -
  assume "used r w < cap"
  then have "unat (w - r) + 1 < 2 ^ LENGTH('w)"
    using cap_less by (simp add: used_def)
  moreover have "w + 1 - r = (w - r) + 1"
    by simp
  ultimately show ?thesis
    by (simp only: used_def unat_word_ariths) simp
qed

lemma used_pop: "0 < used r w \<Longrightarrow> used (r + 1) w = used r w - 1"
proof -
  assume u: "0 < used r w"
  then have le: "1 \<le> w - r"
    by (simp add: used_def word_le_nat_alt)
  have "w - (r + 1) = (w - r) - 1"
    by simp
  then show ?thesis
    unfolding used_def using unat_sub [OF le] by (simp only: unat_1)
qed

lemma contents_push:
  assumes "used r w < cap"
  shows "contents (buf(unat w mod cap := c)) r (w + 1) = contents buf r w @ [c]"
proof -
  have w: "unat w mod cap = (unat r + used r w) mod cap"
    using index [of r "used r w"] by simp
  have ne: "(unat r + i) mod cap \<noteq> (unat r + used r w) mod cap" if "i < used r w" for i
  proof
    assume "(unat r + i) mod cap = (unat r + used r w) mod cap"
    then have "i mod cap = used r w mod cap"
      by (simp add: nat_mod_eq_iff)
    then show False
      using that assms by simp
  qed
  have "map (\<lambda>i. (buf(unat w mod cap := c)) (unat (r + of_nat i) mod cap)) [0..<used r w] = contents buf r w"
    unfolding contents_def index w using ne by (intro map_cong) auto
  then show ?thesis
    unfolding contents_def [of _ r "w + 1"] used_push [OF assms] by (simp add: index w)
qed

lemma contents_pop:
  assumes "0 < used r w"
  shows "contents buf r w = buf (unat r mod cap) # contents buf (r + 1) w"
proof -
  have "[0..<used r w] = 0 # map Suc [0..<used (r + 1) w]"
    using assms by (simp add: used_pop upt_conv_Cons map_Suc_upt)
  then show ?thesis
    unfolding contents_def [of buf r w] contents_def [of buf "r + 1" w] by (simp add: add.assoc)
qed

text \<open>A slot outside the contents, and giving back the newest byte.\<close>

lemma contents_update_outside:
  assumes "used r w \<le> j" and "j < cap"
  shows "contents (buf((unat r + j) mod cap := c)) r w = contents buf r w"
proof -
  have "(unat r + i) mod cap \<noteq> (unat r + j) mod cap" if "i < used r w" for i
  proof
    assume "(unat r + i) mod cap = (unat r + j) mod cap"
    then have "i mod cap = j mod cap"
      by (simp add: nat_mod_eq_iff)
    then show False
      using that assms by simp
  qed
  then show ?thesis
    unfolding contents_def index by (intro map_cong) auto
qed

lemma contents_unpush:
  assumes "0 < used r w"
  shows "contents buf r (w - 1) = butlast (contents buf r w)"
proof -
  have "1 \<le> w - r"
    using assms by (simp add: used_def word_le_nat_alt)
  moreover have "w - 1 - r = (w - r) - 1"
    by simp
  ultimately have "used r (w - 1) = used r w - 1"
    unfolding used_def using unat_sub [of 1 "w - r"] by (simp only: unat_1)
  then show ?thesis
    by (simp add: contents_def butlast_conv_take take_map)
qed

text \<open>Three counters in order, as of the console: read, write and edit.\<close>

lemma used_add:
  assumes "used r w + used w e < 2 ^ LENGTH('w)"
  shows "used r e = used r w + used w e"
proof -
  have "e - r = (w - r) + (e - w)"
    by simp
  then show ?thesis
    using assms by (simp only: used_def unat_word_ariths) simp
qed

lemma contents_append:
  assumes "used r w + used w e < 2 ^ LENGTH('w)"
  shows "contents buf r e = contents buf r w @ contents buf w e"
proof (rule nth_equalityI)
  have u: "used r e = used r w + used w e"
    using used_add [OF assms] .
  then show "length (contents buf r e) = length (contents buf r w @ contents buf w e)"
    by simp
  fix i
  assume i: "i < length (contents buf r e)"
  have shift: "r + of_nat i = w + of_nat (i - used r w)" if "\<not> i < used r w"
  proof -
    have "r + of_nat (used r w + (i - used r w)) = (r + of_nat (used r w)) + of_nat (i - used r w)"
      by (simp only: of_nat_add add.assoc)
    then show ?thesis
      using that by simp
  qed
  show "contents buf r e ! i = (contents buf r w @ contents buf w e) ! i"
  proof (cases "i < used r w")
    case True
    then show ?thesis
      using u by (simp add: nth_append contents_def)
  next
    case False
    then have "i - used r w < used w e"
      using i u by simp
    then show ?thesis
      using i False by (simp add: nth_append) (simp add: contents_def shift)
  qed
qed

lemma ring_ok_push: "used r w < cap \<Longrightarrow> ring_ok r (w + 1)"
  by (simp add: ring_ok_def used_push)

lemma ring_ok_pop: "ring_ok r w \<Longrightarrow> 0 < used r w \<Longrightarrow> ring_ok (r + 1) w"
  by (simp add: ring_ok_def used_pop)

lemma ring_ok_self [simp]: "ring_ok r r"
  by (simp add: ring_ok_def)

end

end
