(* ===== verification/Xv6_Pipe.thy ===== *)
theory Xv6_Pipe
  imports Xv6_Blocking Xv6_Ring
begin

text \<open>
  Pipes, \<^verbatim>\<open>kernel/pipe.c\<close>. A \<^verbatim>\<open>struct pipe\<close> lives in a page of its own; the functions take its
  address \<open>pi\<close>, which names its lock and its two channels, and its contents as a record. A call
  that goes to sleep ends at the switch, with the number of bytes it has moved so far; a process
  that is woken takes the lock and continues from there. \<^verbatim>\<open>pipealloc\<close> is with the file table.
\<close>

section \<open>Code\<close>

definition PIPESIZE :: nat where "PIPESIZE = 512"

record pipe =
  pi_data :: "nat \<Rightarrow> u8"
  pi_nread :: u32
  pi_nwrite :: u32
  pi_readopen :: bool
  pi_writeopen :: bool

definition ch_nread :: "u64 \<Rightarrow> chan" where "ch_nread pi = ChObj (pi + 536)"

definition ch_nwrite :: "u64 \<Rightarrow> chan" where "ch_nwrite pi = ChObj (pi + 540)"

definition new_pipe :: "pipe \<Rightarrow> pipe" where
  "new_pipe pp = pp\<lparr>pi_readopen := True, pi_writeopen := True, pi_nwrite := 0, pi_nread := 0\<rparr>"

definition pipeclose :: "nat \<Rightarrow> u64 \<Rightarrow> bool \<Rightarrow> pipe \<Rightarrow> machine \<Rightarrow> (pipe \<times> machine) res" where
  "pipeclose i pi writable pp st =
     rbind (acquire i (ObjLock pi) st) (\<lambda>st.
       let pp = (if writable then pp\<lparr>pi_writeopen := False\<rparr> else pp\<lparr>pi_readopen := False\<rparr>) in
       rbind (wakeup i (Some (if writable then ch_nread pi else ch_nwrite pi)) st) (\<lambda>st.
       rbind (release i (ObjLock pi) st) (\<lambda>st.
         if \<not> pi_readopen pp \<and> \<not> pi_writeopen pp
         then rbind (kfree pi (ph st)) (\<lambda>s. Ok (pp, st\<lparr>ph := s\<rparr>))
         else Ok (pp, st))))"

text \<open>
  The loop of \<^verbatim>\<open>pipewrite\<close>, with the lock held: \<open>k\<close> bytes are written and \<open>r\<close> remain. The result is
  \<open>Inl v\<close> when the call returns \<open>v\<close>, and \<open>Inr k\<close> when it sleeps after \<open>k\<close> bytes.
\<close>

definition pipewrite_done :: "nat \<Rightarrow> u64 \<Rightarrow> nat \<Rightarrow> pipe \<Rightarrow> machine \<Rightarrow> ((c_int + nat) \<times> pipe \<times> machine) res" where
  "pipewrite_done i pi k pp st =
     rbind (wakeup i (Some (ch_nread pi)) st) (\<lambda>st.
     rbind (release i (ObjLock pi) st) (\<lambda>st. Ok (Inl (of_nat k), pp, st)))"

fun pipewrite_loop ::
  "nat \<Rightarrow> nat \<Rightarrow> u64 \<Rightarrow> u64 \<Rightarrow> nat \<Rightarrow> nat \<Rightarrow> pipe \<Rightarrow> machine \<Rightarrow> ((c_int + nat) \<times> pipe \<times> machine) res"
where
  "pipewrite_loop i p pi addr k 0 pp st = pipewrite_done i pi k pp st"
| "pipewrite_loop i p pi addr k (Suc r) pp st =
     rbind (if \<not> pi_readopen pp then Ok (1, st) else killed i p st) (\<lambda>(dead, st).
       if dead \<noteq> 0 then rbind (release i (ObjLock pi) st) (\<lambda>st. Ok (Inl (- 1), pp, st))
       else if pi_nwrite pp = pi_nread pp + of_nat PIPESIZE then
         rbind (wakeup i (Some (ch_nread pi)) st) (\<lambda>st.
         rbind (sleep i (ch_nwrite pi) (ObjLock pi) st) (\<lambda>st. Ok (Inr k, pp, st)))
       else
         rbind (copyin (p_pagetable (procs st p)) (addr + of_nat k) 1 (ph st)) (\<lambda>(c, bs).
           if c = - 1 then pipewrite_done i pi k pp st
           else
             pipewrite_loop i p pi addr (Suc k) r
               (pp\<lparr>pi_data := (pi_data pp)(unat (pi_nwrite pp) mod PIPESIZE := bs ! 0),
                  pi_nwrite := pi_nwrite pp + 1\<rparr>) st))"

text \<open>\<open>pipewrite_from\<close> enters the loop after \<open>k\<close> bytes: at the call with 0, after a sleep with its result.\<close>

definition pipewrite_from ::
  "nat \<Rightarrow> u64 \<Rightarrow> u64 \<Rightarrow> c_int \<Rightarrow> nat \<Rightarrow> pipe \<Rightarrow> machine \<Rightarrow> ((c_int + nat) \<times> pipe \<times> machine) res" where
  "pipewrite_from i pi addr n k pp st =
     (case myproc i st of None \<Rightarrow> Stuck
      | Some p \<Rightarrow>
        rbind (acquire i (ObjLock pi) st) (\<lambda>st. pipewrite_loop i p pi addr k (nat (sint n) - k) pp st))"

definition pipewrite ::
  "nat \<Rightarrow> u64 \<Rightarrow> u64 \<Rightarrow> c_int \<Rightarrow> pipe \<Rightarrow> machine \<Rightarrow> ((c_int + nat) \<times> pipe \<times> machine) res" where
  "pipewrite i pi addr n pp st = pipewrite_from i pi addr n 0 pp st"

text \<open>The second loop of \<^verbatim>\<open>piperead\<close>: \<open>k\<close> bytes are copied out and \<open>r\<close> remain.\<close>

fun piperead_copy :: "nat \<Rightarrow> u64 \<Rightarrow> nat \<Rightarrow> nat \<Rightarrow> pipe \<Rightarrow> machine \<Rightarrow> (nat \<times> pipe \<times> machine) res" where
  "piperead_copy p addr k 0 pp st = Ok (k, pp, st)"
| "piperead_copy p addr k (Suc r) pp st =
     (if pi_nread pp = pi_nwrite pp then Ok (k, pp, st)
      else
        let ch = pi_data pp (unat (pi_nread pp) mod PIPESIZE);
            pp = pp\<lparr>pi_nread := pi_nread pp + 1\<rparr>
        in rbind (copyout (p_pagetable (procs st p)) (addr + of_nat k) [ch] (ph st)) (\<lambda>(c, s).
             let st = st\<lparr>ph := s\<rparr> in
             if c = - 1 then Ok (k, pp, st) else piperead_copy p addr (Suc k) r pp st))"

text \<open>
  \<^verbatim>\<open>piperead\<close>, at the call and again after each sleep: \<open>Inl v\<close> when it returns \<open>v\<close>, \<open>Inr ()\<close> when it
  sleeps for data.
\<close>

definition piperead ::
  "nat \<Rightarrow> u64 \<Rightarrow> u64 \<Rightarrow> c_int \<Rightarrow> pipe \<Rightarrow> machine \<Rightarrow> ((c_int + unit) \<times> pipe \<times> machine) res" where
  "piperead i pi addr n pp st =
     (case myproc i st of None \<Rightarrow> Stuck
      | Some p \<Rightarrow>
        rbind (acquire i (ObjLock pi) st) (\<lambda>st.
          if pi_nread pp = pi_nwrite pp \<and> pi_writeopen pp then
            rbind (killed i p st) (\<lambda>(dead, st).
              if dead \<noteq> 0 then rbind (release i (ObjLock pi) st) (\<lambda>st. Ok (Inl (- 1), pp, st))
              else rbind (sleep i (ch_nread pi) (ObjLock pi) st) (\<lambda>st. Ok (Inr (), pp, st)))
          else
            rbind (piperead_copy p addr 0 (nat (sint n)) pp st) (\<lambda>(k, pp, st).
            rbind (wakeup i (Some (ch_nwrite pi)) st) (\<lambda>st.
            rbind (release i (ObjLock pi) st) (\<lambda>st. Ok (Inl (of_nat k), pp, st))))))"


section \<open>A pipe is a bounded queue\<close>

interpretation pipe_ring: ring PIPESIZE "TYPE(32)"
proof
  show "PIPESIZE dvd 2 ^ LENGTH(32)"
    by (simp add: PIPESIZE_def)
qed (simp_all add: PIPESIZE_def)

definition pipe_queue :: "pipe \<Rightarrow> u8 list" where
  "pipe_queue pp = pipe_ring.contents (pi_data pp) (pi_nread pp) (pi_nwrite pp)"

definition pipe_ok :: "pipe \<Rightarrow> bool" where
  "pipe_ok pp \<longleftrightarrow> pipe_ring.ring_ok (pi_nread pp) (pi_nwrite pp)"

lemma pipe_ok_length: "pipe_ok pp \<longleftrightarrow> length (pipe_queue pp) \<le> PIPESIZE"
  by (simp add: pipe_ok_def pipe_queue_def pipe_ring.ring_ok_def)

lemma pipe_empty: "pi_nread pp = pi_nwrite pp \<longleftrightarrow> pipe_queue pp = []"
proof -
  have "pipe_queue pp = [] \<longleftrightarrow> length (pipe_queue pp) = 0"
    by simp
  then show ?thesis
    by (simp only: pipe_queue_def pipe_ring.length_contents pipe_ring.used_zero)
qed

lemma pipe_full: "pi_nwrite pp = pi_nread pp + of_nat PIPESIZE \<longleftrightarrow> length (pipe_queue pp) = PIPESIZE"
  by (simp only: pipe_queue_def pipe_ring.length_contents pipe_ring.full_iff)

definition push_byte :: "u8 \<Rightarrow> pipe \<Rightarrow> pipe" where
  "push_byte c pp = pp\<lparr>pi_data := (pi_data pp)(unat (pi_nwrite pp) mod PIPESIZE := c),
     pi_nwrite := pi_nwrite pp + 1\<rparr>"

lemma push_byte_ends [simp]:
  "pi_readopen (push_byte c pp) = pi_readopen pp" "pi_writeopen (push_byte c pp) = pi_writeopen pp"
  "pi_nread (push_byte c pp) = pi_nread pp"
  by (simp_all add: push_byte_def)

lemma pipe_push:
  assumes "pipe_ok pp" and "pi_nwrite pp \<noteq> pi_nread pp + of_nat PIPESIZE"
  shows "pipe_queue (push_byte c pp) = pipe_queue pp @ [c]" "pipe_ok (push_byte c pp)"
proof -
  have less: "pipe_ring.used (pi_nread pp) (pi_nwrite pp) < PIPESIZE"
    using assms by (simp add: pipe_ok_def pipe_ring.ring_ok_def pipe_ring.full_iff)
  show "pipe_queue (push_byte c pp) = pipe_queue pp @ [c]"
    using pipe_ring.contents_push [OF less] by (simp add: pipe_queue_def push_byte_def)
  show "pipe_ok (push_byte c pp)"
    using pipe_ring.ring_ok_push [OF less] by (simp add: pipe_ok_def push_byte_def)
qed

definition pop_byte :: "pipe \<Rightarrow> pipe" where
  "pop_byte pp = pp\<lparr>pi_nread := pi_nread pp + 1\<rparr>"

lemma pipe_pop:
  assumes "pipe_ok pp" and "pi_nread pp \<noteq> pi_nwrite pp"
  shows "pipe_queue pp = pi_data pp (unat (pi_nread pp) mod PIPESIZE) # pipe_queue (pop_byte pp)"
    "pipe_ok (pop_byte pp)"
proof -
  have pos: "0 < pipe_ring.used (pi_nread pp) (pi_nwrite pp)"
    using assms(2) pipe_ring.used_zero by blast
  show "pipe_queue pp = pi_data pp (unat (pi_nread pp) mod PIPESIZE) # pipe_queue (pop_byte pp)"
    using pipe_ring.contents_pop [OF pos] by (simp add: pipe_queue_def pop_byte_def)
  show "pipe_ok (pop_byte pp)"
    using pipe_ring.ring_ok_pop [OF _ pos] assms(1) by (simp add: pipe_ok_def pop_byte_def)
qed

section \<open>One call\<close>

text \<open>
  The outcome of a stay in \<^verbatim>\<open>pipewrite\<close> that began after \<open>k\<close> bytes with \<open>r\<close> to go and moved \<open>j\<close>. The
  call fails at once when nobody can read or the caller is killed; it sleeps only on a full pipe;
  it ends early only at an address the caller cannot read. Waiting readers are woken in both of the
  last two cases.
\<close>

definition write_outcome ::
  "nat \<Rightarrow> nat \<Rightarrow> u64 \<Rightarrow> u64 \<Rightarrow> nat \<Rightarrow> nat \<Rightarrow> nat \<Rightarrow> machine \<Rightarrow> c_int + nat \<Rightarrow> pipe \<Rightarrow> machine \<Rightarrow> bool" where
  "write_outcome i p pi addr k r j st x pp' st' \<longleftrightarrow>
     (case x of
        Inl v \<Rightarrow> quiet st' \<and>
          (v = - 1 \<and> j = 0 \<and> 0 < r \<and> (\<not> pi_readopen pp' \<or> p_killed (procs st p) \<noteq> 0) \<or>
           v = of_nat (k + j) \<and> woken i (ch_nread pi) st st' \<and>
           (j = r \<or> \<not> uacc (pmem (ph st)) (p_pagetable (procs st p)) (addr + of_nat (k + j))))
      | Inr k' \<Rightarrow> k' = k + j \<and> j < r \<and> length (pipe_queue pp') = PIPESIZE \<and> waits p (ch_nwrite pi) st' \<and>
          woken i (ch_nread pi) st st' \<and> lock_free (lks st' (ObjLock pi)))"

lemma pipewrite_done_ok:
  assumes "quiet st"
  shows "\<exists>st'. pipewrite_done i pi k pp (acq i (ObjLock pi) st) = Ok (Inl (of_nat k), pp, st') \<and>
    quiet st' \<and> ph st' = ph st \<and> woken i (ch_nread pi) st st'"
proof -
  obtain st' where st': "rbind (wakeup i (Some (ch_nread pi)) (acq i (ObjLock pi) st)) (release i (ObjLock pi)) = Ok st'"
    "quiet st' \<and> ph st' = ph st \<and> woken i (ch_nread pi) st st'"
    using wake_release [OF assms] by blast
  then show ?thesis
    by (auto simp: pipewrite_done_def rbind_assoc [symmetric])
qed

lemma pipewrite_loop_ok:
  assumes q: "quiet st" and p: "myproc i st = Some p"
    and us: "user_space (ph st) (p_pagetable (procs st p)) fs A"
  shows "pipe_ok pp \<Longrightarrow>
   \<exists>x pp' st' j. pipewrite_loop i p pi addr k r pp (acq i (ObjLock pi) st) = Ok (x, pp', st') \<and> j \<le> r \<and>
     pipe_queue pp' = pipe_queue pp @ ubytes (pmem (ph st)) (p_pagetable (procs st p)) (addr + of_nat k) j \<and>
     pipe_ok pp' \<and> pi_readopen pp' = pi_readopen pp \<and> pi_writeopen pp' = pi_writeopen pp \<and> ph st' = ph st \<and>
     write_outcome i p pi addr k r j st x pp' st'"
proof (induction r arbitrary: k pp)
  case 0
  then show ?case
    using pipewrite_done_ok [OF q, of i pi k pp] by (auto simp: write_outcome_def ubytes_def)
next
  case (Suc r)
  let ?m = "pmem (ph st)" and ?pt = "p_pagetable (procs st p)" and ?l = "ObjLock pi"
  consider (dead) "\<not> pi_readopen pp \<or> p_killed (procs st p) \<noteq> 0"
    | (full) "pi_readopen pp" "p_killed (procs st p) = 0" "pi_nwrite pp = pi_nread pp + of_nat PIPESIZE"
    | (bad) "pi_readopen pp" "p_killed (procs st p) = 0" "pi_nwrite pp \<noteq> pi_nread pp + of_nat PIPESIZE"
        "\<not> uacc ?m ?pt (addr + of_nat k)"
    | (move) "pi_readopen pp" "p_killed (procs st p) = 0" "pi_nwrite pp \<noteq> pi_nread pp + of_nat PIPESIZE"
        "uacc ?m ?pt (addr + of_nat k)"
    by blast
  then show ?case
  proof cases
    case dead
    then have "pipewrite_loop i p pi addr k (Suc r) pp (acq i ?l st) = Ok (Inl (- 1), pp, settled True i st)"
      using q by (cases "pi_readopen pp") (simp_all add: killed_inside lock_rules quietD)
    then show ?thesis
      using dead q Suc.prems by (auto simp: write_outcome_def ubytes_def intro!: exI [of _ "0::nat"])
  next
    case full
    obtain st' where st': "rbind (wakeup i (Some (ch_nread pi)) (acq i ?l st)) (sleep i (ch_nwrite pi) ?l) = Ok st'"
      "ph st' = ph st" "waits p (ch_nwrite pi) st'" "woken i (ch_nread pi) st st'" "lock_free (lks st' ?l)"
      using wake_sleep [OF q p] by blast
    then have "pipewrite_loop i p pi addr k (Suc r) pp (acq i ?l st) = Ok (Inr k, pp, st')"
      using full q by (simp add: killed_inside rbind_assoc [symmetric])
    then show ?thesis
      using full st' Suc.prems by (auto simp: write_outcome_def ubytes_def pipe_full intro!: exI [of _ "0::nat"])
  next
    case bad
    then have "pipewrite_loop i p pi addr k (Suc r) pp (acq i ?l st) = pipewrite_done i pi k pp (acq i ?l st)"
      using q by (simp add: killed_inside copyin_byte [OF us])
    then show ?thesis
      using bad Suc.prems pipewrite_done_ok [OF q, of i pi k pp]
      by (auto simp: write_outcome_def ubytes_def intro!: exI [of _ "0::nat"])
  next
    case move
    let ?c = "ubyte ?m ?pt (addr + of_nat k)"
    have eq: "pipewrite_loop i p pi addr k (Suc r) pp (acq i ?l st) =
        pipewrite_loop i p pi addr (Suc k) r (push_byte ?c pp) (acq i ?l st)"
      using move q by (simp add: killed_inside copyin_byte [OF us] push_byte_def)
    have next_bytes: "ubytes ?m ?pt (addr + of_nat k) (Suc j) = ?c # ubytes ?m ?pt (addr + of_nat (Suc k)) j" for j
      using ubytes_add [of ?m ?pt "addr + of_nat k" 1 j] by (simp add: ubytes_def ac_simps)
    obtain x pp' st' j where "pipewrite_loop i p pi addr (Suc k) r (push_byte ?c pp) (acq i ?l st) = Ok (x, pp', st')"
      "j \<le> r" "pipe_queue pp' = pipe_queue (push_byte ?c pp) @ ubytes ?m ?pt (addr + of_nat (Suc k)) j"
      "pipe_ok pp'" "pi_readopen pp' = pi_readopen pp" "pi_writeopen pp' = pi_writeopen pp" "ph st' = ph st"
      "write_outcome i p pi addr (Suc k) r j st x pp' st'"
      using Suc.IH [OF pipe_push(2) [OF Suc.prems move(3)], of "Suc k" ?c] by auto
    moreover have "write_outcome i p pi addr k (Suc r) (Suc j) st x pp' st'"
      using calculation(8,5) move(1,2) by (auto simp: write_outcome_def split: sum.splits)
    ultimately show ?thesis
      unfolding eq using pipe_push(1) [OF Suc.prems move(3), of ?c]
      by (intro exI [of _ x] exI [of _ pp'] exI [of _ st'] exI [of _ "Suc j"]) (simp add: next_bytes)
  qed
qed


text \<open>
  The copy loop of \<^verbatim>\<open>piperead\<close> moves \<open>j\<close> bytes. It stops early only when the destination is not
  writable, and then it has taken one more byte out of the pipe.
\<close>

definition read_moved :: "u64 \<Rightarrow> u64 \<Rightarrow> nat \<Rightarrow> nat \<Rightarrow> pipe \<Rightarrow> mem \<Rightarrow> pipe \<Rightarrow> bool" where
  "read_moved pt addr r j pp m pp' \<longleftrightarrow>
     j = min r (length (pipe_queue pp)) \<and> pipe_queue pp' = drop j (pipe_queue pp) \<or>
     j < min r (length (pipe_queue pp)) \<and> pipe_queue pp' = drop (Suc j) (pipe_queue pp) \<and>
     \<not> uwritable m pt (addr + of_nat j)"

lemma piperead_copy_ok:
  "user_space (ph st) (p_pagetable (procs st p)) fs A \<Longrightarrow> pipe_ok pp \<Longrightarrow>
   \<exists>j pp' s'. piperead_copy p addr k r pp st = Ok (k + j, pp', st\<lparr>ph := s'\<rparr>) \<and>
     read_moved (p_pagetable (procs st p)) (addr + of_nat k) r j pp (pmem (ph st)) pp' \<and>
     pipe_ok pp' \<and> pi_readopen pp' = pi_readopen pp \<and> pi_writeopen pp' = pi_writeopen pp \<and>
     user_space s' (p_pagetable (procs st p)) fs A \<and>
     (\<forall>i<j. uwritable (pmem (ph st)) (p_pagetable (procs st p)) (addr + of_nat (k + i))) \<and>
     written (pmem (ph st)) (pmem s') (p_pagetable (procs st p)) A (addr + of_nat k) (take j (pipe_queue pp))"
proof (induction r arbitrary: k pp st)
  case 0
  then show ?case
    by (intro exI [of _ 0] exI [of _ pp] exI [of _ "ph st"]) (simp add: read_moved_def written_nil)
next
  case (Suc r)
  let ?pt = "p_pagetable (procs st p)" and ?va = "addr + of_nat k" and ?m = "pmem (ph st)"
  let ?c = "pi_data pp (unat (pi_nread pp) mod PIPESIZE)"
  show ?case
  proof (cases "pi_nread pp = pi_nwrite pp")
    case True
    then have "pipe_queue pp = []"
      by (simp add: pipe_empty)
    then show ?thesis
      using True Suc.prems
      by (intro exI [of _ 0] exI [of _ pp] exI [of _ "ph st"]) (simp add: read_moved_def written_nil)
  next
    case ne: False
    note pop = pipe_pop [OF Suc.prems(2) ne]
    obtain s1 where s1: "copyout ?pt ?va [?c] (ph st) = Ok (if uwritable ?m ?pt ?va then 0 else - 1, s1)"
      "user_space s1 ?pt fs A" "written ?m (pmem s1) ?pt A ?va (if uwritable ?m ?pt ?va then [?c] else [])"
      using copyout_byte [OF Suc.prems(1)] by blast
    show ?thesis
    proof (cases "uwritable ?m ?pt ?va")
      case False
      then have "piperead_copy p addr k (Suc r) pp st = Ok (k, pop_byte pp, st\<lparr>ph := s1\<rparr>)"
        using ne s1(1) by (simp add: pop_byte_def)
      then show ?thesis
        using False s1 pop by (intro exI [of _ 0] exI [of _ "pop_byte pp"] exI [of _ s1])
          (simp add: read_moved_def, simp add: pop_byte_def)
    next
      case True
      let ?st = "st\<lparr>ph := s1\<rparr>"
      have eq: "piperead_copy p addr k (Suc r) pp st = piperead_copy p addr (Suc k) r (pop_byte pp) ?st"
        using True ne s1(1) by (simp add: pop_byte_def)
      obtain j pp' s' where IH: "piperead_copy p addr (Suc k) r (pop_byte pp) ?st = Ok (Suc k + j, pp', st\<lparr>ph := s'\<rparr>)"
        "read_moved ?pt (?va + 1) r j (pop_byte pp) (pmem s1) pp'" "pipe_ok pp'"
        "pi_readopen pp' = pi_readopen pp" "pi_writeopen pp' = pi_writeopen pp" "user_space s' ?pt fs A"
        "\<forall>i<j. uwritable (pmem s1) ?pt (addr + of_nat (Suc k + i))"
        "written (pmem s1) (pmem s') ?pt A (?va + 1) (take j (pipe_queue (pop_byte pp)))"
        using Suc.IH [of ?st "pop_byte pp" "Suc k"] s1(2) pop(2) by (auto simp: pop_byte_def ac_simps)
      have w: "\<And>va. uwritable (pmem s1) ?pt va = uwritable ?m ?pt va"
        using uacc_written(2) [OF s1(3)] .
      have "written ?m (pmem s') ?pt A ?va ([?c] @ take j (pipe_queue (pop_byte pp)))"
        using s1(3) True IH(8) next_addr [OF True] by (intro written_trans [of _ "pmem s1"]) simp_all
      moreover have "read_moved ?pt ?va (Suc r) (Suc j) pp ?m pp'"
        using IH(2) pop(1) by (auto simp: read_moved_def w add.assoc)
      moreover have "uwritable ?m ?pt (addr + of_nat (k + i))" if "i < Suc j" for i
        using that True IH(7) by (cases i) (simp_all add: w)
      ultimately show ?thesis
        unfolding eq using IH pop(1)
        by (intro exI [of _ "Suc j"] exI [of _ pp'] exI [of _ s']) simp
    qed
  qed
qed


section \<open>The properties\<close>

text \<open>
  Claim C24: \<^verbatim>\<open>pipewrite\<close> appends bytes of the caller to the queue, in order and never beyond 512. It
  appends them all, or sleeps with the pipe full, or stops at the first address the caller cannot
  read, or fails when the read end is closed or the caller was killed. Whenever it appends, leaves
  or sleeps, the waiting readers have been woken.
\<close>

theorem pipewrite_appends:
  assumes "quiet st" and "myproc i st = Some p"
    and "user_space (ph st) (p_pagetable (procs st p)) fs A" and "pipe_ok pp"
  shows "\<exists>x pp' st' j. pipewrite_from i pi addr n k pp st = Ok (x, pp', st') \<and> j \<le> nat (sint n) - k \<and>
    pipe_queue pp' = pipe_queue pp @ ubytes (pmem (ph st)) (p_pagetable (procs st p)) (addr + of_nat k) j \<and>
    pipe_ok pp' \<and> pi_readopen pp' = pi_readopen pp \<and> pi_writeopen pp' = pi_writeopen pp \<and> ph st' = ph st \<and>
    write_outcome i p pi addr k (nat (sint n) - k) j st x pp' st'"
  using pipewrite_loop_ok [OF assms, of pi addr k "nat (sint n) - k"] assms(1,2)
  by (simp add: pipewrite_from_def lock_rules quietD)

definition demo_pipe :: pipe where
  "demo_pipe = new_pipe \<lparr>pi_data = (\<lambda>_. 0), pi_nread = 3, pi_nwrite = 9, pi_readopen = False, pi_writeopen = False\<rparr>"

lemma demo_pipe: "pipe_ok demo_pipe" "pipe_queue demo_pipe = []" "pi_readopen demo_pipe" "pi_writeopen demo_pipe"
  by (simp_all add: demo_pipe_def pipe_ok_def pipe_queue_def new_pipe_def)

theorem pipewrite_appends_witness:
  "\<exists>x pp' st' j. pipewrite_from 0 0x87F00000 0x20 5 0 demo_pipe demo_writer = Ok (x, pp', st') \<and> j \<le> 5 \<and>
     pipe_queue pp' = ubytes (pmem demo_phys) demo_root 0x20 j \<and>
     write_outcome 0 2 0x87F00000 0x20 0 5 j demo_writer x pp' st'"
  using pipewrite_appends [OF demo_writer(1,2,4) demo_pipe(1), of "0x87F00000" "0x20" 5 0] demo_pipe(2)
  by (auto simp: demo_writer_def)

lemma piperead_ok:
  assumes "quiet st" and "myproc i st = Some p"
    and "user_space (ph st) (p_pagetable (procs st p)) fs A" and "pipe_ok pp"
  shows "\<exists>x pp' st'. piperead i pi addr n pp st = Ok (x, pp', st') \<and> pipe_ok pp' \<and>
    pi_readopen pp' = pi_readopen pp \<and> pi_writeopen pp' = pi_writeopen pp \<and>
    (if pipe_queue pp = [] \<and> pi_writeopen pp
     then pp' = pp \<and> ph st' = ph st \<and>
       (if p_killed (procs st p) \<noteq> 0 then x = Inl (- 1) \<and> quiet st'
        else x = Inr () \<and> waits p (ch_nread pi) st' \<and> lock_free (lks st' (ObjLock pi)))
     else \<exists>j. x = Inl (of_nat j) \<and> quiet st' \<and> woken i (ch_nwrite pi) st st' \<and>
       read_moved (p_pagetable (procs st p)) addr (nat (sint n)) j pp (pmem (ph st)) pp' \<and>
       ubytes (pmem (ph st')) (p_pagetable (procs st p)) addr j = take j (pipe_queue pp))"
proof (cases "pipe_queue pp = [] \<and> pi_writeopen pp")
  case True
  show ?thesis
  proof (cases "p_killed (procs st p) = 0")
    case alive: True
    obtain st' where "sleep i (ch_nread pi) (ObjLock pi) (acq i (ObjLock pi) st) = Ok st'" "ph st' = ph st"
      "waits p (ch_nread pi) st'" "lks st' (ObjLock pi) = lks st (ObjLock pi)"
      using sleep_release [OF assms(1,2)] by blast
    then show ?thesis
      using True alive assms quietD(1) [OF assms(1)]
      by (simp add: piperead_def pipe_empty killed_inside lock_rules)
  next
    case False
    then show ?thesis
      using True assms by (simp add: piperead_def pipe_empty killed_inside lock_rules quietD)
  qed
next
  case False
  let ?l = "ObjLock pi" and ?pt = "p_pagetable (procs st p)"
  have us: "user_space (ph (acq i ?l st)) (p_pagetable (procs (acq i ?l st) p)) fs A"
    using assms(3) by simp
  obtain j pp' s' where c: "piperead_copy p addr 0 (nat (sint n)) pp (acq i ?l st) = Ok (j, pp', (acq i ?l st)\<lparr>ph := s'\<rparr>)"
    "read_moved ?pt addr (nat (sint n)) j pp (pmem (ph st)) pp'" "pipe_ok pp'"
    "pi_readopen pp' = pi_readopen pp" "pi_writeopen pp' = pi_writeopen pp" "user_space s' ?pt fs A"
    "\<forall>i<j. uwritable (pmem (ph st)) ?pt (addr + of_nat i)"
    "written (pmem (ph st)) (pmem s') ?pt A addr (take j (pipe_queue pp))"
    using piperead_copy_ok [OF us assms(4), of addr 0 "nat (sint n)"] by auto
  have q: "quiet (st\<lparr>ph := s'\<rparr>)"
    using assms(1) by (simp add: quiet_def)
  obtain st' where st': "rbind (wakeup i (Some (ch_nwrite pi)) (acq i ?l (st\<lparr>ph := s'\<rparr>))) (release i ?l) = Ok st'"
    "quiet st'" "ph st' = s'" "woken i (ch_nwrite pi) (st\<lparr>ph := s'\<rparr>) st'"
    using wake_release [OF q, of i "ch_nwrite pi" pi] by auto
  have len: "length (take j (pipe_queue pp)) = j"
    using c(2) by (auto simp: read_moved_def)
  have "ubytes (pmem s') ?pt addr j = take j (pipe_queue pp)"
    using ubytes_written(1) [OF c(8,6)] c(7) unfolding len by simp
  moreover have "(acq i ?l st)\<lparr>ph := s'\<rparr> = acq i ?l (st\<lparr>ph := s'\<rparr>)"
    by (simp add: acq_def)
  moreover have "woken i (ch_nwrite pi) st st'"
    using st'(4) by (simp add: woken_def myproc_def)
  ultimately show ?thesis
    using False assms(1,2) c st'
    by (auto simp: piperead_def pipe_empty lock_rules quietD rbind_assoc [symmetric])
qed


text \<open>
  Claim C25: \<^verbatim>\<open>piperead\<close> on an empty pipe that can still be written fails for a killed caller and sleeps
  for another one. Otherwise it hands the first bytes of the queue to the caller, as many as are
  asked for and present, and wakes the writers; it stops early only at an address the caller cannot
  write, and then the byte that was to go there is lost.
\<close>

theorem piperead_removes:
  assumes "quiet st" and "myproc i st = Some p"
    and "user_space (ph st) (p_pagetable (procs st p)) fs A" and "pipe_ok pp"
  shows "\<exists>x pp' st'. piperead i pi addr n pp st = Ok (x, pp', st') \<and> pipe_ok pp' \<and>
    pi_readopen pp' = pi_readopen pp \<and> pi_writeopen pp' = pi_writeopen pp \<and>
    (if pipe_queue pp = [] \<and> pi_writeopen pp
     then pp' = pp \<and> ph st' = ph st \<and>
       (if p_killed (procs st p) \<noteq> 0 then x = Inl (- 1) \<and> quiet st'
        else x = Inr () \<and> waits p (ch_nread pi) st' \<and> lock_free (lks st' (ObjLock pi)))
     else \<exists>j. x = Inl (of_nat j) \<and> quiet st' \<and> woken i (ch_nwrite pi) st st' \<and>
       read_moved (p_pagetable (procs st p)) addr (nat (sint n)) j pp (pmem (ph st)) pp' \<and>
       ubytes (pmem (ph st')) (p_pagetable (procs st p)) addr j = take j (pipe_queue pp))"
  using piperead_ok [OF assms] .

theorem piperead_removes_witness:
  "\<exists>x pp' st'. piperead 0 0x87F00000 0x20 5 demo_pipe demo_writer = Ok (x, pp', st') \<and>
     x = Inr () \<and> waits 2 (ch_nread 0x87F00000) st'"
  using piperead_removes [OF demo_writer(1,2,4) demo_pipe(1), of "0x87F00000" "0x20" 5] demo_pipe demo_writer(3)
  by auto

text \<open>
  A life of the pipe at \<open>pi\<close>: any processes call its functions in any order, each on the machine as
  it finds it. \<open>w\<close> is all the bytes that writers have handed over, \<open>rs\<close> lists what each read has delivered
  and whether it came to an address its caller cannot write.
\<close>

definition moved :: "c_int + nat \<Rightarrow> nat \<Rightarrow> nat" where
  "moved x k = (case x of Inl v \<Rightarrow> if v = - 1 then 0 else unat v - k | Inr k' \<Rightarrow> k' - k)"

definition got :: "c_int + unit \<Rightarrow> nat" where
  "got x = (case x of Inl v \<Rightarrow> if v = - 1 then 0 else unat v | Inr _ \<Rightarrow> 0)"

definition calls :: "nat \<Rightarrow> nat \<Rightarrow> machine \<Rightarrow> bool" where
  "calls i p st \<longleftrightarrow> quiet st \<and> myproc i st = Some p \<and>
     (\<exists>fs A. user_space (ph st) (p_pagetable (procs st p)) fs A)"

definition faulted :: "machine \<Rightarrow> u64 \<Rightarrow> u64 \<Rightarrow> c_int \<Rightarrow> nat \<Rightarrow> bool" where
  "faulted st pt addr n j \<longleftrightarrow> j < nat (sint n) \<and> \<not> uwritable (pmem (ph st)) pt (addr + of_nat j)"

inductive pipe_run :: "u64 \<Rightarrow> pipe \<Rightarrow> u8 list \<Rightarrow> (u8 list \<times> bool) list \<Rightarrow> bool" for pi where
  run_start: "pipe_run pi (new_pipe pp) [] []"
| run_write: "pipe_run pi pp w rs \<Longrightarrow> calls i p st \<Longrightarrow> k \<le> nat (sint n) \<Longrightarrow>
    pipewrite_from i pi addr n k pp st = Ok (x, pp', st') \<Longrightarrow>
    pipe_run pi pp' (w @ ubytes (pmem (ph st)) (p_pagetable (procs st p)) (addr + of_nat k) (moved x k)) rs"
| run_read: "pipe_run pi pp w rs \<Longrightarrow> calls i p st \<Longrightarrow>
    piperead i pi addr n pp st = Ok (x, pp', st') \<Longrightarrow>
    pipe_run pi pp' w (rs @ [(ubytes (pmem (ph st')) (p_pagetable (procs st p)) addr (got x),
      faulted st (p_pagetable (procs st p)) addr n (got x))])"
| run_close: "pipe_run pi pp w rs \<Longrightarrow> pipeclose i pi wr pp st = Ok (pp', st') \<Longrightarrow> pipe_run pi pp' w rs"

lemma write_moved:
  assumes "write_outcome i p pi addr k (nat (sint (n :: c_int)) - k) j st x pp' st'" and "k \<le> nat (sint n)"
    and "j \<le> nat (sint n) - k"
  shows "moved x k = j"
proof -
  have "k + j \<le> nat (sint n)"
    using assms(2,3) by linarith
  then show ?thesis
    using assms(1) small_int [of "k + j" n] by (auto simp: write_outcome_def moved_def split: sum.splits)
qed

lemma pipeclose_queue:
  assumes "pipeclose i pi wr pp st = Ok (pp', st')"
  shows "pipe_queue pp' = pipe_queue pp"
proof -
  have "pi_data pp' = pi_data pp \<and> pi_nread pp' = pi_nread pp \<and> pi_nwrite pp' = pi_nwrite pp"
    using assms by (auto simp: pipeclose_def Let_def rbind_eq_Ok split: if_splits)
  then show ?thesis
    by (simp add: pipe_queue_def)
qed

text \<open>
  \<open>explains rs ls w\<close>: the stream \<open>w\<close> is what the reads have delivered, in their order, with the bytes \<open>ls\<close> lost after
  them: at most one after a read that came to an address it could not write, and none after another.
\<close>

definition explains :: "(u8 list \<times> bool) list \<Rightarrow> u8 list list \<Rightarrow> u8 list \<Rightarrow> bool" where
  "explains rs ls w \<longleftrightarrow>
     list_all2 (\<lambda>(g, f) l. length l \<le> (if f then 1 else 0)) rs ls \<and>
     w = concat (map2 (\<lambda>(g, f) l. g @ l) rs ls)"

lemma explains_snoc:
  "explains rs ls w \<Longrightarrow> length l \<le> (if f then 1 else 0) \<Longrightarrow> explains (rs @ [(g, f)]) (ls @ [l]) (w @ g @ l)"
  by (auto simp: explains_def dest: list_all2_lengthD intro!: list_all2_appendI)

lemma explains_unfaulted: "explains rs ls w \<Longrightarrow> \<forall>r \<in> set rs. \<not> snd r \<Longrightarrow> w = concat (map fst rs)"
proof (induction rs arbitrary: ls w)
  case (Cons r rs)
  then obtain l ls' where "ls = l # ls'"
    by (auto simp: explains_def list_all2_Cons1)
  then show ?case
    using Cons by (auto simp: explains_def split: prod.splits)
qed (simp add: explains_def)

text \<open>What one read takes out of the queue.\<close>

lemma piperead_takes:
  assumes "calls i p st" and ok: "pipe_ok pp" and r: "piperead i pi addr n pp st = Ok (x, pp', st')"
  shows "\<exists>l. pipe_queue pp = ubytes (pmem (ph st')) (p_pagetable (procs st p)) addr (got x) @ l @ pipe_queue pp' \<and>
    length l \<le> (if faulted st (p_pagetable (procs st p)) addr n (got x) then 1 else 0) \<and> pipe_ok pp'"
proof -
  let ?pt = "p_pagetable (procs st p)"
  obtain fs A where us: "quiet st" "myproc i st = Some p" "user_space (ph st) ?pt fs A"
    using assms(1) by (auto simp: calls_def)
  show ?thesis
  proof (cases "pipe_queue pp = [] \<and> pi_writeopen pp")
    case True
    then have "got x = 0" "pp' = pp"
      using piperead_ok [OF us ok, of pi addr n] r by (auto simp: got_def split: if_splits)
    then show ?thesis
      using ok True by (intro exI [of _ "[]"]) (simp add: ubytes_def)
  next
    case False
    then obtain j where j: "x = Inl (of_nat j)" "read_moved ?pt addr (nat (sint n)) j pp (pmem (ph st)) pp'"
      "ubytes (pmem (ph st')) ?pt addr j = take j (pipe_queue pp)" "pipe_ok pp'"
      using piperead_ok [OF us ok, of pi addr n] r by auto
    then have "j \<le> nat (sint n)"
      by (auto simp: read_moved_def)
    then have g: "got x = j"
      using j(1) small_int [of j n] by (simp add: got_def)
    let ?l = "if pipe_queue pp' = drop j (pipe_queue pp) then [] else [pipe_queue pp ! j]"
    have "pipe_queue pp = take j (pipe_queue pp) @ ?l @ pipe_queue pp'"
      "length ?l \<le> (if faulted st ?pt addr n j then 1 else 0)"
      using j(2) by (auto simp: read_moved_def faulted_def id_take_nth_drop)
    then show ?thesis
      using j(3,4) g by (intro exI [of _ ?l]) simp
  qed
qed

text \<open>
  Claim C4: a pipe is a first-in first-out queue of at most 512 bytes, whatever the counters do when
  they wrap around, for calls of any processes in any order: at any time the bytes handed over are the bytes the reads have
  delivered, in the same order, followed by those still in the pipe. The only bytes that can be missing are one after each
  read that has come to an address its caller cannot write; without such a read none is missing.
\<close>

theorem pipe_is_fifo:
  assumes "pipe_run pi pp w rs"
  shows "(\<exists>ls r. explains rs ls r \<and> w = r @ pipe_queue pp) \<and> length (pipe_queue pp) \<le> PIPESIZE \<and>
    ((\<forall>r \<in> set rs. \<not> snd r) \<longrightarrow> w = concat (map fst rs) @ pipe_queue pp)"
proof -
  have "(\<exists>ls r. explains rs ls r \<and> w = r @ pipe_queue pp) \<and> length (pipe_queue pp) \<le> PIPESIZE"
    using assms
  proof induction
    case (run_start pp)
    have "explains [] [] []"
      by (simp add: explains_def)
    then show ?case
      by (force simp: pipe_queue_def new_pipe_def)
  next
    case (run_write pp w rs i p st k n addr x pp' st')
    then have ok: "pipe_ok pp"
      by (simp add: pipe_ok_length)
    obtain fs A where us: "quiet st" "myproc i st = Some p" "user_space (ph st) (p_pagetable (procs st p)) fs A"
      using run_write.hyps(2) by (auto simp: calls_def)
    obtain j where j: "j \<le> nat (sint n) - k" "pipe_ok pp'"
      "pipe_queue pp' = pipe_queue pp @ ubytes (pmem (ph st)) (p_pagetable (procs st p)) (addr + of_nat k) j"
      "write_outcome i p pi addr k (nat (sint n) - k) j st x pp' st'"
      using pipewrite_loop_ok [OF us ok, of pi addr k "nat (sint n) - k"] run_write.hyps(4) us(1,2)
      by (auto simp: pipewrite_from_def lock_rules quietD)
    then show ?case
      using run_write.IH write_moved [OF j(4) run_write.hyps(3) j(1)] by (auto simp: pipe_ok_length)
  next
    case (run_read pp w rs i p st addr n x pp' st')
    then obtain ls r where r: "explains rs ls r" "w = r @ pipe_queue pp" "pipe_ok pp"
      by (auto simp: pipe_ok_length)
    then show ?case
      using piperead_takes [OF run_read.hyps(2) r(3) run_read.hyps(3)] explains_snoc [OF r(1)]
      by (fastforce simp: pipe_ok_length)
  next
    case (run_close pp w rs i wr st pp' st')
    then show ?case
      using pipeclose_queue by metis
  qed
  then show ?thesis
    using explains_unfaulted by blast
qed

lemma demo_calls: "calls 0 2 demo_writer"
  using demo_writer by (auto simp: calls_def)

lemma demo_writable: "j < 4 \<Longrightarrow> uwritable demo_mem demo_root (0x20 + of_nat j)"
proof -
  have "\<forall>j \<in> set [0..<4]. page (0x20 + of_nat j) = 0 \<and> (0x20 + of_nat j :: u64) < MAXVA"
    by (simp add: upt_rec page_def word_less_nat_alt)
  then show "j < 4 \<Longrightarrow> uwritable demo_mem demo_root (0x20 + of_nat j)"
    using demo_leaf [of "0x20 + of_nat j"] by (simp add: uwritable_def uacc_def bit_simps PTE_bits)
qed

theorem pipe_is_fifo_witness:
  "\<exists>pp w g. pipe_run 0x87F00000 pp w [(g, False)] \<and> length w = 3 \<and> length g = 2 \<and> w = g @ pipe_queue pp"
proof -
  have m: "pmem (ph demo_writer) = demo_mem" "p_pagetable (procs demo_writer 2) = demo_root"
    by (simp_all add: demo_writer_def demo_phys_def)
  have start: "pipe_run 0x87F00000 demo_pipe [] []"
    unfolding demo_pipe_def by (rule run_start)
  obtain x pp st' j where w: "pipewrite_from 0 0x87F00000 0x20 3 0 demo_pipe demo_writer = Ok (x, pp, st')" "j \<le> 3"
    "pipe_queue pp = ubytes demo_mem demo_root 0x20 j" "pipe_ok pp" "pi_readopen pp"
    "write_outcome 0 2 0x87F00000 0x20 0 3 j demo_writer x pp st'"
    using pipewrite_loop_ok [OF demo_writer(1,2,4) demo_pipe(1), of "0x87F00000" "0x20" 0 3] demo_pipe demo_writer(1,2) m
    by (auto simp: pipewrite_from_def lock_rules quietD)
  have "j < 4 \<Longrightarrow> uacc demo_mem demo_root (0x20 + of_nat j)"
    using demo_writable [of j] by (simp add: uwritable_def)
  then have j: "j = 3" "moved x 0 = 3"
    using w(2,3,5,6) demo_writer(3) m by (auto simp: write_outcome_def moved_def PIPESIZE_def split: sum.splits)
  let ?w = "ubytes demo_mem demo_root 0x20 3"
  have run: "pipe_run 0x87F00000 pp ?w []"
    using run_write [OF start demo_calls _ w(1)] j m by simp
  have "pipe_queue pp \<noteq> []"
    using w(3) j by (simp add: ubytes_def)
  then obtain k pp' st'' where r: "piperead 0 0x87F00000 0x20 2 pp demo_writer = Ok (Inl (of_nat k), pp', st'')"
    "read_moved demo_root 0x20 2 k pp demo_mem pp'"
    using piperead_ok [OF demo_writer(1,2,4) w(4), of "0x87F00000" "0x20" 2] m by auto
  then have k: "k = 2"
    using demo_writable [of k] w(3) j by (auto simp: read_moved_def)
  then have "got (Inl (of_nat k) :: c_int + unit) = 2" "\<not> faulted demo_writer demo_root 0x20 2 2"
    by (simp_all add: got_def faulted_def)
  then have run': "pipe_run 0x87F00000 pp' ?w [(ubytes (pmem (ph st'')) demo_root 0x20 2, False)]"
    using run_read [OF run demo_calls r(1)] m by simp
  then have "?w = ubytes (pmem (ph st'')) demo_root 0x20 2 @ pipe_queue pp'"
    using pipe_is_fifo [OF run'] by simp
  with run' show ?thesis
    using length_ubytes by blast
qed

end
