(* ===== verification/Xv6_Printf.thy ===== *)
theory Xv6_Printf
  imports Xv6_Prelude
begin

text \<open>
  Formatted output of the kernel, \<^verbatim>\<open>kernel/printf.c\<close>. The output is the list of characters given to
  \<^verbatim>\<open>consputc\<close>. An argument of \<^verbatim>\<open>printf\<close> is a machine word or a string; a conversion that finds no
  argument, or one of the other kind, is undefined in C and \<open>Stuck\<close> here, and so is a write outside
  the array \<^verbatim>\<open>buf\<close> of \<^verbatim>\<open>printint\<close>.
\<close>

section \<open>Code\<close>

definition chr :: "char \<Rightarrow> u8" where "chr c = of_nat (of_char c)"

definition str :: "string \<Rightarrow> u8 list" where "str s = map chr s"

definition digits :: "u8 list" where "digits = str ''0123456789abcdef''"

text \<open>
  The \<^verbatim>\<open>do\<close> loop of \<^verbatim>\<open>printint\<close>: \<open>buf\<close> holds the digits so far, the last one first, in an array of 16
  bytes.
\<close>

definition put_buf :: "u8 list \<Rightarrow> u8 \<Rightarrow> u8 list res" where
  "put_buf buf c = (if length buf < 16 then Ok (buf @ [c]) else Stuck)"

function print_digits :: "u64 \<Rightarrow> u64 \<Rightarrow> u8 list \<Rightarrow> u8 list res" where
  "print_digits x base buf =
     (if base < 2 then Stuck
      else
        rbind (put_buf buf (digits ! unat (x mod base))) (\<lambda>buf.
          if x div base = 0 then Ok buf else print_digits (x div base) base buf))"
  by pat_completeness auto
termination
proof (relation "measure (\<lambda>(x, base, buf). unat x)", goal_cases)
  case (2 x base buf buf')
  then have b: "2 \<le> unat base"
    by (simp add: word_less_nat_alt)
  have "unat (x div base) = unat x div unat base"
    by (simp add: unat_div)
  moreover have "0 < unat x"
    using 2(3) by (cases "x = 0") (auto simp: unat_gt_0)
  ultimately show ?case
    using b by simp
qed simp

declare print_digits.simps [simp del]

definition printint :: "u64 \<Rightarrow> u64 \<Rightarrow> bool \<Rightarrow> u8 list res" where
  "printint xx base sign =
     (let neg = (sign \<and> xx <s 0);
          x = (if neg then - xx else xx)
      in rbind (print_digits x base []) (\<lambda>buf.
         rbind (if neg then put_buf buf (chr CHR ''-'') else Ok buf) (\<lambda>buf.
         Ok (rev buf))))"

fun ptr_digits :: "nat \<Rightarrow> u64 \<Rightarrow> u8 list" where
  "ptr_digits 0 x = []"
| "ptr_digits (Suc n) x = digits ! unat (drop_bit 60 x) # ptr_digits n (push_bit 4 x)"

definition printptr :: "u64 \<Rightarrow> u8 list" where
  "printptr x = str ''0x'' @ ptr_digits 16 x"

datatype varg = VInt u64 | VStr "u8 list option"

definition arg_int :: "varg list \<Rightarrow> (u64 \<times> varg list) res" where
  "arg_int ap = (case ap of VInt x # ap \<Rightarrow> Ok (scast (ucast x :: c_int), ap) | _ \<Rightarrow> Stuck)"

definition arg_u64 :: "varg list \<Rightarrow> (u64 \<times> varg list) res" where
  "arg_u64 ap = (case ap of VInt x # ap \<Rightarrow> Ok (x, ap) | _ \<Rightarrow> Stuck)"

text \<open>
  The body of the loop after a \<^verbatim>\<open>%\<close>, on the characters that follow it: the output, the rest of
  the format (\<open>None\<close>: the loop ends) and the rest of the arguments.
\<close>

definition fmt_int :: "(u64 \<times> varg list) res \<Rightarrow> u64 \<Rightarrow> bool \<Rightarrow> u8 list \<Rightarrow> (u8 list \<times> u8 list option \<times> varg list) res" where
  "fmt_int arg base sign fmt =
     rbind arg (\<lambda>(x, ap). rbind (printint x base sign) (\<lambda>out. Ok (out, Some fmt, ap)))"

definition conversion :: "u8 list \<Rightarrow> varg list \<Rightarrow> (u8 list \<times> u8 list option \<times> varg list) res" where
  "conversion fmt ap =
     (let c0 = (case fmt of [] \<Rightarrow> 0 | c # _ \<Rightarrow> c);
          c1 = (case drop 1 fmt of [] \<Rightarrow> 0 | c # _ \<Rightarrow> c);
          c2 = (case drop 2 fmt of [] \<Rightarrow> 0 | c # _ \<Rightarrow> c);
          l = chr CHR ''l''
      in if c0 = chr CHR ''d'' then fmt_int (arg_int ap) 10 True (drop 1 fmt)
         else if c0 = l \<and> c1 = chr CHR ''d'' then fmt_int (arg_u64 ap) 10 True (drop 2 fmt)
         else if c0 = l \<and> c1 = l \<and> c2 = chr CHR ''d'' then fmt_int (arg_u64 ap) 10 True (drop 3 fmt)
         else if c0 = chr CHR ''u'' then fmt_int (arg_int ap) 10 False (drop 1 fmt)
         else if c0 = l \<and> c1 = chr CHR ''u'' then fmt_int (arg_u64 ap) 10 False (drop 2 fmt)
         else if c0 = l \<and> c1 = l \<and> c2 = chr CHR ''u'' then fmt_int (arg_u64 ap) 10 False (drop 3 fmt)
         else if c0 = chr CHR ''x'' then fmt_int (arg_int ap) 16 False (drop 1 fmt)
         else if c0 = l \<and> c1 = chr CHR ''x'' then fmt_int (arg_u64 ap) 16 False (drop 2 fmt)
         else if c0 = l \<and> c1 = l \<and> c2 = chr CHR ''x'' then fmt_int (arg_u64 ap) 16 False (drop 3 fmt)
         else if c0 = chr CHR ''p'' then rbind (arg_u64 ap) (\<lambda>(x, ap). Ok (printptr x, Some (drop 1 fmt), ap))
         else if c0 = chr CHR ''s'' then
           (case ap of VStr s # ap \<Rightarrow> Ok (case s of None \<Rightarrow> str ''(null)'' | Some s \<Rightarrow> s, Some (drop 1 fmt), ap)
            | _ \<Rightarrow> Stuck)
         else if c0 = chr CHR ''%'' then Ok ([chr CHR ''%''], Some (drop 1 fmt), ap)
         else if c0 = 0 then Ok ([], None, ap)
         else Ok ([chr CHR ''%'', c0], Some (drop 1 fmt), ap))"

definition leaves :: "u8 list \<Rightarrow> (u8 list \<times> u8 list option \<times> varg list) res \<Rightarrow> bool" where
  "leaves fmt r = (\<forall>out f ap. r = Ok (out, Some f, ap) \<longrightarrow> length f \<le> length fmt)"

lemma leaves_if: "leaves fmt a \<Longrightarrow> leaves fmt b \<Longrightarrow> leaves fmt (if c then a else b)"
  by simp

lemma leaves_fmt_int: "leaves fmt (fmt_int a b s (drop n fmt))"
  by (auto simp: leaves_def fmt_int_def rbind_eq_Ok split: prod.splits)

lemma leaves_Ok: "leaves fmt (Ok (out, Some (drop n fmt), ap))"
  by (simp add: leaves_def)

lemma conversion_shorter: "conversion fmt ap = Ok (out, Some f, ap') \<Longrightarrow> length f < Suc (length fmt)"
proof -
  have "leaves fmt (conversion fmt ap)"
    unfolding conversion_def Let_def
    by (intro leaves_if leaves_fmt_int leaves_Ok)
      (auto simp: leaves_def rbind_eq_Ok split: list.splits varg.splits)
  then show "conversion fmt ap = Ok (out, Some f, ap') \<Longrightarrow> length f < Suc (length fmt)"
    unfolding leaves_def by fastforce
qed

function printf :: "u8 list \<Rightarrow> varg list \<Rightarrow> u8 list res" where
  "printf [] ap = Ok []"
| "printf (cx # fmt) ap =
     (if cx \<noteq> chr CHR ''%'' then rbind (printf fmt ap) (\<lambda>out. Ok (cx # out))
      else
        rbind (conversion fmt ap) (\<lambda>(out, f, ap).
          case f of None \<Rightarrow> Ok out | Some f \<Rightarrow> rbind (printf f ap) (\<lambda>out'. Ok (out @ out'))))"
  by pat_completeness auto
termination
  by (relation "measure (\<lambda>(fmt, ap). length fmt)") (auto dest: conversion_shorter)

text \<open>\<^verbatim>\<open>panic(s)\<close>: what it prints before it stops; it sets \<^verbatim>\<open>panicked\<close> and never returns.\<close>

definition panic_message :: "u8 list \<Rightarrow> u8 list res" where
  "panic_message s =
     rbind (printf (str ''panic: '') []) (\<lambda>a.
     rbind (printf (str ''%s'' @ [10]) [VStr (Some s)]) (\<lambda>b. Ok (a @ b)))"


section \<open>What printint prints\<close>

text \<open>The numeral of a number in base \<open>b\<close>, most significant digit first.\<close>

fun nat_string :: "nat \<Rightarrow> nat \<Rightarrow> u8 list" where
  "nat_string b n = (if n < b \<or> b < 2 then [digits ! n] else nat_string b (n div b) @ [digits ! (n mod b)])"

declare nat_string.simps [simp del]

definition int_string :: "int \<Rightarrow> u8 list" where
  "int_string i = (if i < 0 then chr CHR ''-'' # nat_string 10 (nat (- i)) else nat_string 10 (nat i))"

lemma length_nat_string:
  assumes "2 \<le> b"
  shows "length (nat_string b n) \<le> Suc k \<longleftrightarrow> n < b ^ Suc k"
proof (induction k arbitrary: n)
  case 0
  have "nat_string b m \<noteq> []" for m
    by (simp add: nat_string.simps)
  then show ?case
    using assms by (subst nat_string.simps) (auto simp: Suc_le_eq)
next
  case (Suc k)
  show ?case
  proof (cases "n < b")
    case True
    have "b ^ 1 \<le> b ^ Suc (Suc k)"
      using assms by (intro power_increasing) auto
    then have "b \<le> b ^ Suc (Suc k)"
      unfolding power_one_right .
    then have "n < b ^ Suc (Suc k)"
      using True by (rule less_le_trans [rotated])
    then show ?thesis
      using True by (simp add: nat_string.simps)
  next
    case False
    have "length (nat_string b n) \<le> Suc (Suc k) \<longleftrightarrow> length (nat_string b (n div b)) \<le> Suc k"
      using False assms by (subst nat_string.simps) simp
    also have "\<dots> \<longleftrightarrow> n div b < b ^ Suc k"
      by (rule Suc.IH)
    also have "\<dots> \<longleftrightarrow> n < b ^ Suc (Suc k)"
      using assms by (simp add: div_less_iff_less_mult ac_simps)
    finally show ?thesis .
  qed
qed

lemma print_digits_eq:
  assumes "2 \<le> base"
  shows "print_digits x base buf =
    (if length buf + length (nat_string (unat base) (unat x)) \<le> 16
     then Ok (buf @ rev (nat_string (unat base) (unat x))) else Stuck)"
  using assms
proof (induction x base buf rule: print_digits.induct)
  case (1 x base buf)
  have b: "\<not> base < 2" "2 \<le> unat base"
    using 1(2) by (simp_all add: word_le_nat_alt not_less)
  have zero: "x div base = 0 \<longleftrightarrow> unat x < unat base"
    using b by (simp add: unat_eq_zero [symmetric] unat_div div_eq_0_iff)
  show ?case
  proof (cases "length buf < 16")
    case False
    have "nat_string (unat base) (unat x) \<noteq> []"
      by (simp add: nat_string.simps)
    then have "0 < length (nat_string (unat base) (unat x))"
      by blast
    then have "\<not> length buf + length (nat_string (unat base) (unat x)) \<le> 16"
      using False by linarith
    then show ?thesis
      using False b by (simp add: print_digits.simps put_buf_def)
  next
    case True
    then have IH: "x div base \<noteq> 0 \<Longrightarrow> print_digits (x div base) base (buf @ [digits ! unat (x mod base)]) =
      (if Suc (length buf) + length (nat_string (unat base) (unat (x div base))) \<le> 16
       then Ok ((buf @ [digits ! unat (x mod base)]) @ rev (nat_string (unat base) (unat (x div base)))) else Stuck)"
      using 1(1) [OF b(1) _ _ 1(2)] by (simp add: put_buf_def)
    show ?thesis
    proof (cases "unat x < unat base")
      case T: True
      have ns: "nat_string (unat base) (unat x) = [digits ! unat x]"
        using T by (simp add: nat_string.simps)
      show ?thesis
        using T True b by (subst print_digits.simps) (simp add: put_buf_def zero ns unat_mod)
    next
      case F: False
      have ns: "nat_string (unat base) (unat x) =
        nat_string (unat base) (unat (x div base)) @ [digits ! unat (x mod base)]"
        using F b by (subst nat_string.simps) (simp add: unat_div unat_mod)
      show ?thesis
        using True b F IH by (subst print_digits.simps) (simp add: put_buf_def zero ns)
    qed
  qed
qed


lemma printint_unsigned:
  assumes "2 \<le> base"
  shows "printint x base False =
    (if unat x < unat base ^ 16 then Ok (nat_string (unat base) (unat x)) else Stuck)"
proof -
  have "2 \<le> unat base"
    using assms by (simp add: word_le_nat_alt)
  then have "length (nat_string (unat base) (unat x)) \<le> 16 \<longleftrightarrow> unat x < unat base ^ 16"
    using length_nat_string [of "unat base" "unat x" 15] by simp
  then show ?thesis
    by (simp add: printint_def print_digits_eq [OF assms])
qed

lemma printint_signed:
  "printint x 10 True = (if - (10 ^ 15) < sint x \<and> sint x < 10 ^ 16 then Ok (int_string (sint x)) else Stuck)"
proof (cases "x <s 0")
  case True
  then have neg: "sint x < 0"
    by (simp add: word_sless_alt)
  have range: "- (2 ^ 63) \<le> sint x"
    using sint_ge [of x] by simp
  have "- x = word_of_int (- sint x)"
    by simp
  then have "uint (- x) = (- sint x) mod 2 ^ 64"
    using uint_word_of_int [of "- sint x", where 'a = 64] by simp
  also have "\<dots> = - sint x"
    using neg range by (intro mod_pos_pos_trivial) auto
  finally have u: "unat (- x) = nat (- sint x)"
    by (simp add: unat_eq_nat_uint)
  have len: "Suc (length (nat_string 10 (nat (- sint x)))) \<le> 16 \<longleftrightarrow> nat (- sint x) < 10 ^ 15"
    using length_nat_string [of 10 "nat (- sint x)" 14] by simp
  have "nat (- sint x) < 10 ^ 15 \<longleftrightarrow> - (10 ^ 15) < sint x"
    using neg by (auto simp: nat_less_iff)
  then show ?thesis
    using True neg len by (auto simp: printint_def print_digits_eq u put_buf_def int_string_def)
next
  case False
  then have pos: "0 \<le> sint x"
    by (simp add: word_sless_alt)
  have "uint x = sint x mod 2 ^ 64"
    using uint_word_of_int [of "sint x", where 'a = 64] by simp
  also have "\<dots> = sint x"
    using pos sint_lt [of x] by (intro mod_pos_pos_trivial) auto
  finally have u: "unat x = nat (sint x)"
    by (simp add: unat_eq_nat_uint)
  have "nat (sint x) < 10 ^ 16 \<longleftrightarrow> sint x < 10 ^ 16"
    using pos by (auto simp: nat_less_iff)
  then show ?thesis
    using False pos printint_unsigned [of 10 x] by (auto simp: printint_def u int_string_def)
qed

text \<open>
  Claim C22: The number printer of the kernel prints the exact numeral whenever it fits the sixteen
  bytes of its array, and writes past the array otherwise. A signed decimal fits from minus the
  predecessor of ten to the fifteenth up to the predecessor of ten to the sixteenth, an unsigned
  decimal below ten to the sixteenth, a hexadecimal always.
\<close>

theorem printint_exact:
  "printint x 10 True =
     (if - (10 ^ 15) < sint x \<and> sint x < 10 ^ 16 then Ok (int_string (sint x)) else Stuck) \<and>
   printint x 10 False = (if unat x < 10 ^ 16 then Ok (nat_string 10 (unat x)) else Stuck) \<and>
   printint x 16 False = Ok (nat_string 16 (unat x))"
proof -
  have "unat x < 16 ^ 16"
    using unsigned_less [of x, where 'a = nat] by simp
  then show ?thesis
    using printint_unsigned [of 10 x] printint_unsigned [of 16 x] printint_signed [of x]
    by (simp add: word_le_nat_alt)
qed


text \<open>
  Claim C23: \<^verbatim>\<open>%d\<close> prints every 32-bit argument, but \<^verbatim>\<open>%u\<close> works for non-negative arguments only: it
  fetches an \<^verbatim>\<open>int\<close>, whose sign extension to 64 bits has twenty decimal digits, so \<^verbatim>\<open>printint\<close> writes
  past its array whenever the top bit of the argument is set.
\<close>

theorem percent_u_overflows:
  "conversion (chr CHR ''d'' # fmt) (VInt x # ap) = Ok (int_string (sint (ucast x :: c_int)), Some fmt, ap) \<and>
   conversion (chr CHR ''u'' # fmt) (VInt x # ap) =
     (if sint (ucast x :: c_int) < 0 then Stuck
      else Ok (nat_string 10 (unat (ucast x :: c_int)), Some fmt, ap))"
proof -
  let ?i = "ucast x :: c_int"
  have s: "sint (scast ?i :: u64) = sint ?i"
    by (simp add: sint_up_scast is_up)
  have b: "- (2 ^ 31) \<le> sint ?i" "sint ?i < 2 ^ 31"
    using sint_ge [of ?i] sint_lt [of ?i] by auto
  have u: "uint (scast ?i :: u64) = sint ?i mod 2 ^ 64"
    by (simp only: scast_eq uint_word_of_int) simp
  have d: "printint (scast ?i) 10 True = Ok (int_string (sint ?i))"
    using b printint_signed [of "scast ?i"] by (simp add: s)
  have n: "printint (scast ?i) 10 False = Stuck" if neg: "sint ?i < 0"
  proof -
    have "sint ?i mod 2 ^ 64 = (sint ?i + 2 ^ 64) mod 2 ^ 64"
      by simp
    also have "\<dots> = sint ?i + 2 ^ 64"
      using b neg by (intro mod_pos_pos_trivial) auto
    finally have "unat (scast ?i :: u64) = nat (sint ?i + 2 ^ 64)"
      using u by (simp add: unat_eq_nat_uint)
    then show ?thesis
      using b printint_unsigned [of 10 "scast ?i"] by (auto simp: word_le_nat_alt)
  qed
  have p: "printint (scast ?i) 10 False = Ok (nat_string 10 (unat ?i))" if pos: "\<not> sint ?i < 0"
  proof -
    have "uint ?i = sint ?i mod 2 ^ 32"
      using uint_word_of_int [of "sint ?i", where 'a = 32] by simp
    then have "uint ?i = sint ?i" "sint ?i mod 2 ^ 64 = sint ?i"
      using b pos by simp_all
    then have "unat (scast ?i :: u64) = unat ?i" "unat ?i < 2 ^ 31"
      using u b by (simp_all add: unat_eq_nat_uint)
    then show ?thesis
      using printint_unsigned [of 10 "scast ?i"] by (auto simp: word_le_nat_alt)
  qed
  have "chr CHR ''u'' \<noteq> chr CHR ''d''" "chr CHR ''u'' \<noteq> chr CHR ''l''"
    by (simp_all add: chr_def)
  then show ?thesis
    using d n p by (simp add: conversion_def fmt_int_def arg_int_def)
qed

end
