(* ===== verification/Xv6_Console.thy ===== *)
theory Xv6_Console
  imports Xv6_Printf Xv6_Blocking Xv6_Ring
begin

text \<open>
  The serial port and the console, \<^verbatim>\<open>kernel/uart.c\<close> and \<^verbatim>\<open>kernel/console.c\<close>, with the output side of
  \<^verbatim>\<open>printf\<close> and \<^verbatim>\<open>procdump\<close>.

  The device is what the driver sees of it: \<open>lsr\<close> holds the answers it will give when asked whether
  the transmitter is idle (it is busy when there is none left), \<open>sent\<close> the bytes it was given, \<open>rx\<close>
  the bytes it has received and not yet handed over. Locks and channels of the static objects of
  these files are named by small numbers. A call that sleeps ends at the switch, as in \<open>Xv6_Proc\<close>.
\<close>

section \<open>State\<close>

definition UART_TX_BUF_SIZE :: nat where "UART_TX_BUF_SIZE = 32"
definition INPUT_BUF_SIZE :: nat where "INPUT_BUF_SIZE = 128"
definition BACKSPACE :: c_int where "BACKSPACE = 0x100"

record devs =
  tx_buf :: "nat \<Rightarrow> u8"
  tx_w :: u64
  tx_r :: u64
  lsr :: "bool list"
  sent :: "u8 list"
  rx :: "u8 list"
  panicked :: bool
  pr_locking :: bool
  cons_buf :: "nat \<Rightarrow> u8"
  cons_r :: u32
  cons_w :: u32
  cons_e :: u32
  kbd_intr_count :: c_int

definition UartLock :: lockname where "UartLock = ObjLock 1"
definition ConsLock :: lockname where "ConsLock = ObjLock 2"
definition PrLock :: lockname where "PrLock = ObjLock 3"
definition ch_tx_r :: chan where "ch_tx_r = ChObj 1"
definition ch_cons_r :: chan where "ch_cons_r = ChObj 2"

section \<open>The serial port\<close>

definition read_idle :: "devs \<Rightarrow> bool \<times> devs" where
  "read_idle d = (case lsr d of [] \<Rightarrow> (False, d) | b # l \<Rightarrow> (b, d\<lparr>lsr := l\<rparr>))"

definition send :: "u8 \<Rightarrow> devs \<Rightarrow> devs" where
  "send c d = d\<lparr>sent := sent d @ [c]\<rparr>"

lemma read_idle_fields [simp]:
  "tx_w (snd (read_idle d)) = tx_w d" "tx_r (snd (read_idle d)) = tx_r d" "tx_buf (snd (read_idle d)) = tx_buf d"
  "sent (snd (read_idle d)) = sent d"
  by (simp_all add: read_idle_def split: list.split)

function uartstart :: "nat \<Rightarrow> devs \<Rightarrow> machine \<Rightarrow> (devs \<times> machine) res" where
  "uartstart i d st =
     (if tx_w d = tx_r d then Ok (d, st)
      else if \<not> fst (read_idle d) then Ok (snd (read_idle d), st)
      else
        let d = snd (read_idle d);
            c = tx_buf d (unat (tx_r d) mod UART_TX_BUF_SIZE);
            d = d\<lparr>tx_r := tx_r d + 1\<rparr>
        in rbind (wakeup i (Some ch_tx_r) st) (\<lambda>st. uartstart i (send c d) st))"
  by pat_completeness auto
termination
proof (relation "measure (\<lambda>(i, d, st). unat (tx_w d - tx_r d))", goal_cases)
  case (2 i d st d1 c d2 st')
  then have "unat (tx_w d - (tx_r d + 1)) < unat (tx_w d - tx_r d)"
    by (intro distance_less(1)) simp
  then show ?case
    using 2 by (simp add: send_def)
qed simp

declare uartstart.simps [simp del]

text \<open>
  The loop of \<^verbatim>\<open>uartputc(c)\<close> and what follows it, with the lock held: \<open>True\<close> when the byte is in the
  buffer, \<open>False\<close> when the call sleeps for space. A call that is woken takes the lock and starts the
  loop again.
\<close>

definition uartputc_loop :: "nat \<Rightarrow> u8 \<Rightarrow> devs \<Rightarrow> machine \<Rightarrow> (bool \<times> devs \<times> machine) res" where
  "uartputc_loop i c d st =
     (if tx_w d = tx_r d + of_nat UART_TX_BUF_SIZE then
        rbind (sleep i ch_tx_r UartLock st) (\<lambda>st. Ok (False, d, st))
      else
        let d = d\<lparr>tx_buf := (tx_buf d)(unat (tx_w d) mod UART_TX_BUF_SIZE := c), tx_w := tx_w d + 1\<rparr>
        in rbind (uartstart i d st) (\<lambda>(d, st).
           rbind (release i UartLock st) (\<lambda>st. Ok (True, d, st))))"

definition uartputc :: "nat \<Rightarrow> u8 \<Rightarrow> devs \<Rightarrow> machine \<Rightarrow> (bool \<times> devs \<times> machine) res" where
  "uartputc i c d st =
     rbind (acquire i UartLock st) (\<lambda>st. if panicked d then Stuck else uartputc_loop i c d st)"

text \<open>\<^verbatim>\<open>uartputc_sync(c)\<close> spins until the transmitter is idle, which may never happen.\<close>

definition uartputc_sync :: "nat \<Rightarrow> u8 \<Rightarrow> devs \<Rightarrow> machine \<Rightarrow> (devs \<times> machine) res" where
  "uartputc_sync i c d st =
     (let st = push_off i st in
      if panicked d then Stuck
      else
        case dropWhile Not (lsr d) of [] \<Rightarrow> Stuck
        | _ # l \<Rightarrow> rbind (pop_off i st) (\<lambda>st. Ok (send c (d\<lparr>lsr := l\<rparr>), st)))"

definition uartgetc :: "devs \<Rightarrow> c_int \<times> devs" where
  "uartgetc d = (case rx d of [] \<Rightarrow> (- 1, d) | c # l \<Rightarrow> (ucast c, d\<lparr>rx := l\<rparr>))"

section \<open>Console output\<close>

definition consputc :: "nat \<Rightarrow> c_int \<Rightarrow> devs \<Rightarrow> machine \<Rightarrow> (devs \<times> machine) res" where
  "consputc i c d st =
     (if c = BACKSPACE then
        rbind (uartputc_sync i 8 d st) (\<lambda>(d, st).
        rbind (uartputc_sync i 32 d st) (\<lambda>(d, st).
        uartputc_sync i 8 d st))
      else uartputc_sync i (ucast c) d st)"

fun consputs :: "nat \<Rightarrow> u8 list \<Rightarrow> devs \<Rightarrow> machine \<Rightarrow> (devs \<times> machine) res" where
  "consputs i [] d st = Ok (d, st)"
| "consputs i (c # cs) d st = rbind (consputc i (ucast c) d st) (\<lambda>(d, st). consputs i cs d st)"

definition kprintf :: "nat \<Rightarrow> u8 list \<Rightarrow> varg list \<Rightarrow> devs \<Rightarrow> machine \<Rightarrow> (devs \<times> machine) res" where
  "kprintf i fmt ap d st =
     rbind (if pr_locking d then acquire i PrLock st else Ok st) (\<lambda>st.
     rbind (printf fmt ap) (\<lambda>out.
     rbind (consputs i out d st) (\<lambda>(d, st).
     rbind (if pr_locking d then release i PrLock st else Ok st) (\<lambda>st. Ok (d, st)))))"

definition state_name :: "procstate \<Rightarrow> u8 list" where
  "state_name s = str (case s of UNUSED \<Rightarrow> ''unused'' | USED \<Rightarrow> ''used'' | SLEEPING \<Rightarrow> ''sleep ''
     | RUNNABLE \<Rightarrow> ''runble'' | RUNNING \<Rightarrow> ''run   '' | ZOMBIE \<Rightarrow> ''zombie'')"

fun procdump_from :: "nat \<Rightarrow> nat \<Rightarrow> nat \<Rightarrow> devs \<Rightarrow> machine \<Rightarrow> (devs \<times> machine) res" where
  "procdump_from i k 0 d st = Ok (d, st)"
| "procdump_from i k (Suc n) d st =
     (let p = procs st k in
      if p_state p = UNUSED then procdump_from i (Suc k) n d st
      else
        rbind (kprintf i (str ''%d %s %s'')
          [VInt (scast (p_pid p)), VStr (Some (state_name (p_state p))), VStr (Some (takeWhile (\<lambda>c. c \<noteq> 0) (p_name p)))]
          d st) (\<lambda>(d, st).
        rbind (kprintf i [10] [] d st) (\<lambda>(d, st).
        procdump_from i (Suc k) n d st)))"

definition procdump :: "nat \<Rightarrow> devs \<Rightarrow> machine \<Rightarrow> (devs \<times> machine) res" where
  "procdump i d st = rbind (kprintf i [10] [] d st) (\<lambda>(d, st). procdump_from i 0 NPROC d st)"


section \<open>Reading and writing the console\<close>

text \<open>
  \<^verbatim>\<open>consolewrite\<close>: \<open>k\<close> bytes are out and \<open>r\<close> remain. \<open>Inr k\<close> when it sleeps in \<^verbatim>\<open>uartputc\<close> with the byte
  number \<open>k\<close>.
\<close>

fun consolewrite_from ::
  "nat \<Rightarrow> bool \<Rightarrow> u64 \<Rightarrow> nat \<Rightarrow> nat \<Rightarrow> devs \<Rightarrow> machine \<Rightarrow> ((c_int + nat) \<times> devs \<times> machine) res" where
  "consolewrite_from i user_src src k 0 d st = Ok (Inl (of_nat k), d, st)"
| "consolewrite_from i user_src src k (Suc r) d st =
     rbind (either_copyin i user_src (src + of_nat k) 1 st) (\<lambda>(c, bs).
       if c = - 1 then Ok (Inl (of_nat k), d, st)
       else
         rbind (uartputc i (bs ! 0) d st) (\<lambda>(ok, d, st).
           if ok then consolewrite_from i user_src src (Suc k) r d st else Ok (Inr k, d, st)))"

definition consolewrite ::
  "nat \<Rightarrow> bool \<Rightarrow> u64 \<Rightarrow> c_int \<Rightarrow> devs \<Rightarrow> machine \<Rightarrow> ((c_int + nat) \<times> devs \<times> machine) res" where
  "consolewrite i user_src src n d st = consolewrite_from i user_src src 0 (nat (sint n)) d st"

text \<open>
  The loop of \<^verbatim>\<open>consoleread\<close>, with the lock held: \<open>k\<close> bytes are copied and \<open>r\<close> remain. \<open>Inl v\<close> when it
  returns \<open>v\<close>, \<open>Inr k\<close> when it sleeps for input.
\<close>

definition consoleread_done :: "nat \<Rightarrow> nat \<Rightarrow> devs \<Rightarrow> machine \<Rightarrow> ((c_int + nat) \<times> devs \<times> machine) res" where
  "consoleread_done i k d st = rbind (release i ConsLock st) (\<lambda>st. Ok (Inl (of_nat k), d, st))"

fun consoleread_loop ::
  "nat \<Rightarrow> bool \<Rightarrow> u64 \<Rightarrow> nat \<Rightarrow> nat \<Rightarrow> devs \<Rightarrow> machine \<Rightarrow> ((c_int + nat) \<times> devs \<times> machine) res" where
  "consoleread_loop i user_dst dst k 0 d st = consoleread_done i k d st"
| "consoleread_loop i user_dst dst k (Suc r) d st =
     (if cons_r d = cons_w d then
        case myproc i st of None \<Rightarrow> Stuck
        | Some p \<Rightarrow>
          rbind (killed i p st) (\<lambda>(dead, st).
            if dead \<noteq> 0 then rbind (release i ConsLock st) (\<lambda>st. Ok (Inl (- 1), d, st))
            else rbind (sleep i ch_cons_r ConsLock st) (\<lambda>st. Ok (Inr k, d, st)))
      else
        let c = cons_buf d (unat (cons_r d) mod INPUT_BUF_SIZE);
            d = d\<lparr>cons_r := cons_r d + 1\<rparr>
        in if c = 4 then
             consoleread_done i k (if 0 < k then d\<lparr>cons_r := cons_r d - 1\<rparr> else d) st
           else
             rbind (either_copyout i user_dst (dst + of_nat k) [c] st) (\<lambda>(x, st).
               if x = - 1 then consoleread_done i k d st
               else if c = 10 then consoleread_done i (Suc k) d st
               else consoleread_loop i user_dst dst (Suc k) r d st))"

text \<open>\<open>consoleread_from\<close> enters the loop after \<open>k\<close> bytes: at the call with 0, after a sleep with its result.\<close>

definition consoleread_from ::
  "nat \<Rightarrow> bool \<Rightarrow> u64 \<Rightarrow> c_int \<Rightarrow> nat \<Rightarrow> devs \<Rightarrow> machine \<Rightarrow> ((c_int + nat) \<times> devs \<times> machine) res" where
  "consoleread_from i user_dst dst n k d st =
     rbind (acquire i ConsLock st) (\<lambda>st. consoleread_loop i user_dst dst k (nat (sint n) - k) d st)"

definition consoleread ::
  "nat \<Rightarrow> bool \<Rightarrow> u64 \<Rightarrow> c_int \<Rightarrow> devs \<Rightarrow> machine \<Rightarrow> ((c_int + nat) \<times> devs \<times> machine) res" where
  "consoleread i user_dst dst n d st = consoleread_from i user_dst dst n 0 d st"

section \<open>The input interrupt\<close>

lemma uartputc_sync_devs:
  "uartputc_sync i c d st = Ok (d', st') \<Longrightarrow> \<exists>l. d' = send c (d\<lparr>lsr := l\<rparr>)"
  by (auto simp: uartputc_sync_def Let_def rbind_eq_Ok split: if_splits list.splits)

lemma consputc_cons:
  "consputc i c d st = Ok (d', st') \<Longrightarrow>
   cons_e d' = cons_e d \<and> cons_w d' = cons_w d \<and> cons_r d' = cons_r d \<and> cons_buf d' = cons_buf d"
  by (auto simp: consputc_def rbind_eq_Ok send_def dest!: uartputc_sync_devs split: if_splits)

function kill_line :: "nat \<Rightarrow> devs \<Rightarrow> machine \<Rightarrow> (devs \<times> machine) res" where
  "kill_line i d st =
     (if cons_e d \<noteq> cons_w d \<and> cons_buf d (unat (cons_e d - 1) mod INPUT_BUF_SIZE) \<noteq> 10 then
        rbind (consputc i BACKSPACE (d\<lparr>cons_e := cons_e d - 1\<rparr>) st) (\<lambda>(d, st).
          kill_line i d st)
      else Ok (d, st))"
  by pat_completeness auto
termination
proof (relation "measure (\<lambda>(i, d, st). unat (cons_e d - cons_w d))", goal_cases)
  case (2 i d st x d' st')
  have "cons_e d' = cons_e d - 1 \<and> cons_w d' = cons_w d"
    using 2(2,3) by (auto dest: consputc_cons)
  then show ?case
    using 2(1) distance_less(2) [of "cons_e d" "cons_w d"] by simp
qed simp

declare kill_line.simps [simp del]

definition consoleintr :: "nat \<Rightarrow> c_int \<Rightarrow> devs \<Rightarrow> machine \<Rightarrow> (devs \<times> machine) res" where
  "consoleintr i c d st =
     rbind (acquire i ConsLock st) (\<lambda>st.
       let d = d\<lparr>kbd_intr_count := kbd_intr_count d + 1\<rparr> in
       rbind
         (if c = 16 then procdump i d st
          else if c = 21 then kill_line i d st
          else if c = 8 \<or> c = 127 then
            if cons_e d \<noteq> cons_w d then consputc i BACKSPACE (d\<lparr>cons_e := cons_e d - 1\<rparr>) st else Ok (d, st)
          else if c \<noteq> 0 \<and> unat (cons_e d - cons_r d) < INPUT_BUF_SIZE then
            let c = (if c = 13 then 10 else c) in
            rbind (consputc i c d st) (\<lambda>(d, st).
              let d = d\<lparr>cons_buf := (cons_buf d)(unat (cons_e d) mod INPUT_BUF_SIZE := ucast c),
                        cons_e := cons_e d + 1\<rparr>
              in if c = 10 \<or> c = 4 \<or> unat (cons_e d - cons_r d) = INPUT_BUF_SIZE
                 then rbind (wakeup i (Some ch_cons_r) st) (\<lambda>st. Ok (d\<lparr>cons_w := cons_e d\<rparr>, st))
                 else Ok (d, st))
          else Ok (d, st)) (\<lambda>(d, st).
       rbind (release i ConsLock st) (\<lambda>st. Ok (d, st))))"

text \<open>\<^verbatim>\<open>uartintr()\<close>: the loop over the received bytes, then the transmitter.\<close>

fun uartintr_rx :: "nat \<Rightarrow> nat \<Rightarrow> devs \<Rightarrow> machine \<Rightarrow> (devs \<times> machine) res" where
  "uartintr_rx i 0 d st = Ok (d, st)"
| "uartintr_rx i (Suc n) d st =
     (case uartgetc d of (c, d) \<Rightarrow>
        if c = - 1 then Ok (d, st)
        else rbind (consoleintr i c d st) (\<lambda>(d, st). uartintr_rx i n d st))"

definition uartintr :: "nat \<Rightarrow> devs \<Rightarrow> machine \<Rightarrow> (devs \<times> machine) res" where
  "uartintr i d st =
     rbind (uartintr_rx i (Suc (length (rx d))) d st) (\<lambda>(d, st).
     rbind (acquire i UartLock st) (\<lambda>st.
     rbind (uartstart i d st) (\<lambda>(d, st).
     rbind (release i UartLock st) (\<lambda>st. Ok (d, st)))))"

text \<open>\<^verbatim>\<open>uartinit()\<close>: the values it writes to the registers of the device, in order, by register number.\<close>

definition uartinit :: "machine \<Rightarrow> (nat \<times> u8) list \<times> machine" where
  "uartinit st =
     ([(1, 0), (3, 0x80), (0, 3), (1, 0), (3, 3), (2, 1 OR 6), (1, 2 OR 1)], initlock UartLock ''uart'' st)"

definition consoleinit :: "machine \<Rightarrow> (nat \<times> u8) list \<times> machine" where
  "consoleinit st = uartinit (initlock ConsLock ''cons'' st)"

end
