(* ===== verification/Xv6_Console_Theorems.thy ===== *)
theory Xv6_Console_Theorems
  imports Xv6_Console
begin

text \<open>
  The serial port sends bytes in the order they were written, and console input is line editing on
  lists: \<open>ready\<close> holds the bytes of finished lines, \<open>line\<close> the line being typed.
\<close>

section \<open>The transmit buffer\<close>

interpretation uart_ring: ring UART_TX_BUF_SIZE "TYPE(64)"
proof
  show "UART_TX_BUF_SIZE dvd 2 ^ LENGTH(64)"
    by (simp add: UART_TX_BUF_SIZE_def)
qed (simp_all add: UART_TX_BUF_SIZE_def)

definition uart_queue :: "devs \<Rightarrow> u8 list" where
  "uart_queue d = uart_ring.contents (tx_buf d) (tx_r d) (tx_w d)"

definition uart_ok :: "devs \<Rightarrow> bool" where
  "uart_ok d \<longleftrightarrow> length (uart_queue d) \<le> UART_TX_BUF_SIZE"

text \<open>How many bytes of the buffer a call of \<^verbatim>\<open>uartstart\<close> hands to the device.\<close>

definition accepted :: "devs \<Rightarrow> nat" where
  "accepted d = min (length (uart_queue d)) (length (takeWhile id (lsr d)))"

lemma uart_empty: "tx_w d = tx_r d \<longleftrightarrow> uart_queue d = []"
proof -
  have "uart_queue d = [] \<longleftrightarrow> length (uart_queue d) = 0"
    by simp
  then show ?thesis
    by (auto simp only: uart_queue_def uart_ring.length_contents uart_ring.used_zero)
qed

lemma uart_full: "tx_w d = tx_r d + of_nat UART_TX_BUF_SIZE \<longleftrightarrow> length (uart_queue d) = UART_TX_BUF_SIZE"
  by (simp only: uart_queue_def uart_ring.length_contents uart_ring.full_iff)

definition send_first :: "devs \<Rightarrow> devs" where
  "send_first d = send (tx_buf d (unat (tx_r d) mod UART_TX_BUF_SIZE)) (d\<lparr>lsr := tl (lsr d), tx_r := tx_r d + 1\<rparr>)"

lemma uart_pop:
  assumes "tx_w d \<noteq> tx_r d"
  shows "uart_queue d = tx_buf d (unat (tx_r d) mod UART_TX_BUF_SIZE) # uart_queue (send_first d)"
proof -
  have "0 < uart_ring.used (tx_r d) (tx_w d)"
    using assms uart_ring.used_zero [of "tx_r d" "tx_w d"] by auto
  then show ?thesis
    using uart_ring.contents_pop by (simp add: uart_queue_def send_first_def send_def)
qed

definition uart_frame :: "devs \<Rightarrow> devs \<Rightarrow> bool" where
  "uart_frame d d' \<longleftrightarrow> (\<exists>r l x. d' = d\<lparr>tx_r := r, lsr := l, sent := x\<rparr>)"

lemma uart_frame_first: "uart_frame (send_first d) d' \<Longrightarrow> uart_frame d d'"
  by (auto simp: uart_frame_def send_first_def send_def)

lemma uartstart_step:
  assumes "quiet st" and "tx_w d \<noteq> tx_r d" and "lsr d = True # l"
  shows "\<exists>st'. uartstart i d (acq i UartLock st) = uartstart i (send_first d) (acq i UartLock st') \<and> quiet st' \<and>
    myproc i st' = myproc i st \<and> ph st' = ph st \<and> woken i ch_tx_r st st' \<and>
    (\<forall>q. p_state (procs st q) \<noteq> SLEEPING \<longrightarrow> procs st' q = procs st q)"
proof -
  let ?st = "st\<lparr>procs := on_range 0 NPROC (wake_if (myproc i st) (Some ch_tx_r) (ticks st)) (procs st)\<rparr>"
  have "wakeup i (Some ch_tx_r) (acq i UartLock st) = Ok (acq i UartLock ?st)"
    using wakeup_inside [OF assms(1)] by (simp add: UartLock_def)
  then have "uartstart i d (acq i UartLock st) = uartstart i (send_first d) (acq i UartLock ?st)"
    using assms(2,3) by (subst uartstart.simps) (simp add: read_idle_def send_first_def send_def)
  then show ?thesis
    using assms(1) by (intro exI [of _ ?st]) (auto simp: woken_def on_range_def wake_if_def wake_def)
qed

lemma uartstart_ok:
  "quiet st \<Longrightarrow>
   \<exists>d' st'. uartstart i d (acq i UartLock st) = Ok (d', acq i UartLock st') \<and> quiet st' \<and> uart_frame d d' \<and>
     sent d' = sent d @ take (accepted d) (uart_queue d) \<and> uart_queue d' = drop (accepted d) (uart_queue d) \<and>
     myproc i st' = myproc i st \<and> ph st' = ph st \<and> (0 < accepted d \<longrightarrow> woken i ch_tx_r st st') \<and>
     (\<forall>q. p_state (procs st q) \<noteq> SLEEPING \<longrightarrow> procs st' q = procs st q)"
proof (induction "length (uart_queue d)" arbitrary: d st)
  case 0
  then have "tx_w d = tx_r d"
    by (simp add: uart_empty)
  moreover have "uart_frame d d"
    unfolding uart_frame_def by (intro exI [of _ "tx_r d"] exI [of _ "lsr d"] exI [of _ "sent d"]) simp
  ultimately show ?case
    using 0 by (intro exI [of _ d] exI [of _ st]) (simp add: uartstart.simps accepted_def)
next
  case (Suc n)
  then have ne: "tx_w d \<noteq> tx_r d"
    by (auto simp: uart_empty)
  show ?case
  proof (cases "\<exists>l. lsr d = True # l")
    case True
    then obtain l where l: "lsr d = True # l"
      by blast
    note pop = uart_pop [OF ne]
    obtain st1 where st1: "uartstart i d (acq i UartLock st) = uartstart i (send_first d) (acq i UartLock st1)"
      "quiet st1" "myproc i st1 = myproc i st" "ph st1 = ph st" "woken i ch_tx_r st st1"
      "\<forall>q. p_state (procs st q) \<noteq> SLEEPING \<longrightarrow> procs st1 q = procs st q"
      using uartstart_step [OF Suc.prems ne l] by blast
    have "n = length (uart_queue (send_first d))"
      using Suc.hyps(2) pop by simp
    then obtain d' st' where IH: "uartstart i (send_first d) (acq i UartLock st1) = Ok (d', acq i UartLock st')"
      "quiet st'" "uart_frame (send_first d) d'"
      "sent d' = sent (send_first d) @ take (accepted (send_first d)) (uart_queue (send_first d))"
      "uart_queue d' = drop (accepted (send_first d)) (uart_queue (send_first d))"
      "myproc i st' = myproc i st1" "ph st' = ph st1"
      "\<forall>q. p_state (procs st1 q) \<noteq> SLEEPING \<longrightarrow> procs st' q = procs st1 q"
      using Suc.hyps(1) [OF _ st1(2)] by blast
    have acc: "accepted d = Suc (accepted (send_first d))"
      using pop l by (simp add: accepted_def send_first_def send_def)
    have "woken i ch_tx_r st st'"
      using st1(5) IH(8) unfolding woken_def by (metis procstate.distinct(19))
    moreover have "sent (send_first d) = sent d @ [tx_buf d (unat (tx_r d) mod UART_TX_BUF_SIZE)]"
      by (simp add: send_first_def send_def)
    moreover have "\<forall>q. p_state (procs st q) \<noteq> SLEEPING \<longrightarrow> procs st' q = procs st q"
      using st1(6) IH(8) by simp
    moreover have "uart_frame d d'"
      using IH(3) by (rule uart_frame_first)
    ultimately show ?thesis
      using IH(1,2,4-7) st1(1,3,4) pop acc by (intro exI [of _ d'] exI [of _ st']) simp
  next
    case False
    then have idle: "\<not> fst (read_idle d)" "accepted d = 0"
      by (cases "lsr d"; simp add: read_idle_def accepted_def)+
    have "uart_frame d (snd (read_idle d))" "uart_queue (snd (read_idle d)) = uart_queue d"
      unfolding uart_frame_def
      by (intro exI [of _ "tx_r d"] exI [of _ "lsr (snd (read_idle d))"] exI [of _ "sent d"])
         (simp_all add: read_idle_def uart_queue_def split: list.split)
    then show ?thesis
      using ne idle Suc.prems
      by (intro exI [of _ "snd (read_idle d)"] exI [of _ st]) (simp add: uartstart.simps [of i d])
  qed
qed


definition put_byte :: "u8 \<Rightarrow> devs \<Rightarrow> devs" where
  "put_byte c d = d\<lparr>tx_buf := (tx_buf d)(unat (tx_w d) mod UART_TX_BUF_SIZE := c), tx_w := tx_w d + 1\<rparr>"

lemma uart_push:
  assumes "length (uart_queue d) < UART_TX_BUF_SIZE"
  shows "uart_queue (put_byte c d) = uart_queue d @ [c]"
  using uart_ring.contents_push assms by (simp add: uart_queue_def put_byte_def)

text \<open>
  Claim C26: the serial driver sends bytes in the order they were written. A write of one byte puts it
  behind the bytes of the buffer, or sleeps when all 32 places are taken; what the device has been
  given followed by what the buffer holds then is what it was before, followed by the byte. The driver
  hands bytes to the device as long as the device is idle and there are some, and wakes the writers
  that wait for space whenever it has handed over one.
\<close>

theorem uartputc_keeps_order:
  assumes "quiet st" and "myproc i st = Some p" and "\<not> panicked d" and "uart_ok d"
  shows "\<exists>ok d' st'. uartputc i c d st = Ok (ok, d', st') \<and> uart_ok d' \<and>
    (if length (uart_queue d) = UART_TX_BUF_SIZE then \<not> ok \<and> d' = d \<and> waits p ch_tx_r st'
     else ok \<and> quiet st' \<and> sent d' @ uart_queue d' = sent d @ uart_queue d @ [c] \<and>
       length (uart_queue d') = length (uart_queue d) + 1 - accepted (put_byte c d) \<and>
       (0 < accepted (put_byte c d) \<longrightarrow> woken i ch_tx_r st st'))"
proof (cases "length (uart_queue d) = UART_TX_BUF_SIZE")
  case True
  obtain st' where "sleep i ch_tx_r UartLock (acq i UartLock st) = Ok st'" "waits p ch_tx_r st'"
    using sleep_release [OF assms(1,2)] unfolding UartLock_def by blast
  then show ?thesis
    using True assms by (auto simp: uartputc_def uartputc_loop_def lock_rules quietD uart_full)
next
  case False
  then have less: "length (uart_queue d) < UART_TX_BUF_SIZE"
    using assms(4) by (simp add: uart_ok_def)
  obtain d' st' where r: "uartstart i (put_byte c d) (acq i UartLock st) = Ok (d', acq i UartLock st')" "quiet st'"
    "sent d' = sent (put_byte c d) @ take (accepted (put_byte c d)) (uart_queue (put_byte c d))"
    "uart_queue d' = drop (accepted (put_byte c d)) (uart_queue (put_byte c d))"
    "0 < accepted (put_byte c d) \<longrightarrow> woken i ch_tx_r st st'"
    using uartstart_ok [OF assms(1), of i "put_byte c d"] by (elim exE conjE) (rule that; assumption)
  have "uartputc i c d st = Ok (True, d', settled True i st')"
    using False assms(1,3) r(1,2) by (simp add: uartputc_def uartputc_loop_def lock_rules quietD uart_full put_byte_def)
  moreover have "woken i ch_tx_r st (settled True i st') = woken i ch_tx_r st st'"
    by (simp add: woken_def)
  moreover have "sent (put_byte c d) = sent d"
    by (simp add: put_byte_def)
  then have "sent d' @ uart_queue d' = sent d @ uart_queue d @ [c]"
    unfolding r(3,4) uart_push [OF less] by (simp del: take_append drop_append)
  moreover have "length (uart_queue d') = length (uart_queue d) + 1 - accepted (put_byte c d)"
    unfolding r(4) uart_push [OF less] by simp
  ultimately show ?thesis
    using False less r(2,5) by (intro exI [of _ True] exI [of _ d'] exI [of _ "settled True i st'"]) (simp add: uart_ok_def)
qed

definition demo_uart :: devs where
  "demo_uart = \<lparr>tx_buf = (\<lambda>_. 97), tx_w = 1, tx_r = 0xFFFFFFFFFFFFFFFF, lsr = [True, True, False], sent = [], rx = [], panicked = False,
     pr_locking = True, cons_buf = (\<lambda>_. 97), cons_r = 0, cons_w = 0, cons_e = 0, kbd_intr_count = 0\<rparr>"

theorem uartputc_keeps_order_witness:
  "\<exists>ok d' st'. uartputc 0 98 demo_uart demo_writer = Ok (ok, d', st') \<and> ok \<and> sent d' @ uart_queue d' = [97, 97, 98]"
proof -
  have "uart_queue demo_uart = [97, 97]" "\<not> panicked demo_uart" "sent demo_uart = []"
    by (simp_all add: demo_uart_def uart_queue_def uart_ring.contents_def uart_ring.used_def upt_rec)
  then show ?thesis
    using uartputc_keeps_order [OF demo_writer(1,2), of demo_uart 98] by (auto simp: uart_ok_def UART_TX_BUF_SIZE_def)
qed

end
