(* ===== verification/Xv6_Line_Editing.thy ===== *)
theory Xv6_Line_Editing
  imports Xv6_Console_Theorems
begin

text \<open>
  Console input as line editing on lists: \<open>ready\<close> holds the bytes of finished lines that no process
  has read, \<open>line\<close> the line being typed. Both live in one ring buffer between three counters.
\<close>

section \<open>Abstraction\<close>

interpretation cons_ring: ring INPUT_BUF_SIZE "TYPE(32)"
proof
  show "INPUT_BUF_SIZE dvd 2 ^ LENGTH(32)"
    by (simp add: INPUT_BUF_SIZE_def)
qed (simp_all add: INPUT_BUF_SIZE_def)

definition ready :: "devs \<Rightarrow> u8 list" where
  "ready d = cons_ring.contents (cons_buf d) (cons_r d) (cons_w d)"

definition line :: "devs \<Rightarrow> u8 list" where
  "line d = cons_ring.contents (cons_buf d) (cons_w d) (cons_e d)"

definition cons_ok :: "devs \<Rightarrow> bool" where
  "cons_ok d \<longleftrightarrow> length (ready d) + length (line d) \<le> INPUT_BUF_SIZE \<and> 10 \<notin> set (line d)"

text \<open>What a typed character does to the two lists, and what is echoed.\<close>

fun edit :: "u8 \<Rightarrow> u8 list \<times> u8 list \<Rightarrow> u8 list \<times> u8 list" where
  "edit c (rd, ln) =
     (if c = 16 then (rd, ln)
      else if c = 21 then (rd, [])
      else if c = 8 \<or> c = 127 then (rd, butlast ln)
      else if c \<noteq> 0 \<and> length rd + length ln < INPUT_BUF_SIZE then
        let c = (if c = 13 then 10 else c) in
        if c = 10 \<or> c = 4 \<or> length rd + length ln + 1 = INPUT_BUF_SIZE then (rd @ ln @ [c], [])
        else (rd, ln @ [c])
      else (rd, ln))"

definition rubout :: "u8 list" where "rubout = [8, 32, 8]"

fun echo :: "u8 \<Rightarrow> u8 list \<times> u8 list \<Rightarrow> u8 list" where
  "echo c (rd, ln) =
     (if c = 21 then concat (replicate (length ln) rubout)
      else if c = 8 \<or> c = 127 then (if ln = [] then [] else rubout)
      else if c \<noteq> 0 \<and> length rd + length ln < INPUT_BUF_SIZE then [if c = 13 then 10 else c]
      else [])"

lemma line_empty: "cons_e d = cons_w d \<longleftrightarrow> line d = []"
proof -
  have "line d = [] \<longleftrightarrow> length (line d) = 0"
    by simp
  then show ?thesis
    by (auto simp only: line_def cons_ring.length_contents cons_ring.used_zero)
qed

lemma ready_empty: "cons_r d = cons_w d \<longleftrightarrow> ready d = []"
proof -
  have "ready d = [] \<longleftrightarrow> length (ready d) = 0"
    by simp
  then show ?thesis
    by (simp only: ready_def cons_ring.length_contents cons_ring.used_zero)
qed

lemma total_length:
  assumes "length (ready d) + length (line d) \<le> INPUT_BUF_SIZE"
  shows "unat (cons_e d - cons_r d) = length (ready d) + length (line d)"
proof -
  have "INPUT_BUF_SIZE < 2 ^ LENGTH(32)"
    by (simp add: INPUT_BUF_SIZE_def)
  then have "cons_ring.used (cons_r d) (cons_w d) + cons_ring.used (cons_w d) (cons_e d) < 2 ^ LENGTH(32)"
    using assms by (simp only: ready_def line_def cons_ring.length_contents)
  from cons_ring.used_add [OF this] show ?thesis
    by (simp only: ready_def line_def cons_ring.length_contents cons_ring.used_def)
qed

section \<open>Changes of the buffer\<close>

definition type_char :: "u8 \<Rightarrow> devs \<Rightarrow> devs" where
  "type_char c d = d\<lparr>cons_buf := (cons_buf d)(unat (cons_e d) mod INPUT_BUF_SIZE := c), cons_e := cons_e d + 1\<rparr>"

definition erase :: "devs \<Rightarrow> devs" where
  "erase d = d\<lparr>cons_e := cons_e d - 1\<rparr>"

lemma type_char_lists:
  assumes "length (ready d) + length (line d) < INPUT_BUF_SIZE"
  shows "ready (type_char c d) = ready d" "line (type_char c d) = line d @ [c]"
proof -
  let ?j = "length (ready d) + length (line d)"
  have "cons_ring.used (cons_r d) (cons_e d) = ?j"
    using total_length assms by (simp add: cons_ring.used_def)
  then have slot: "unat (cons_e d) mod INPUT_BUF_SIZE = (unat (cons_r d) + ?j) mod INPUT_BUF_SIZE"
    using cons_ring.index [of "cons_r d" ?j] cons_ring.of_nat_used [of "cons_r d" "cons_e d"] by simp
  have le: "cons_ring.used (cons_r d) (cons_w d) \<le> ?j"
    by (simp add: ready_def)
  show "ready (type_char c d) = ready d"
    using cons_ring.contents_update_outside [OF le assms] by (simp add: ready_def type_char_def slot [simplified])
  have "cons_ring.used (cons_w d) (cons_e d) < INPUT_BUF_SIZE"
    using assms by (simp add: line_def)
  then show "line (type_char c d) = line d @ [c]"
    using cons_ring.contents_push by (simp add: line_def type_char_def)
qed

lemma erase_lists:
  assumes "cons_e d \<noteq> cons_w d"
  shows "ready (erase d) = ready d" "line (erase d) = butlast (line d)"
proof -
  have "0 < cons_ring.used (cons_w d) (cons_e d)"
    using assms cons_ring.used_zero [of "cons_w d" "cons_e d"] by auto
  then show "ready (erase d) = ready d" "line (erase d) = butlast (line d)"
    using cons_ring.contents_unpush by (simp_all add: ready_def line_def erase_def)
qed

lemma last_char:
  assumes "cons_e d \<noteq> cons_w d"
  shows "cons_buf d (unat (cons_e d - 1) mod INPUT_BUF_SIZE) \<in> set (line d)"
proof -
  let ?n = "cons_ring.used (cons_w d) (cons_e d)"
  have n: "0 < ?n"
    using assms cons_ring.used_zero [of "cons_w d" "cons_e d"] by auto
  then have "cons_w d + of_nat (?n - 1) = cons_e d - 1"
    using cons_ring.of_nat_used [of "cons_w d" "cons_e d"] by (simp add: of_nat_diff algebra_simps)
  moreover have "cons_buf d (unat (cons_w d + of_nat (?n - 1)) mod INPUT_BUF_SIZE) \<in> set (line d)"
    unfolding line_def cons_ring.contents_def set_map by (rule image_eqI [of _ _ "?n - 1"]) (use n in simp_all)
  ultimately show ?thesis
    by (simp only:)
qed

lemma commit_lists:
  assumes "length (ready d) + length (line d) \<le> INPUT_BUF_SIZE"
  shows "ready (d\<lparr>cons_w := cons_e d\<rparr>) = ready d @ line d" "line (d\<lparr>cons_w := cons_e d\<rparr>) = []"
proof -
  have "INPUT_BUF_SIZE < 2 ^ LENGTH(32)"
    by (simp add: INPUT_BUF_SIZE_def)
  then have "cons_ring.used (cons_r d) (cons_w d) + cons_ring.used (cons_w d) (cons_e d) < 2 ^ LENGTH(32)"
    using assms by (simp only: ready_def line_def cons_ring.length_contents)
  from cons_ring.contents_append [OF this]
  show "ready (d\<lparr>cons_w := cons_e d\<rparr>) = ready d @ line d" "line (d\<lparr>cons_w := cons_e d\<rparr>) = []"
    by (simp_all add: ready_def line_def)
qed


section \<open>Echo\<close>

text \<open>The transmitter answers that it is idle at least \<open>n\<close> more times.\<close>

definition responsive :: "nat \<Rightarrow> devs \<Rightarrow> bool" where
  "responsive n d \<longleftrightarrow> n \<le> length (filter id (lsr d)) \<and> \<not> panicked d"

lemma drop_busy:
  "Suc n \<le> length (filter id l) \<Longrightarrow> \<exists>l'. dropWhile Not l = True # l' \<and> n \<le> length (filter id l')"
  by (induction l) auto

lemma sync_inside:
  assumes "quiet st" and "responsive (Suc n) d"
  shows "\<exists>l. uartputc_sync i c d (acq i ConsLock st) = Ok (send c (d\<lparr>lsr := l\<rparr>), acq i ConsLock st) \<and>
    responsive n (send c (d\<lparr>lsr := l\<rparr>))"
proof -
  let ?st = "acq i ConsLock st"
  obtain l where l: "dropWhile Not (lsr d) = True # l" "n \<le> length (filter id l)"
    using drop_busy [of n "lsr d"] assms(2) by (auto simp: responsive_def)
  have "pop_off_cpu (push_off_cpu (cpus ?st i)) = Ok (cpus ?st i)"
    using pop_push_settle [OF cpu_ok_acq(1)] settle_inner [OF cpu_ok_acq(2)] quietD(4) [OF assms(1)] by metis
  then have "pop_off i (push_off i ?st) = Ok ?st"
    by (simp add: pop_off_def push_off_def)
  then show ?thesis
    using l assms(2) by (intro exI [of _ l]) (simp add: uartputc_sync_def responsive_def send_def)
qed

definition cons_frame :: "u8 list \<Rightarrow> devs \<Rightarrow> devs \<Rightarrow> bool" where
  "cons_frame out d d' \<longleftrightarrow> (\<exists>l. d' = d\<lparr>lsr := l, sent := sent d @ out\<rparr>)"

lemma cons_frame_fields:
  assumes "cons_frame out d d'"
  shows "ready d' = ready d" "line d' = line d" "sent d' = sent d @ out" "cons_e d' = cons_e d"
    "cons_w d' = cons_w d" "cons_r d' = cons_r d" "cons_buf d' = cons_buf d" "panicked d' = panicked d"
  using assms by (auto simp: cons_frame_def ready_def line_def)

lemma cons_frame_trans: "cons_frame a d d' \<Longrightarrow> cons_frame b d' d'' \<Longrightarrow> cons_frame (a @ b) d d''"
  by (auto simp: cons_frame_def)

lemma cons_frame_send: "cons_frame [c] d (send c (d\<lparr>lsr := l\<rparr>))"
  by (auto simp: cons_frame_def send_def)

lemma consputc_inside:
  assumes "quiet st" and "responsive (Suc n) d" and "c \<noteq> BACKSPACE"
  shows "\<exists>d'. consputc i c d (acq i ConsLock st) = Ok (d', acq i ConsLock st) \<and>
    cons_frame [ucast c] d d' \<and> responsive n d'"
  using sync_inside [OF assms(1,2), of i "ucast c"] assms(3) cons_frame_send
  by (auto simp: consputc_def)

lemma backspace_inside:
  assumes "quiet st" and "responsive (Suc (Suc (Suc n))) d"
  shows "\<exists>d'. consputc i BACKSPACE d (acq i ConsLock st) = Ok (d', acq i ConsLock st) \<and>
    cons_frame rubout d d' \<and> responsive n d'"
proof -
  let ?st = "acq i ConsLock st"
  obtain l1 where 1: "uartputc_sync i 8 d ?st = Ok (send 8 (d\<lparr>lsr := l1\<rparr>), ?st)" "responsive (Suc (Suc n)) (send 8 (d\<lparr>lsr := l1\<rparr>))"
    using sync_inside [OF assms(1), of "Suc (Suc n)" d i 8] assms(2) by auto
  obtain l2 where 2: "uartputc_sync i 32 (send 8 (d\<lparr>lsr := l1\<rparr>)) ?st = Ok (send 32 ((send 8 (d\<lparr>lsr := l1\<rparr>))\<lparr>lsr := l2\<rparr>), ?st)"
    "responsive (Suc n) (send 32 ((send 8 (d\<lparr>lsr := l1\<rparr>))\<lparr>lsr := l2\<rparr>))"
    using sync_inside [OF assms(1) 1(2), of i 32] by auto
  let ?d = "send 32 ((send 8 (d\<lparr>lsr := l1\<rparr>))\<lparr>lsr := l2\<rparr>)"
  obtain l3 where 3: "uartputc_sync i 8 ?d ?st = Ok (send 8 (?d\<lparr>lsr := l3\<rparr>), ?st)" "responsive n (send 8 (?d\<lparr>lsr := l3\<rparr>))"
    using sync_inside [OF assms(1) 2(2), of i 8] by auto
  have "cons_frame ([8] @ [32] @ [8]) d (send 8 (?d\<lparr>lsr := l3\<rparr>))"
    by (intro cons_frame_trans) (rule cons_frame_send)+
  then show ?thesis
    using 1 2 3 by (simp add: consputc_def rubout_def)
qed



lemma kill_line_ok:
  assumes q: "quiet st"
  shows "responsive (3 * length (line d)) d \<Longrightarrow> 10 \<notin> set (line d) \<Longrightarrow>
   \<exists>d'. kill_line i d (acq i ConsLock st) = Ok (d', acq i ConsLock st) \<and> ready d' = ready d \<and> line d' = [] \<and>
     sent d' = sent d @ concat (replicate (length (line d)) rubout)"
proof (induction "length (line d)" arbitrary: d)
  case 0
  then show ?case
    by (intro exI [of _ d]) (simp add: kill_line.simps line_empty)
next
  case (Suc n)
  let ?st = "acq i ConsLock st"
  have ne: "cons_e d \<noteq> cons_w d"
    using Suc.hyps(2) by (auto simp: line_empty)
  have nl: "cons_buf d (unat (cons_e d - 1) mod INPUT_BUF_SIZE) \<noteq> 10"
    using last_char [OF ne] Suc.prems(2) by auto
  have er: "line (erase d) = butlast (line d)" "ready (erase d) = ready d" "sent (erase d) = sent d"
    using erase_lists [OF ne] by (simp_all add: erase_def)
  have len: "length (line d) = Suc n"
    using Suc.hyps(2) by simp
  then have "responsive (Suc (Suc (Suc (3 * n)))) (erase d)"
    using Suc.prems(1) by (simp add: responsive_def erase_def)
  from backspace_inside [OF q this, of i] obtain d1 where
    d1: "consputc i BACKSPACE (erase d) ?st = Ok (d1, ?st)" "cons_frame rubout (erase d) d1" "responsive (3 * n) d1"
    by blast
  note f = cons_frame_fields [OF d1(2)]
  have step: "kill_line i d ?st = kill_line i d1 ?st"
    using ne nl d1(1) by (subst kill_line.simps) (simp add: erase_def)
  have l1: "line d1 = butlast (line d)"
    using f er by simp
  then have n: "n = length (line d1)"
    using len by simp
  moreover have "10 \<notin> set (line d1)"
    using l1 Suc.prems(2) in_set_butlastD by metis
  ultimately obtain d' where "kill_line i d1 ?st = Ok (d', ?st)" "ready d' = ready d1" "line d' = []"
    "sent d' = sent d1 @ concat (replicate (length (line d1)) rubout)"
    using Suc.hyps(1) [of d1] d1(3) by auto
  then show ?case
    unfolding step len using f(1,3) er n by (intro exI [of _ d']) simp
qed

section \<open>The interrupt handler refines the editor\<close>

lemma unat_byte: "unat (ucast (x :: u8) :: c_int) = unat x"
  by (simp add: unsigned_ucast_eq take_bit_nat_eq_self_iff less_trans [OF unsigned_less])

lemma byte_int: "(ucast (c :: u8) :: c_int) = ucast (k :: u8) \<longleftrightarrow> c = k"
  by (metis unat_byte word_unat_eq_iff)

lemma byte_int_simps:
  "(ucast (c :: u8) :: c_int) = 16 \<longleftrightarrow> c = 16" "(ucast c :: c_int) = 21 \<longleftrightarrow> c = 21" "(ucast c :: c_int) = 8 \<longleftrightarrow> c = 8"
  "(ucast c :: c_int) = 127 \<longleftrightarrow> c = 127" "(ucast c :: c_int) = 13 \<longleftrightarrow> c = 13" "(ucast c :: c_int) = 0 \<longleftrightarrow> c = 0"
  "(ucast c :: c_int) = 10 \<longleftrightarrow> c = 10" "(ucast c :: c_int) = 4 \<longleftrightarrow> c = 4"
  using byte_int [of c 16] byte_int [of c 21] byte_int [of c 8] byte_int [of c 127] byte_int [of c 13]
    byte_int [of c 0] byte_int [of c 10] byte_int [of c 4]
  by simp_all

lemma byte_not_backspace: "(ucast (c :: u8) :: c_int) \<noteq> BACKSPACE"
proof -
  have "unat (ucast c :: c_int) < 256"
    unfolding unat_byte using unsigned_less [of c, where 'a = nat] by simp
  moreover have "unat BACKSPACE = 256"
    by (simp add: BACKSPACE_def)
  ultimately show ?thesis
    by auto
qed


text \<open>The body of \<^verbatim>\<open>consoleintr\<close> between the acquire and the release, for a byte.\<close>

definition intr_result :: "nat \<Rightarrow> u8 \<Rightarrow> devs \<Rightarrow> machine \<Rightarrow> devs \<Rightarrow> machine \<Rightarrow> bool" where
  "intr_result i c d st d' st' \<longleftrightarrow>
     quiet st' \<and> (ready d', line d') = edit c (ready d, line d) \<and> sent d' = sent d @ echo c (ready d, line d) \<and>
     (ready d' \<noteq> ready d \<longrightarrow> woken i ch_cons_r st st') \<and> ph st' = ph st"

lemma commit_typed:
  assumes "length (ready d) + length (line d) < INPUT_BUF_SIZE"
  shows "ready ((type_char c d)\<lparr>cons_w := cons_e d + 1\<rparr>) = ready d @ line d @ [c]"
    "line ((type_char c d)\<lparr>cons_w := cons_e d + 1\<rparr>) = []"
proof -
  have "length (ready (type_char c d)) + length (line (type_char c d)) \<le> INPUT_BUF_SIZE"
    using assms by (simp add: type_char_lists)
  from commit_lists [OF this] show "ready ((type_char c d)\<lparr>cons_w := cons_e d + 1\<rparr>) = ready d @ line d @ [c]"
    "line ((type_char c d)\<lparr>cons_w := cons_e d + 1\<rparr>) = []"
    using assms by (simp_all add: type_char_lists) (simp_all add: type_char_def)
qed

lemma edit_ok:
  assumes "edit c (rd, ln) = (rd', ln')" and "length rd + length ln \<le> INPUT_BUF_SIZE" and "10 \<notin> set ln"
  shows "length rd' + length ln' \<le> INPUT_BUF_SIZE \<and> 10 \<notin> set ln'"
  using assms by (auto simp: Let_def split: if_splits dest: in_set_butlastD)

lemma consoleintr_default:
  assumes q: "quiet st" and ok: "cons_ok d" and c: "c \<noteq> 0" "c \<notin> {16, 21, 8, 127}"
    and room: "length (ready d) + length (line d) < INPUT_BUF_SIZE" and resp: "responsive (Suc 0) d"
  shows "\<exists>d' st'. consoleintr i (ucast c) d st = Ok (d', st') \<and> intr_result i c d st d' st'"
proof -
  define x where "x = (if c = 13 then 10 else c)"
  let ?st = "acq i ConsLock st"
  let ?d = "d\<lparr>kbd_intr_count := kbd_intr_count d + 1\<rparr>"
  have ci: "(if c = 13 then 10 else ucast c) = (ucast x :: c_int)"
    by (simp add: x_def)
  have "responsive (Suc 0) ?d"
    using resp by (simp add: responsive_def)
  from consputc_inside [OF q this byte_not_backspace, of i x] obtain d1 where
    d1: "consputc i (ucast x) ?d ?st = Ok (d1, ?st)" "cons_frame [x] ?d d1"
    by auto
  have lists: "ready ?d = ready d" "line ?d = line d"
    by (simp_all add: ready_def line_def)
  note f = cons_frame_fields [OF d1(2)]
  have room1: "length (ready d1) + length (line d1) < INPUT_BUF_SIZE"
    using room f lists by simp
  note t = type_char_lists [OF room1, of x] commit_typed [OF room1, of x]
  have tot: "unat (cons_e d - cons_r d) = length (ready d) + length (line d)"
    using total_length room by simp
  have tot1: "unat (cons_e d1 + 1 - cons_r d1) = length (ready d) + length (line d) + 1"
    using total_length [of "type_char x d1"] room1 t f lists by (simp add: type_char_def)
  have lk: "\<forall>k. ConsLock \<noteq> PLock k"
    by (simp add: ConsLock_def)
  show ?thesis
  proof (cases "x = 10 \<or> x = 4 \<or> length (ready d) + length (line d) + 1 = INPUT_BUF_SIZE")
    case True
    let ?w = "st\<lparr>procs := on_range 0 NPROC (wake_if (myproc i st) (Some ch_cons_r) (ticks st)) (procs st)\<rparr>"
    let ?d' = "(type_char x d1)\<lparr>cons_w := cons_e d1 + 1\<rparr>"
    have run: "consoleintr i (ucast c) d st = Ok (?d', settled True i ?w)"
      using c room tot tot1 True q lk d1(1) wakeup_inside [OF q lk, of i "Some ch_cons_r"]
      by (simp add: consoleintr_def Let_def ci byte_int_simps lock_rules quietD f type_char_def)
    have "woken i ch_cons_r st (settled True i ?w)"
      by (auto simp: woken_def on_range_def wake_if_def wake_def)
    moreover have "sent ?d' = sent d @ [x]"
      using f(3) by (simp add: type_char_def)
    moreover have "edit c (ready d, line d) = (ready d @ line d @ [x], [])"
      using c room True by (auto simp: Let_def x_def)
    ultimately have "intr_result i c d st ?d' (settled True i ?w)"
      using q c room t(3,4) f lists by (simp add: intr_result_def x_def del: edit.simps)
    then show ?thesis
      using run by blast
  next
    case False
    have run: "consoleintr i (ucast c) d st = Ok (type_char x d1, settled True i st)"
      using c room tot tot1 False q lk d1(1)
      by (simp add: consoleintr_def Let_def ci byte_int_simps lock_rules quietD f type_char_def)
    have "sent (type_char x d1) = sent d @ [x]"
      using f(3) by (simp add: type_char_def)
    moreover have "edit c (ready d, line d) = (ready d, line d @ [x])"
      using c room False by (auto simp: Let_def x_def)
    ultimately have "intr_result i c d st (type_char x d1) (settled True i st)"
      using q c room t(1,2) f lists by (simp add: intr_result_def x_def del: edit.simps)
    then show ?thesis
      using run by blast
  qed
qed


lemma consoleintr_kill:
  assumes q: "quiet st" and ok: "cons_ok d" and resp: "responsive (3 * length (line d)) d"
  shows "\<exists>d' st'. consoleintr i 21 d st = Ok (d', st') \<and> intr_result i 21 d st d' st'"
proof -
  let ?d = "d\<lparr>kbd_intr_count := kbd_intr_count d + 1\<rparr>"
  have lists: "ready ?d = ready d" "line ?d = line d"
    by (simp_all add: ready_def line_def)
  have "responsive (3 * length (line ?d)) ?d" "10 \<notin> set (line ?d)"
    using resp ok lists by (simp_all add: responsive_def cons_ok_def)
  from kill_line_ok [OF q this, of i] obtain d' where
    d': "kill_line i ?d (acq i ConsLock st) = Ok (d', acq i ConsLock st)" "ready d' = ready d" "line d' = []"
    "sent d' = sent d @ concat (replicate (length (line d)) rubout)"
    unfolding lists by auto
  then have "consoleintr i 21 d st = Ok (d', settled True i st)"
    using q by (simp add: consoleintr_def Let_def lock_rules quietD)
  then show ?thesis
    using d' q by (auto simp: intr_result_def)
qed

lemma consoleintr_rubout:
  assumes q: "quiet st" and c: "c = 8 \<or> c = 127" and resp: "responsive (if line d = [] then 0 else 3) d"
  shows "\<exists>d' st'. consoleintr i (ucast c) d st = Ok (d', st') \<and> intr_result i c d st d' st'"
proof -
  let ?d = "d\<lparr>kbd_intr_count := kbd_intr_count d + 1\<rparr>" and ?st = "acq i ConsLock st"
  have lists: "ready ?d = ready d" "line ?d = line d"
    by (simp_all add: ready_def line_def)
  show ?thesis
  proof (cases "cons_e d = cons_w d")
    case True
    then have "consoleintr i (ucast c) d st = Ok (?d, settled True i st)"
      using q c by (auto simp: consoleintr_def Let_def lock_rules quietD)
    then show ?thesis
      using True q c lists by (auto simp: intr_result_def line_empty)
  next
    case False
    then have ne: "cons_e ?d \<noteq> cons_w ?d"
      by simp
    have "responsive (Suc (Suc (Suc 0))) (erase ?d)"
      using resp False by (simp add: responsive_def erase_def line_empty)
    from backspace_inside [OF q this, of i] obtain d' where
      d': "consputc i BACKSPACE (erase ?d) ?st = Ok (d', ?st)" "cons_frame rubout (erase ?d) d'"
      by blast
    note f = cons_frame_fields [OF d'(2)] and e = erase_lists [OF ne]
    have "sent (erase ?d) = sent d"
      by (simp add: erase_def)
    moreover have "consoleintr i (ucast c) d st = Ok (d', settled True i st)"
      using False q c d'(1) by (auto simp: consoleintr_def Let_def lock_rules quietD erase_def)
    ultimately show ?thesis
      using False q c lists f e by (auto simp: intr_result_def line_empty)
  qed
qed

lemma consoleintr_ignore:
  assumes q: "quiet st" and c: "c \<notin> {16, 21, 8, 127}"
    and full: "\<not> (c \<noteq> 0 \<and> length (ready d) + length (line d) < INPUT_BUF_SIZE)" and ok: "cons_ok d"
  shows "\<exists>d' st'. consoleintr i (ucast c) d st = Ok (d', st') \<and> intr_result i c d st d' st'"
proof -
  let ?d = "d\<lparr>kbd_intr_count := kbd_intr_count d + 1\<rparr>"
  have "unat (cons_e d - cons_r d) = length (ready d) + length (line d)"
    using total_length ok by (simp add: cons_ok_def)
  then have "consoleintr i (ucast c) d st = Ok (?d, settled True i st)"
    using q c full by (auto simp: consoleintr_def Let_def lock_rules quietD byte_int_simps)
  moreover have "ready ?d = ready d" "line ?d = line d"
    by (simp_all add: ready_def line_def)
  ultimately show ?thesis
    using q c full by (auto simp: intr_result_def)
qed

text \<open>
  Claim C7: console input is line editing. Each typed character but Control-P changes the lists of
  finished and unfinished input as the editor says: it is appended, erases the last character or the
  whole unfinished line, or is dropped when the buffer is full; a newline, Control-D or a full buffer
  finishes the line and wakes the readers. The echo is exactly what the terminal needs, at most 128
  bytes are kept, and the handler returns as long as the transmitter answers.
\<close>

theorem consoleintr_edits_line:
  assumes "quiet st" and "cons_ok d" and "c \<noteq> 16" and "responsive (length (echo c (ready d, line d))) d"
  shows "\<exists>d' st'. consoleintr i (ucast c) d st = Ok (d', st') \<and> cons_ok d' \<and> quiet st' \<and>
    (ready d', line d') = edit c (ready d, line d) \<and> sent d' = sent d @ echo c (ready d, line d) \<and>
    (ready d' \<noteq> ready d \<longrightarrow> woken i ch_cons_r st st')"
proof -
  have "\<exists>d' st'. consoleintr i (ucast c) d st = Ok (d', st') \<and> intr_result i c d st d' st'"
  proof (cases "c \<in> {21, 8, 127}")
    case True
    have "length (echo 21 (ready d, line d)) = 3 * length (line d)"
        by (simp add: length_concat rubout_def sum_list_replicate map_replicate)
    then show ?thesis
      using True assms consoleintr_kill [OF assms(1,2), of i] consoleintr_rubout [OF assms(1), of c d i]
      by (auto simp: rubout_def numeral_3_eq_3 split: if_splits)
  next
    case False
    then show ?thesis
      using assms consoleintr_default [OF assms(1,2), of c i] consoleintr_ignore [OF assms(1), of c d i]
      by (cases "c \<noteq> 0 \<and> length (ready d) + length (line d) < INPUT_BUF_SIZE") auto
  qed
  then show ?thesis
    using assms(2) edit_ok unfolding intr_result_def cons_ok_def by metis
qed


definition demo_devs :: devs where
  "demo_devs = \<lparr>tx_buf = (\<lambda>_. 0), tx_w = 7, tx_r = 7, lsr = replicate 9 True, sent = [], rx = [], panicked = False,
     pr_locking = True, cons_buf = (\<lambda>_. 97), cons_r = 0xFFFFFFFE, cons_w = 0xFFFFFFFF, cons_e = 1, kbd_intr_count = 0\<rparr>"

lemma demo_devs: "ready demo_devs = [97]" "line demo_devs = [97, 97]" "cons_ok demo_devs"
proof -
  show r: "ready demo_devs = [97]" and l: "line demo_devs = [97, 97]"
    by (simp_all add: demo_devs_def ready_def line_def cons_ring.contents_def cons_ring.used_def upt_rec)
  then show "cons_ok demo_devs"
    by (simp add: cons_ok_def INPUT_BUF_SIZE_def)
qed

theorem consoleintr_edits_line_witness:
  "\<exists>d' st'. consoleintr 0 (ucast (13 :: u8)) demo_devs demo_writer = Ok (d', st') \<and>
     ready d' = [97, 97, 97, 10] \<and> line d' = [] \<and> sent d' = [10]"
proof -
  have "responsive (length (echo 13 (ready demo_devs, line demo_devs))) demo_devs"
    by (simp add: demo_devs INPUT_BUF_SIZE_def) (simp add: demo_devs_def responsive_def)
  then show ?thesis
    using consoleintr_edits_line [OF demo_writer(1) demo_devs(3), of 13 0]
    by (auto simp: demo_devs(1,2) INPUT_BUF_SIZE_def Let_def) (auto simp: demo_devs_def)
qed

section \<open>Reading lines\<close>

text \<open>
  What a read of at most \<open>r\<close> bytes takes from the finished input: a line, up to and including its
  newline, but at most \<open>r\<close> bytes. Control-D ends the read; it is taken only by the read that finds it
  first (\<open>b\<close>). The last component tells that the input ran out before any of these.
\<close>

fun take_line :: "nat \<Rightarrow> bool \<Rightarrow> u8 list \<Rightarrow> u8 list \<times> u8 list \<times> bool" where
  "take_line 0 b rd = ([], rd, False)"
| "take_line (Suc r) b [] = ([], [], True)"
| "take_line (Suc r) b (c # rd) =
     (if c = 4 then ([], if b then rd else c # rd, False)
      else if c = 10 then ([c], rd, False)
      else case take_line r False rd of (bs, rest, dry) \<Rightarrow> (c # bs, rest, dry))"

definition pop_ready :: "devs \<Rightarrow> devs" where
  "pop_ready d = d\<lparr>cons_r := cons_r d + 1\<rparr>"

lemma ready_pop:
  assumes "cons_r d \<noteq> cons_w d"
  shows "ready d = cons_buf d (unat (cons_r d) mod INPUT_BUF_SIZE) # ready (pop_ready d)"
    "line (pop_ready d) = line d"
proof -
  have "0 < cons_ring.used (cons_r d) (cons_w d)"
    using assms cons_ring.used_zero by blast
  then show "ready d = cons_buf d (unat (cons_r d) mod INPUT_BUF_SIZE) # ready (pop_ready d)"
    using cons_ring.contents_pop by (simp add: ready_def pop_ready_def)
  show "line (pop_ready d) = line d"
    by (simp add: line_def pop_ready_def)
qed

definition read_outcome :: "nat \<Rightarrow> machine \<Rightarrow> nat \<Rightarrow> bool \<Rightarrow> c_int + nat \<Rightarrow> machine \<Rightarrow> bool" where
  "read_outcome p st k dry x st' \<longleftrightarrow>
     (if dry
      then if p_killed (procs st p) \<noteq> 0 then x = Inl (- 1) \<and> quiet st' else x = Inr k \<and> waits p ch_cons_r st'
      else x = Inl (of_nat k) \<and> quiet st')"

lemma acq_ph: "(acq i l st)\<lparr>ph := s\<rparr> = acq i l (st\<lparr>ph := s\<rparr>)"
  by (simp add: acq_def)

lemma consoleread_done_inside:
  "quiet st \<Longrightarrow> consoleread_done i k d (acq i ConsLock st) = Ok (Inl (of_nat k), d, settled True i st)"
  by (simp add: consoleread_done_def lock_rules quietD)

lemma consoleread_empty:
  assumes "quiet st" and "myproc i st = Some p" and "cons_r d = cons_w d"
  shows "\<exists>x st'. consoleread_loop i True dst k (Suc r) d (acq i ConsLock st) = Ok (x, d, st') \<and>
    ph st' = ph st \<and> read_outcome p st k True x st'"
proof (cases "p_killed (procs st p) = 0")
  case True
  obtain st' where "sleep i ch_cons_r ConsLock (acq i ConsLock st) = Ok st'" "ph st' = ph st" "waits p ch_cons_r st'"
    using sleep_release [OF assms(1,2)] unfolding ConsLock_def by blast
  then show ?thesis
    using assms True killed_inside [OF assms(1), of i p 2] by (simp add: read_outcome_def ConsLock_def)
next
  case False
  then show ?thesis
    using assms killed_inside [OF assms(1), of i p 2]
    by (simp add: read_outcome_def ConsLock_def lock_rules quietD)
qed


lemma consoleread_loop_ok:
  "quiet st \<Longrightarrow> myproc i st = Some p \<Longrightarrow> user_space (ph st) (p_pagetable (procs st p)) fs A \<Longrightarrow>
   \<forall>j<r. uwritable (pmem (ph st)) (p_pagetable (procs st p)) (dst + of_nat (k + j)) \<Longrightarrow>
   take_line r (k = 0) (ready d) = (bs, rest, dry) \<Longrightarrow>
   \<exists>x d' st'. consoleread_loop i True dst k r d (acq i ConsLock st) = Ok (x, d', st') \<and>
     ready d' = rest \<and> line d' = line d \<and> read_outcome p st (k + length bs) dry x st' \<and>
     user_space (ph st') (p_pagetable (procs st p)) fs A \<and>
     written (pmem (ph st)) (pmem (ph st')) (p_pagetable (procs st p)) A (dst + of_nat k) bs"
proof (induction r arbitrary: k d st bs rest dry)
  case 0
  then show ?case
    by (intro exI [of _ "Inl (of_nat k)"] exI [of _ d] exI [of _ "settled True i st"])
       (auto simp: consoleread_done_inside read_outcome_def written_nil)
next
  case (Suc r)
  let ?pt = "p_pagetable (procs st p)" and ?va = "dst + of_nat k" and ?m = "pmem (ph st)" and ?l = "acq i ConsLock"
  let ?c = "cons_buf d (unat (cons_r d) mod INPUT_BUF_SIZE)"
  have wr: "uwritable ?m ?pt ?va"
    using Suc.prems(4) by (metis add.right_neutral zero_less_Suc)
  show ?case
  proof (cases "cons_r d = cons_w d")
    case True
    then have "ready d = []"
      by (simp add: ready_empty)
    then have "bs = []" "rest = []" "dry"
      using Suc.prems(5) by simp_all
    then show ?thesis
      using consoleread_empty [OF Suc.prems(1,2) True, of dst k r] Suc.prems(3) \<open>ready d = []\<close>
      by (auto simp: written_nil)
  next
    case ne: False
    note pop = ready_pop [OF ne]
    obtain s1 where s1: "copyout ?pt ?va [?c] (ph st) = Ok (0, s1)" "user_space s1 ?pt fs A"
      "written ?m (pmem s1) ?pt A ?va [?c]"
      using copyout_byte [OF Suc.prems(3), of ?va ?c] wr by auto
    have out: "either_copyout i True ?va [?c] (?l st) = Ok (0, ?l (st\<lparr>ph := s1\<rparr>))"
      using Suc.prems(2) s1(1) by (simp add: either_copyout_def acq_ph)
    have q1: "quiet (st\<lparr>ph := s1\<rparr>)" "myproc i (st\<lparr>ph := s1\<rparr>) = Some p"
      using Suc.prems(1,2) by (simp_all add: quiet_def myproc_def)
    consider (eof) "?c = 4" | (nl) "?c = 10" | (other) "?c \<noteq> 4" "?c \<noteq> 10"
      by blast
    then show ?thesis
    proof cases
      case eof
      then have "bs = []" "rest = (if k = 0 then ready (pop_ready d) else ready d)" "\<not> dry"
        using Suc.prems(5) pop(1) by (simp_all split: if_splits)
      then show ?thesis
        using eof ne Suc.prems(1,3) pop(2)
        by (intro exI [of _ "Inl (of_nat k)"] exI [of _ "if 0 < k then d else pop_ready d"] exI [of _ "settled True i st"])
           (auto simp: consoleread_done_inside read_outcome_def written_nil Let_def pop_ready_def)
    next
      case nl
      then have "bs = [?c]" "rest = ready (pop_ready d)" "\<not> dry"
        using Suc.prems(5) pop(1) by (simp_all split: if_splits)
      then show ?thesis
        using nl ne q1 out s1 pop(2) consoleread_done_inside [OF q1(1), of i "Suc k" "pop_ready d"]
        by (intro exI [of _ "Inl (of_nat (Suc k))"] exI [of _ "pop_ready d"] exI [of _ "settled True i (st\<lparr>ph := s1\<rparr>)"])
           (auto simp: read_outcome_def Let_def pop_ready_def)
    next
      case other
      obtain bs' where t: "take_line r False (ready (pop_ready d)) = (bs', rest, dry)" "bs = ?c # bs'"
        using Suc.prems(5) pop(1) other by (auto split: prod.splits)
      have "\<forall>j<r. uwritable (pmem s1) ?pt (dst + of_nat (Suc k + j))"
        using Suc.prems(4) uacc_written(2) [OF s1(3)] by (metis add_Suc_right add_Suc_shift Suc_less_eq)
      then obtain x d' st' where IH: "consoleread_loop i True dst (Suc k) r (pop_ready d) (?l (st\<lparr>ph := s1\<rparr>)) = Ok (x, d', st')"
        "ready d' = rest" "line d' = line (pop_ready d)" "read_outcome p st (Suc k + length bs') dry x st'"
        "user_space (ph st') ?pt fs A" "written (pmem s1) (pmem (ph st')) ?pt A (?va + 1) bs'"
        using Suc.IH [OF q1, where k = "Suc k" and d = "pop_ready d"] s1(2) t(1)
        by (auto simp: read_outcome_def ac_simps)
      have "consoleread_loop i True dst k (Suc r) d (?l st) = Ok (x, d', st')"
        using other ne out IH(1) by (simp add: Let_def pop_ready_def)
      moreover have "written ?m (pmem (ph st')) ?pt A ?va ([?c] @ bs')"
        using s1(3) IH(6) next_addr [OF wr] by (intro written_trans [of _ "pmem s1"]) simp_all
      ultimately show ?thesis
        using IH(2-5) pop(2) t(2) by auto
    qed
  qed
qed


lemma take_line_length: "take_line r b rd = (bs, rest, dry) \<Longrightarrow> length bs \<le> r"
  by (induction r b rd arbitrary: bs rest dry rule: take_line.induct) (auto split: if_splits prod.splits)

text \<open>
  Claim C27: a read of the console delivers a line. With a destination the caller can write, it takes
  from the finished input up to a newline, up to the number of bytes asked for, or up to a Control-D,
  which alone makes it return 0 bytes; the bytes are then in the memory of the caller. When the input
  runs out first the caller sleeps, keeping what it has got, or fails if it was killed.
\<close>

theorem consoleread_takes_line:
  assumes "quiet st" and "myproc i st = Some p"
    and "user_space (ph st) (p_pagetable (procs st p)) fs A"
    and "\<forall>j < nat (sint n) - k. uwritable (pmem (ph st)) (p_pagetable (procs st p)) (dst + of_nat (k + j))"
    and "take_line (nat (sint n) - k) (k = 0) (ready d) = (bs, rest, dry)"
  shows "\<exists>x d' st'. consoleread_from i True dst n k d st = Ok (x, d', st') \<and> ready d' = rest \<and>
    line d' = line d \<and> read_outcome p st (k + length bs) dry x st' \<and>
    ubytes (pmem (ph st')) (p_pagetable (procs st p)) (dst + of_nat k) (length bs) = bs"
proof -
  obtain x d' st' where "consoleread_loop i True dst k (nat (sint n) - k) d (acq i ConsLock st) = Ok (x, d', st')"
    "ready d' = rest" "line d' = line d" "read_outcome p st (k + length bs) dry x st'"
    and us: "user_space (ph st') (p_pagetable (procs st p)) fs A"
    and w: "written (pmem (ph st)) (pmem (ph st')) (p_pagetable (procs st p)) A (dst + of_nat k) bs"
    using consoleread_loop_ok [OF assms] by blast
  moreover have "\<forall>j<length bs. uwritable (pmem (ph st)) (p_pagetable (procs st p)) (dst + of_nat k + of_nat j)"
    using assms(4) take_line_length [OF assms(5)] by (simp add: add.assoc)
  ultimately show ?thesis
    using assms(1) ubytes_written(1) [OF w us] by (simp add: consoleread_from_def lock_rules quietD)
qed

theorem consoleread_takes_line_witness:
  "\<exists>x d' st'. consoleread_from 0 True 0x20 1 0 demo_devs demo_writer = Ok (x, d', st') \<and>
     x = Inl 1 \<and> ready d' = [] \<and> ubytes (pmem (ph st')) demo_root 0x20 1 = [97]"
proof -
  have "uwritable demo_mem demo_root 0x20"
  proof -
    have "page 0x20 = 0" "(0x20 :: u64) < MAXVA"
      by (simp_all add: page_def word_less_nat_alt)
    then show ?thesis
      using demo_leaf [of "0x20"] by (simp add: uwritable_def uacc_def bit_simps PTE_bits)
  qed
  moreover have "pmem (ph demo_writer) = demo_mem" "p_pagetable (procs demo_writer 2) = demo_root"
    by (simp_all add: demo_writer_def demo_phys_def)
  ultimately show ?thesis
    using consoleread_takes_line [OF demo_writer(1,2,4), of 1 0 "0x20" demo_devs "[97]" "[]" False]
    by (auto simp: demo_devs read_outcome_def)
qed

end
