(* ===== verification/Xv6_Fs.thy ===== *)
theory Xv6_Fs
  imports Xv6_Log Xv6_Proc
begin

text \<open>
  The file system, \<^verbatim>\<open>kernel/fs.c\<close>: block allocation, inodes and their contents, directories and
  paths. A \<^verbatim>\<open>struct inode *\<close> is the index of the entry in \<^verbatim>\<open>itable\<close>; the null pointer is \<open>None\<close>.

  Fields of the structures on the disk are read and written at their byte offsets in the block. A
  transfer to or from the kernel's own variables carries the bytes; a transfer to or from user
  memory goes through the page table of the running process, which is the process of the machine
  \<open>mach\<close> on the processor \<open>hart\<close>. Strings are the bytes before their NUL.
\<close>

section \<open>Data\<close>

record superblock =
  sb_magic :: u32
  sb_size :: u32
  sb_nblocks :: u32
  sb_ninodes :: u32
  sb_nlog :: u32
  sb_logstart :: u32
  sb_inodestart :: u32
  sb_bmapstart :: u32

record inode =
  i_dev :: u32
  i_inum :: u32
  i_ref :: c_int
  i_lock :: sleeplock
  i_valid :: bool
  i_type :: u16
  i_major :: u16
  i_minor :: u16
  i_nlink :: u16
  i_size :: u32
  i_addrs :: "nat \<Rightarrow> u32"

record fsys = logst +
  sb :: superblock
  itab :: "nat \<Rightarrow> inode"
  mach :: machine
  hart :: nat

definition FSMAGIC :: u32 where "FSMAGIC = 0x10203040"
definition ROOTINO :: u32 where "ROOTINO = 1"
definition NINODE :: nat where "NINODE = 50"
definition NDIRECT :: nat where "NDIRECT = 12"
definition NINDIRECT :: nat where "NINDIRECT = BSIZE div 4"
definition MAXFILE :: nat where "MAXFILE = NDIRECT + NINDIRECT"
definition BPB :: nat where "BPB = BSIZE * 8"
definition DINODE_SIZE :: nat where "DINODE_SIZE = 64"
definition IPB :: nat where "IPB = BSIZE div DINODE_SIZE"
definition DIRSIZ :: nat where "DIRSIZ = 14"
definition DIRENT_SIZE :: nat where "DIRENT_SIZE = 16"
definition T_DIR :: u16 where "T_DIR = 1"
definition T_FILE :: u16 where "T_FILE = 2"
definition T_DEVICE :: u16 where "T_DEVICE = 3"

definition IBLOCK :: "u32 \<Rightarrow> superblock \<Rightarrow> u32" where
  "IBLOCK i s = i div of_nat IPB + sb_inodestart s"

definition BBLOCK :: "u32 \<Rightarrow> superblock \<Rightarrow> u32" where
  "BBLOCK b s = b div of_nat BPB + sb_bmapstart s"

definition upd_inode :: "nat \<Rightarrow> (inode \<Rightarrow> inode) \<Rightarrow> 'z fsys_scheme \<Rightarrow> 'z fsys_scheme" where
  "upd_inode k f st = st\<lparr>itab := (itab st)(k := f (itab st k))\<rparr>"

definition set_data :: "nat \<Rightarrow> block \<Rightarrow> 'z bcache_scheme \<Rightarrow> 'z bcache_scheme" where
  "set_data b d st = upd_buf b (\<lambda>x. x\<lparr>b_data := d\<rparr>) st"

section \<open>Super block\<close>

definition get_sb :: "block \<Rightarrow> superblock" where
  "get_sb d = \<lparr>sb_magic = load_le d 0 4, sb_size = load_le d 4 4, sb_nblocks = load_le d 8 4,
     sb_ninodes = load_le d 12 4, sb_nlog = load_le d 16 4, sb_logstart = load_le d 20 4,
     sb_inodestart = load_le d 24 4, sb_bmapstart = load_le d 28 4\<rparr>"

definition readsb :: "u32 \<Rightarrow> 'z fsys_scheme \<Rightarrow> 'z fsys_scheme res" where
  "readsb dev st = rbind (bread dev 1 st) (\<lambda>(bp, st). brelse bp (st\<lparr>sb := get_sb (b_data (bufs st bp))\<rparr>))"

definition fsinit :: "u32 \<Rightarrow> 'z fsys_scheme \<Rightarrow> 'z fsys_scheme res" where
  "fsinit dev st =
     rbind (readsb dev st) (\<lambda>st.
       if sb_magic (sb st) \<noteq> FSMAGIC then Panic ''invalid file system''
       else initlog dev (sb_logstart (sb st)) (sb_nlog (sb st)) st)"

section \<open>Blocks\<close>

definition bzero :: "u32 \<Rightarrow> u32 \<Rightarrow> 'z fsys_scheme \<Rightarrow> 'z fsys_scheme res" where
  "bzero dev bno st =
     rbind (bread dev bno st) (\<lambda>(bp, st).
     rbind (log_write bp (set_data bp (memset (b_data (bufs st bp)) 0 0 (of_nat BSIZE)) st)) (\<lambda>st.
     brelse bp st))"

text \<open>
  The inner loop of \<^verbatim>\<open>balloc\<close>: the first of the \<open>n\<close> bits from \<open>bi\<close> that is clear. The messages that \<^verbatim>\<open>balloc\<close>
  and \<^verbatim>\<open>ialloc\<close> print on the console before they return 0 are left out: the state of the file system has no console.
\<close>

fun clear_bit :: "block \<Rightarrow> nat \<Rightarrow> nat \<Rightarrow> nat option" where
  "clear_bit d bi 0 = None"
| "clear_bit d bi (Suc n) =
     (if d (bi div 8) AND push_bit (bi mod 8) 1 = 0 then Some bi else clear_bit d (Suc bi) n)"

function balloc_from :: "u32 \<Rightarrow> nat \<Rightarrow> nat \<Rightarrow> 'z fsys_scheme \<Rightarrow> (u32 \<times> 'z fsys_scheme) res" where
  "balloc_from dev b sz st =
     (if b < sz then
        rbind (bread dev (BBLOCK (of_nat b) (sb st)) st) (\<lambda>(bp, st).
          let d = b_data (bufs st bp) in
          case clear_bit d 0 (min BPB (sz - b)) of
            Some bi \<Rightarrow>
              rbind (log_write bp (set_data bp (d(bi div 8 := d (bi div 8) OR push_bit (bi mod 8) 1)) st)) (\<lambda>st.
              rbind (brelse bp st) (\<lambda>st.
              rbind (bzero dev (of_nat (b + bi)) st) (\<lambda>st.
              Ok (of_nat (b + bi), st))))
          | None \<Rightarrow> rbind (brelse bp st) (\<lambda>st. balloc_from dev (b + BPB) sz st))
      else Ok (0, st))"
  by pat_completeness auto
termination
  by (relation "measure (\<lambda>(dev, b, sz, st). sz - b)") (auto simp: BPB_def BSIZE_def)

declare balloc_from.simps [simp del]

definition balloc :: "u32 \<Rightarrow> 'z fsys_scheme \<Rightarrow> (u32 \<times> 'z fsys_scheme) res" where
  "balloc dev st = balloc_from dev 0 (unat (sb_size (sb st))) st"

definition bfree :: "u32 \<Rightarrow> u32 \<Rightarrow> 'z fsys_scheme \<Rightarrow> 'z fsys_scheme res" where
  "bfree dev b st =
     rbind (bread dev (BBLOCK b (sb st)) st) (\<lambda>(bp, st).
       let d = b_data (bufs st bp); bi = unat b mod BPB; m = push_bit (bi mod 8) 1
       in if d (bi div 8) AND m = 0 then Panic ''freeing free block''
          else
            rbind (log_write bp (set_data bp (d(bi div 8 := d (bi div 8) AND NOT m)) st)) (\<lambda>st.
            brelse bp st))"

section \<open>Inodes\<close>

definition iinit :: "'z fsys_scheme \<Rightarrow> 'z fsys_scheme" where
  "iinit st = st\<lparr>itab := (\<lambda>i. if i < NINODE then (itab st i)\<lparr>i_lock := initsleeplock ''inode''\<rparr> else itab st i)\<rparr>"

text \<open>The loop of \<^verbatim>\<open>iget\<close>: \<open>Inl\<close> an entry that holds the inode, \<open>Inr\<close> the first free entry seen.\<close>

fun iget_scan :: "u32 \<Rightarrow> u32 \<Rightarrow> nat \<Rightarrow> nat \<Rightarrow> nat option \<Rightarrow> (nat \<Rightarrow> inode) \<Rightarrow> nat + nat option" where
  "iget_scan dev inum k 0 free t = Inr free"
| "iget_scan dev inum k (Suc n) free t =
     (if 0 <s i_ref (t k) \<and> i_dev (t k) = dev \<and> i_inum (t k) = inum then Inl k
      else iget_scan dev inum (Suc k) n (if free = None \<and> i_ref (t k) = 0 then Some k else free) t)"

definition iget :: "u32 \<Rightarrow> u32 \<Rightarrow> 'z fsys_scheme \<Rightarrow> (nat \<times> 'z fsys_scheme) res" where
  "iget dev inum st =
     (case iget_scan dev inum 0 NINODE None (itab st) of
        Inl k \<Rightarrow> Ok (k, upd_inode k (\<lambda>ip. ip\<lparr>i_ref := i_ref ip + 1\<rparr>) st)
      | Inr None \<Rightarrow> Panic ''iget: no inodes''
      | Inr (Some k) \<Rightarrow> Ok (k, upd_inode k (\<lambda>ip. ip\<lparr>i_dev := dev, i_inum := inum, i_ref := 1, i_valid := False\<rparr>) st))"

definition idup :: "nat \<Rightarrow> 'z fsys_scheme \<Rightarrow> nat \<times> 'z fsys_scheme" where
  "idup ip st = (ip, upd_inode ip (\<lambda>x. x\<lparr>i_ref := i_ref x + 1\<rparr>) st)"

text \<open>The byte offset of an inode in its block, and its fields there.\<close>

definition dip :: "u32 \<Rightarrow> nat" where
  "dip inum = unat inum mod IPB * DINODE_SIZE"

fun put_addrs :: "nat \<Rightarrow> nat \<Rightarrow> (nat \<Rightarrow> u32) \<Rightarrow> nat \<Rightarrow> block \<Rightarrow> block" where
  "put_addrs j 0 a o' d = d"
| "put_addrs j (Suc n) a o' d = put_addrs (Suc j) n a o' (store_le d (o' + 12 + 4 * j) 4 (a j))"

definition put_dinode :: "inode \<Rightarrow> nat \<Rightarrow> block \<Rightarrow> block" where
  "put_dinode ip o' d =
     put_addrs 0 (NDIRECT + 1) (i_addrs ip) o'
       (store_le (store_le (store_le (store_le (store_le d o' 2 (i_type ip)) (o' + 2) 2 (i_major ip))
         (o' + 4) 2 (i_minor ip)) (o' + 6) 2 (i_nlink ip)) (o' + 8) 4 (i_size ip))"

definition get_dinode :: "nat \<Rightarrow> block \<Rightarrow> inode \<Rightarrow> inode" where
  "get_dinode o' d ip = ip\<lparr>i_type := load_le d o' 2, i_major := load_le d (o' + 2) 2,
     i_minor := load_le d (o' + 4) 2, i_nlink := load_le d (o' + 6) 2, i_size := load_le d (o' + 8) 4,
     i_addrs := (\<lambda>j. if j \<le> NDIRECT then load_le d (o' + 12 + 4 * j) 4 else i_addrs ip j)\<rparr>"

fun ialloc_from :: "u32 \<Rightarrow> u16 \<Rightarrow> nat \<Rightarrow> nat \<Rightarrow> 'z fsys_scheme \<Rightarrow> (nat option \<times> 'z fsys_scheme) res" where
  "ialloc_from dev type inum 0 st = Ok (None, st)"
| "ialloc_from dev type inum (Suc n) st =
     rbind (bread dev (IBLOCK (of_nat inum) (sb st)) st) (\<lambda>(bp, st).
       let d = b_data (bufs st bp); o' = dip (of_nat inum) in
       if (load_le d o' 2 :: u16) = 0 then
         rbind (log_write bp (set_data bp (store_le (memset d o' 0 (of_nat DINODE_SIZE)) o' 2 type) st)) (\<lambda>st.
         rbind (brelse bp st) (\<lambda>st.
         rbind (iget dev (of_nat inum) st) (\<lambda>(ip, st). Ok (Some ip, st))))
       else rbind (brelse bp st) (\<lambda>st. ialloc_from dev type (Suc inum) n st))"

definition ialloc :: "u32 \<Rightarrow> u16 \<Rightarrow> 'z fsys_scheme \<Rightarrow> (nat option \<times> 'z fsys_scheme) res" where
  "ialloc dev type st = ialloc_from dev type 1 (unat (sb_ninodes (sb st)) - 1) st"

definition iupdate :: "nat \<Rightarrow> 'z fsys_scheme \<Rightarrow> 'z fsys_scheme res" where
  "iupdate ip st =
     rbind (bread (i_dev (itab st ip)) (IBLOCK (i_inum (itab st ip)) (sb st)) st) (\<lambda>(bp, st).
     rbind (log_write bp (set_data bp
       (put_dinode (itab st ip) (dip (i_inum (itab st ip))) (b_data (bufs st bp))) st)) (\<lambda>st.
     brelse bp st))"

definition ilock :: "nat option \<Rightarrow> 'z fsys_scheme \<Rightarrow> 'z fsys_scheme res" where
  "ilock p st =
     (case p of None \<Rightarrow> Panic ''ilock''
      | Some ip \<Rightarrow>
        if i_ref (itab st ip) <s 1 then Panic ''ilock''
        else
          case acquiresleep (curpid st) (i_lock (itab st ip)) of None \<Rightarrow> Stuck
          | Some l \<Rightarrow>
            let st = upd_inode ip (\<lambda>x. x\<lparr>i_lock := l\<rparr>) st in
            if \<not> i_valid (itab st ip) then
              rbind (bread (i_dev (itab st ip)) (IBLOCK (i_inum (itab st ip)) (sb st)) st) (\<lambda>(bp, st).
              let st = upd_inode ip (get_dinode (dip (i_inum (itab st ip))) (b_data (bufs st bp))) st in
              rbind (brelse bp st) (\<lambda>st.
              let st = upd_inode ip (\<lambda>x. x\<lparr>i_valid := True\<rparr>) st in
              if i_type (itab st ip) = 0 then Panic ''ilock: no type'' else Ok st))
            else Ok st)"

definition iunlock :: "nat option \<Rightarrow> 'z fsys_scheme \<Rightarrow> 'z fsys_scheme res" where
  "iunlock p st =
     (case p of None \<Rightarrow> Panic ''iunlock''
      | Some ip \<Rightarrow>
        if \<not> holdingsleep (curpid st) (i_lock (itab st ip)) \<or> i_ref (itab st ip) <s 1 then Panic ''iunlock''
        else Ok (upd_inode ip (\<lambda>x. x\<lparr>i_lock := releasesleep (i_lock x)\<rparr>) st))"

section \<open>Contents of inodes\<close>

definition bmap :: "nat \<Rightarrow> nat \<Rightarrow> 'z fsys_scheme \<Rightarrow> (u32 \<times> 'z fsys_scheme) res" where
  "bmap ip bn st =
     (if bn < NDIRECT then
        if i_addrs (itab st ip) bn = 0 then
          rbind (balloc (i_dev (itab st ip)) st) (\<lambda>(addr, st).
            if addr = 0 then Ok (0, st)
            else Ok (addr, upd_inode ip (\<lambda>x. x\<lparr>i_addrs := (i_addrs x)(bn := addr)\<rparr>) st))
        else Ok (i_addrs (itab st ip) bn, st)
      else if bn - NDIRECT < NINDIRECT then
        let bn = bn - NDIRECT in
        rbind (if i_addrs (itab st ip) NDIRECT = 0 then
                 rbind (balloc (i_dev (itab st ip)) st) (\<lambda>(addr, st).
                   if addr = 0 then Ok (0, st)
                   else Ok (addr, upd_inode ip (\<lambda>x. x\<lparr>i_addrs := (i_addrs x)(NDIRECT := addr)\<rparr>) st))
               else Ok (i_addrs (itab st ip) NDIRECT, st)) (\<lambda>(addr, st).
          if addr = 0 then Ok (0, st)
          else
            rbind (bread (i_dev (itab st ip)) addr st) (\<lambda>(bp, st).
              let addr = (load_le (b_data (bufs st bp)) (4 * bn) 4 :: u32) in
              if addr = 0 then
                rbind (balloc (i_dev (itab st ip)) st) (\<lambda>(addr, st).
                rbind (if addr \<noteq> 0
                       then log_write bp (set_data bp (store_le (b_data (bufs st bp)) (4 * bn) 4 addr) st)
                       else Ok st) (\<lambda>st.
                rbind (brelse bp st) (\<lambda>st. Ok (addr, st))))
              else rbind (brelse bp st) (\<lambda>st. Ok (addr, st))))
      else Panic ''bmap: out of range'')"

fun itrunc_direct :: "nat \<Rightarrow> nat \<Rightarrow> nat \<Rightarrow> 'z fsys_scheme \<Rightarrow> 'z fsys_scheme res" where
  "itrunc_direct ip i 0 st = Ok st"
| "itrunc_direct ip i (Suc n) st =
     (if i_addrs (itab st ip) i \<noteq> 0 then
        rbind (bfree (i_dev (itab st ip)) (i_addrs (itab st ip) i) st) (\<lambda>st.
        itrunc_direct ip (Suc i) n (upd_inode ip (\<lambda>x. x\<lparr>i_addrs := (i_addrs x)(i := 0)\<rparr>) st))
      else itrunc_direct ip (Suc i) n st)"

text \<open>\<open>a\<close> is the indirect block; the loop only frees the blocks it names and does not change it.\<close>

fun itrunc_indirect :: "u32 \<Rightarrow> nat \<Rightarrow> nat \<Rightarrow> nat \<Rightarrow> 'z fsys_scheme \<Rightarrow> 'z fsys_scheme res" where
  "itrunc_indirect dev bp j 0 st = Ok st"
| "itrunc_indirect dev bp j (Suc n) st =
     (let a = (load_le (b_data (bufs st bp)) (4 * j) 4 :: u32) in
      rbind (if a \<noteq> 0 then bfree dev a st else Ok st) (\<lambda>st. itrunc_indirect dev bp (Suc j) n st))"

definition itrunc :: "nat \<Rightarrow> 'z fsys_scheme \<Rightarrow> 'z fsys_scheme res" where
  "itrunc ip st =
     rbind (itrunc_direct ip 0 NDIRECT st) (\<lambda>st.
     rbind (if i_addrs (itab st ip) NDIRECT \<noteq> 0 then
              rbind (bread (i_dev (itab st ip)) (i_addrs (itab st ip) NDIRECT) st) (\<lambda>(bp, st).
              rbind (itrunc_indirect (i_dev (itab st ip)) bp 0 NINDIRECT st) (\<lambda>st.
              rbind (brelse bp st) (\<lambda>st.
              rbind (bfree (i_dev (itab st ip)) (i_addrs (itab st ip) NDIRECT) st) (\<lambda>st.
              Ok (upd_inode ip (\<lambda>x. x\<lparr>i_addrs := (i_addrs x)(NDIRECT := 0)\<rparr>) st)))))
            else Ok st) (\<lambda>st.
     iupdate ip (upd_inode ip (\<lambda>x. x\<lparr>i_size := 0\<rparr>) st)))"

definition iput :: "nat \<Rightarrow> 'z fsys_scheme \<Rightarrow> 'z fsys_scheme res" where
  "iput ip st =
     rbind (if i_ref (itab st ip) = 1 \<and> i_valid (itab st ip) \<and> i_nlink (itab st ip) = 0 then
              case acquiresleep (curpid st) (i_lock (itab st ip)) of None \<Rightarrow> Stuck
              | Some l \<Rightarrow>
                rbind (itrunc ip (upd_inode ip (\<lambda>x. x\<lparr>i_lock := l\<rparr>) st)) (\<lambda>st.
                rbind (iupdate ip (upd_inode ip (\<lambda>x. x\<lparr>i_type := 0\<rparr>) st)) (\<lambda>st.
                Ok (upd_inode ip (\<lambda>x. x\<lparr>i_valid := False, i_lock := releasesleep (i_lock x)\<rparr>) st)))
            else Ok st) (\<lambda>st.
     Ok (upd_inode ip (\<lambda>x. x\<lparr>i_ref := i_ref x - 1\<rparr>) st))"

definition iunlockput :: "nat \<Rightarrow> 'z fsys_scheme \<Rightarrow> 'z fsys_scheme res" where
  "iunlockput ip st = rbind (iunlock (Some ip) st) (iput ip)"

record stat =
  st_dev :: u32
  st_ino :: u32
  st_type :: u16
  st_nlink :: u16
  st_size :: u64

definition stati :: "nat \<Rightarrow> 'z fsys_scheme \<Rightarrow> stat" where
  "stati ip st = \<lparr>st_dev = i_dev (itab st ip), st_ino = i_inum (itab st ip), st_type = i_type (itab st ip),
     st_nlink = i_nlink (itab st ip), st_size = ucast (i_size (itab st ip))\<rparr>"

section \<open>Reading and writing\<close>

text \<open>
  Where \<^verbatim>\<open>readi\<close> puts its bytes: user memory, or a variable of the kernel, for which they are
  returned; and where \<^verbatim>\<open>writei\<close> takes them from.
\<close>

datatype dest = DUser u64 | DKern

datatype source = SUser u64 | SKern "u8 list"

definition put_dest :: "dest \<Rightarrow> nat \<Rightarrow> u8 list \<Rightarrow> 'z fsys_scheme \<Rightarrow> (c_int \<times> 'z fsys_scheme) res" where
  "put_dest dst tot bs st =
     (case dst of
        DUser a \<Rightarrow> rbind (either_copyout (hart st) True (a + of_nat tot) bs (mach st)) (\<lambda>(r, m). Ok (r, st\<lparr>mach := m\<rparr>))
      | DKern \<Rightarrow> Ok (0, st))"

definition get_source :: "source \<Rightarrow> nat \<Rightarrow> nat \<Rightarrow> 'z fsys_scheme \<Rightarrow> (c_int \<times> u8 list) res" where
  "get_source src tot m st =
     (case src of
        SUser a \<Rightarrow> either_copyin (hart st) True (a + of_nat tot) m (mach st)
      | SKern bs \<Rightarrow> Ok (0, take m (drop tot bs)))"

lemma chunk_less: "tot < n \<Longrightarrow> n - (tot + min (n - tot) (BSIZE - off mod BSIZE)) < n - tot"
  by (auto simp: BSIZE_def min_def mod_less_divisor)

function readi_from ::
  "nat \<Rightarrow> dest \<Rightarrow> nat \<Rightarrow> nat \<Rightarrow> nat \<Rightarrow> u8 list \<Rightarrow> 'z fsys_scheme \<Rightarrow> ((c_int \<times> u8 list) \<times> 'z fsys_scheme) res"
where
  "readi_from ip dst off n tot acc st =
     (if tot < n then
        rbind (bmap ip (off div BSIZE) st) (\<lambda>(addr, st).
          if addr = 0 then Ok ((of_nat tot, acc), st)
          else
            rbind (bread (i_dev (itab st ip)) addr st) (\<lambda>(bp, st).
              let m = min (n - tot) (BSIZE - off mod BSIZE);
                  bs = mem_read (b_data (bufs st bp)) (off mod BSIZE) m
              in rbind (put_dest dst tot bs st) (\<lambda>(r, st).
                   if r = - 1 then rbind (brelse bp st) (\<lambda>st. Ok ((- 1, acc), st))
                   else
                     rbind (brelse bp st) (\<lambda>st.
                     readi_from ip dst (off + m) n (tot + m) (acc @ bs) st))))
      else Ok ((of_nat tot, acc), st))"
  by pat_completeness auto
termination
  by (relation "measure (\<lambda>(ip, dst, off, n, tot, acc, st). n - tot)") (auto simp: chunk_less)

declare readi_from.simps [simp del]

definition readi :: "nat \<Rightarrow> dest \<Rightarrow> u32 \<Rightarrow> u32 \<Rightarrow> 'z fsys_scheme \<Rightarrow> ((c_int \<times> u8 list) \<times> 'z fsys_scheme) res" where
  "readi ip dst off n st =
     (if i_size (itab st ip) < off \<or> off + n < off then Ok ((0, []), st)
      else
        let n = (if i_size (itab st ip) < off + n then i_size (itab st ip) - off else n)
        in readi_from ip dst (unat off) (unat n) 0 [] st)"

text \<open>
  The loop of \<^verbatim>\<open>writei\<close> returns the final \<^verbatim>\<open>tot\<close> and \<^verbatim>\<open>off\<close>. When \<^verbatim>\<open>either_copyin\<close> fails, the bytes it has
  copied before the bad page stay in the buffer.
\<close>

function writei_from ::
  "nat \<Rightarrow> source \<Rightarrow> nat \<Rightarrow> nat \<Rightarrow> nat \<Rightarrow> 'z fsys_scheme \<Rightarrow> ((nat \<times> nat) \<times> 'z fsys_scheme) res"
where
  "writei_from ip src off n tot st =
     (if tot < n then
        rbind (bmap ip (off div BSIZE) st) (\<lambda>(addr, st).
          if addr = 0 then Ok ((tot, off), st)
          else
            rbind (bread (i_dev (itab st ip)) addr st) (\<lambda>(bp, st).
              let m = min (n - tot) (BSIZE - off mod BSIZE)
              in rbind (get_source src tot m st) (\<lambda>(r, bs).
                   let st = set_data bp (mem_write (b_data (bufs st bp)) (off mod BSIZE) bs) st
                   in if r = - 1 then rbind (brelse bp st) (\<lambda>st. Ok ((tot, off), st))
                      else
                        rbind (log_write bp st) (\<lambda>st.
                        rbind (brelse bp st) (\<lambda>st.
                        writei_from ip src (off + m) n (tot + m) st)))))
      else Ok ((tot, off), st))"
  by pat_completeness auto
termination
  by (relation "measure (\<lambda>(ip, src, off, n, tot, st). n - tot)") (auto simp: chunk_less)

declare writei_from.simps [simp del]

definition writei :: "nat \<Rightarrow> source \<Rightarrow> u32 \<Rightarrow> u32 \<Rightarrow> 'z fsys_scheme \<Rightarrow> (c_int \<times> 'z fsys_scheme) res" where
  "writei ip src off n st =
     (if i_size (itab st ip) < off \<or> off + n < off then Ok (- 1, st)
      else if MAXFILE * BSIZE < unat (off + n) then Ok (- 1, st)
      else
        rbind (writei_from ip src (unat off) (unat n) 0 st) (\<lambda>((tot, off), st).
        let st = (if i_size (itab st ip) < of_nat off
                  then upd_inode ip (\<lambda>x. x\<lparr>i_size := of_nat off\<rparr>) st else st)
        in rbind (iupdate ip st) (\<lambda>st. Ok (of_nat tot, st))))"

section \<open>Directories\<close>

text \<open>\<^verbatim>\<open>strncmp\<close> on strings of bytes; the byte after the last one is NUL.\<close>

fun strncmp_bytes :: "nat \<Rightarrow> u8 list \<Rightarrow> u8 list \<Rightarrow> c_int" where
  "strncmp_bytes 0 s t = 0"
| "strncmp_bytes (Suc n) s t =
     (case (s, t) of
        ([], []) \<Rightarrow> 0
      | ([], c # t) \<Rightarrow> - ucast c
      | (c # s, []) \<Rightarrow> ucast c
      | (c # s, d # t) \<Rightarrow>
          if c \<noteq> 0 \<and> c = d then strncmp_bytes n s t else ucast c - ucast d)"

definition namecmp :: "u8 list \<Rightarrow> u8 list \<Rightarrow> c_int" where
  "namecmp s t = strncmp_bytes DIRSIZ s t"

definition bytes_mem :: "u8 list \<Rightarrow> mem" where
  "bytes_mem bs = (\<lambda>i. if i < length bs then bs ! i else 0)"

definition de_inum :: "u8 list \<Rightarrow> u16" where
  "de_inum de = load_le (bytes_mem de) 0 2"

definition de_name :: "u8 list \<Rightarrow> u8 list" where
  "de_name de = take DIRSIZ (drop 2 de)"

definition put_dirent :: "u16 \<Rightarrow> u8 list \<Rightarrow> u8 list" where
  "put_dirent inum name = [ucast inum, ucast (drop_bit 8 inum)] @ take DIRSIZ (name @ replicate DIRSIZ 0)"

text \<open>The loop over the entries of a directory of \<open>sz\<close> bytes, which reading does not change.\<close>

function dirlookup_from ::
  "nat \<Rightarrow> u8 list \<Rightarrow> nat \<Rightarrow> nat \<Rightarrow> 'z fsys_scheme \<Rightarrow> ((nat \<times> u32) option \<times> 'z fsys_scheme) res"
where
  "dirlookup_from dp name off sz st =
     (if off < sz then
        rbind (readi dp DKern (of_nat off) (of_nat DIRENT_SIZE) st) (\<lambda>((r, de), st).
          if r \<noteq> of_nat DIRENT_SIZE then Panic ''dirlookup read''
          else if de_inum de = 0 then dirlookup_from dp name (off + DIRENT_SIZE) sz st
          else if namecmp name (de_name de) = 0 then
            rbind (iget (i_dev (itab st dp)) (ucast (de_inum de)) st) (\<lambda>(ip, st). Ok (Some (ip, of_nat off), st))
          else dirlookup_from dp name (off + DIRENT_SIZE) sz st)
      else Ok (None, st))"
  by pat_completeness auto
termination
  by (relation "measure (\<lambda>(dp, name, off, sz, st). sz - off)") (auto simp: DIRENT_SIZE_def)

declare dirlookup_from.simps [simp del]

definition dirlookup :: "nat \<Rightarrow> u8 list \<Rightarrow> 'z fsys_scheme \<Rightarrow> ((nat \<times> u32) option \<times> 'z fsys_scheme) res" where
  "dirlookup dp name st =
     (if i_type (itab st dp) \<noteq> T_DIR then Panic ''dirlookup not DIR''
      else dirlookup_from dp name 0 (unat (i_size (itab st dp))) st)"

function free_dirent :: "nat \<Rightarrow> nat \<Rightarrow> nat \<Rightarrow> 'z fsys_scheme \<Rightarrow> (nat \<times> 'z fsys_scheme) res" where
  "free_dirent dp off sz st =
     (if off < sz then
        rbind (readi dp DKern (of_nat off) (of_nat DIRENT_SIZE) st) (\<lambda>((r, de), st).
          if r \<noteq> of_nat DIRENT_SIZE then Panic ''dirlink read''
          else if de_inum de = 0 then Ok (off, st)
          else free_dirent dp (off + DIRENT_SIZE) sz st)
      else Ok (off, st))"
  by pat_completeness auto
termination
  by (relation "measure (\<lambda>(dp, off, sz, st). sz - off)") (auto simp: DIRENT_SIZE_def)

declare free_dirent.simps [simp del]

definition dirlink :: "nat \<Rightarrow> u8 list \<Rightarrow> u32 \<Rightarrow> 'z fsys_scheme \<Rightarrow> (c_int \<times> 'z fsys_scheme) res" where
  "dirlink dp name inum st =
     rbind (dirlookup dp name st) (\<lambda>(r, st).
       case r of Some (ip, off) \<Rightarrow> rbind (iput ip st) (\<lambda>st. Ok (- 1, st))
       | None \<Rightarrow>
         rbind (free_dirent dp 0 (unat (i_size (itab st dp))) st) (\<lambda>(off, st).
         rbind (writei dp (SKern (put_dirent (ucast inum) name)) (of_nat off) (of_nat DIRENT_SIZE) st) (\<lambda>(r, st).
           if r \<noteq> of_nat DIRENT_SIZE then Ok (- 1, st) else Ok (0, st))))"

section \<open>Paths\<close>

definition slash :: u8 where "slash = 47"

definition skipelem :: "u8 list \<Rightarrow> (u8 list \<times> u8 list) option" where
  "skipelem path =
     (let path = dropWhile (\<lambda>c. c = slash) path in
      if path = [] then None
      else
        let elem = takeWhile (\<lambda>c. c \<noteq> slash) path;
            path = dropWhile (\<lambda>c. c \<noteq> slash) path;
            name = (if DIRSIZ \<le> length elem then take DIRSIZ elem else elem)
        in Some (name, dropWhile (\<lambda>c. c = slash) path))"

lemma skipelem_shorter:
  assumes "skipelem path = Some (name, more_path)"
  shows "length more_path < length path"
proof -
  let ?p = "dropWhile (\<lambda>c. c = slash) path"
  obtain c cs where p: "?p = c # cs"
    using assms by (cases ?p) (auto simp: skipelem_def Let_def)
  then have "c \<noteq> slash"
    by (metis (mono_tags, lifting) hd_dropWhile list.discI list.sel(1))
  then have "more_path = dropWhile (\<lambda>c. c = slash) (dropWhile (\<lambda>c. c \<noteq> slash) cs)"
    using assms p by (auto simp: skipelem_def Let_def)
  then have "length more_path \<le> length cs"
    by (metis length_dropWhile_le order_trans)
  also have "\<dots> < length path"
    using length_dropWhile_le [of "\<lambda>c. c = slash" path] p by simp
  finally show ?thesis .
qed

text \<open>The loop of \<^verbatim>\<open>namex\<close>, with the last path element in \<open>name\<close>.\<close>

function namex_from ::
  "nat \<Rightarrow> u8 list \<Rightarrow> bool \<Rightarrow> u8 list \<Rightarrow> 'z fsys_scheme \<Rightarrow> ((nat option \<times> u8 list) \<times> 'z fsys_scheme) res"
where
  "namex_from ip path parent name st =
     (case skipelem path of
        None \<Rightarrow>
          if parent then rbind (iput ip st) (\<lambda>st. Ok ((None, name), st)) else Ok ((Some ip, name), st)
      | Some (name, path) \<Rightarrow>
          rbind (ilock (Some ip) st) (\<lambda>st.
            if i_type (itab st ip) \<noteq> T_DIR then rbind (iunlockput ip st) (\<lambda>st. Ok ((None, name), st))
            else if parent \<and> path = [] then rbind (iunlock (Some ip) st) (\<lambda>st. Ok ((Some ip, name), st))
            else
              rbind (dirlookup ip name st) (\<lambda>(r, st).
                case r of
                  None \<Rightarrow> rbind (iunlockput ip st) (\<lambda>st. Ok ((None, name), st))
                | Some (nxt, off) \<Rightarrow> rbind (iunlockput ip st) (\<lambda>st. namex_from nxt path parent name st))))"
  by pat_completeness auto
termination
  by (relation "measure (\<lambda>(ip, path, parent, name, st). length path)") (auto dest: skipelem_shorter)

declare namex_from.simps [simp del]

definition namex :: "u8 list \<Rightarrow> bool \<Rightarrow> 'z fsys_scheme \<Rightarrow> ((nat option \<times> u8 list) \<times> 'z fsys_scheme) res" where
  "namex path parent st =
     (if path \<noteq> [] \<and> hd path = slash then
        rbind (iget ROOTDEV ROOTINO st) (\<lambda>(ip, st). namex_from ip path parent [] st)
      else
        case myproc (hart st) (mach st) of None \<Rightarrow> Stuck
        | Some p \<Rightarrow>
          (case p_cwd (procs (mach st) p) of None \<Rightarrow> Stuck
           | Some cwd \<Rightarrow> (case idup cwd st of (ip, st) \<Rightarrow> namex_from ip path parent [] st)))"

definition namei :: "u8 list \<Rightarrow> 'z fsys_scheme \<Rightarrow> (nat option \<times> 'z fsys_scheme) res" where
  "namei path st = rbind (namex path False st) (\<lambda>((ip, name), st). Ok (ip, st))"

definition nameiparent :: "u8 list \<Rightarrow> 'z fsys_scheme \<Rightarrow> ((nat option \<times> u8 list) \<times> 'z fsys_scheme) res" where
  "nameiparent path st = namex path True st"

end
