(* ===== verification/Xv6_File.thy ===== *)
theory Xv6_File
  imports Xv6_Fs Xv6_Pipe Xv6_Console
begin

text \<open>
  Open files, \<^verbatim>\<open>kernel/file.c\<close> and the rest of \<^verbatim>\<open>kernel/pipe.c\<close>, and the arguments of system calls,
  the first part of \<^verbatim>\<open>kernel/syscall.c\<close>. The kernel state \<open>kern\<close> adds to the file system and its
  machine the file table, the pipes by the address of their page, and the console.

  A call runs alone, so the spin locks of the tables of the file system are not part of the model. A
  call that gives up the processor returns no value: its result is \<open>None\<close>, with the state the
  scheduler finds. A call that waits for a sleep lock or for log space is \<open>Stuck\<close>.
\<close>

section \<open>Kernel state\<close>

datatype ftype = FD_NONE | FD_PIPE | FD_INODE | FD_DEVICE

record ofile =
  f_type :: ftype
  f_ref :: c_int
  f_readable :: bool
  f_writable :: bool
  f_pipe :: u64
  f_ip :: "nat option"
  f_off :: u32
  f_major :: u16

record kern = fsys +
  ftab :: "nat \<Rightarrow> ofile"
  pipes :: "u64 \<Rightarrow> pipe"
  devices :: devs
  total_syscalls :: c_int
  rand_seed :: u64
  time_csr :: u64
  boot_epoch :: u64
  forkret_first :: bool

definition NFILE :: nat where "NFILE = 100"
definition NDEV :: nat where "NDEV = 10"
definition CONSOLE :: u16 where "CONSOLE = 1"

definition upd_file :: "nat \<Rightarrow> (ofile \<Rightarrow> ofile) \<Rightarrow> kern \<Rightarrow> kern" where
  "upd_file f g st = st\<lparr>ftab := (ftab st)(f := g (ftab st f))\<rparr>"

definition upd_me :: "nat \<Rightarrow> (proc \<Rightarrow> proc) \<Rightarrow> kern \<Rightarrow> kern" where
  "upd_me p g st = st\<lparr>mach := upd_proc p g (mach st)\<rparr>"

text \<open>The running process, and its memory.\<close>

definition me :: "kern \<Rightarrow> nat res" where
  "me st = (case myproc (hart st) (mach st) of None \<Rightarrow> Stuck | Some p \<Rightarrow> Ok p)"

definition user_out :: "u64 \<Rightarrow> u8 list \<Rightarrow> kern \<Rightarrow> (c_int \<times> kern) res" where
  "user_out addr bs st =
     rbind (me st) (\<lambda>p.
     rbind (copyout (p_pagetable (procs (mach st) p)) addr bs (ph (mach st))) (\<lambda>(r, s).
     Ok (r, st\<lparr>mach := (mach st)\<lparr>ph := s\<rparr>\<rparr>)))"

definition user_in :: "u64 \<Rightarrow> nat \<Rightarrow> kern \<Rightarrow> (c_int \<times> u8 list) res" where
  "user_in addr n st =
     rbind (me st) (\<lambda>p. copyin (p_pagetable (procs (mach st) p)) addr n (ph (mach st)))"

section \<open>Arguments of system calls\<close>

definition word_of_bytes :: "u8 list \<Rightarrow> u64" where
  "word_of_bytes bs = load64 (bytes_mem bs) 0"

definition fetchaddr :: "u64 \<Rightarrow> kern \<Rightarrow> (c_int \<times> u64) res" where
  "fetchaddr addr st =
     rbind (me st) (\<lambda>p.
       let sz = p_sz (procs (mach st) p) in
       if sz \<le> addr \<or> sz < addr + 8 then Ok (- 1, 0)
       else
         rbind (user_in addr 8 st) (\<lambda>(r, bs).
           if r \<noteq> 0 then Ok (- 1, 0) else Ok (0, word_of_bytes bs)))"

text \<open>\<^verbatim>\<open>fetchstr\<close>: the string without its NUL, whose length the function returns.\<close>

definition fetchstr :: "u64 \<Rightarrow> nat \<Rightarrow> kern \<Rightarrow> (c_int \<times> u8 list) res" where
  "fetchstr addr mx st =
     rbind (me st) (\<lambda>p.
     rbind (copyinstr (p_pagetable (procs (mach st) p)) addr mx (ph (mach st))) (\<lambda>(r, bs).
       if r <s 0 then Ok (- 1, [])
       else let s = takeWhile (\<lambda>c. c \<noteq> 0) bs in Ok (of_nat (length s), s)))"

definition argraw :: "nat \<Rightarrow> kern \<Rightarrow> u64 res" where
  "argraw n st =
     rbind (me st) (\<lambda>p.
       if n < 6 then Ok (tf_get (ph (mach st)) (p_trapframe (procs (mach st) p)) (TF_a0 + 8 * n))
       else Panic ''argraw'')"

definition argint :: "nat \<Rightarrow> kern \<Rightarrow> c_int res" where
  "argint n st = rbind (argraw n st) (\<lambda>x. Ok (ucast x))"

definition argaddr :: "nat \<Rightarrow> kern \<Rightarrow> u64 res" where
  "argaddr n st = argraw n st"

definition argstr :: "nat \<Rightarrow> nat \<Rightarrow> kern \<Rightarrow> (c_int \<times> u8 list) res" where
  "argstr n mx st = rbind (argaddr n st) (\<lambda>addr. fetchstr addr mx st)"

section \<open>The file table\<close>

definition filealloc :: "kern \<Rightarrow> nat option \<times> kern" where
  "filealloc st =
     (case find (\<lambda>f. f_ref (ftab st f) = 0) [0..<NFILE] of
        None \<Rightarrow> (None, st)
      | Some f \<Rightarrow> (Some f, upd_file f (\<lambda>x. x\<lparr>f_ref := 1\<rparr>) st))"

definition filedup :: "nat \<Rightarrow> kern \<Rightarrow> kern res" where
  "filedup f st =
     (if f_ref (ftab st f) <s 1 then Panic ''filedup''
      else Ok (upd_file f (\<lambda>x. x\<lparr>f_ref := f_ref x + 1\<rparr>) st))"

definition closepipe :: "u64 \<Rightarrow> bool \<Rightarrow> kern \<Rightarrow> kern res" where
  "closepipe pi writable st =
     rbind (pipeclose (hart st) pi writable (pipes st pi) (mach st)) (\<lambda>(pp, m).
     Ok (st\<lparr>pipes := (pipes st)(pi := pp), mach := m\<rparr>))"

definition fileclose :: "nat \<Rightarrow> kern \<Rightarrow> kern res" where
  "fileclose f st =
     (if f_ref (ftab st f) <s 1 then Panic ''fileclose''
      else
        let st = upd_file f (\<lambda>x. x\<lparr>f_ref := f_ref x - 1\<rparr>) st in
        if 0 <s f_ref (ftab st f) then Ok st
        else
          let ff = ftab st f;
              st = upd_file f (\<lambda>x. x\<lparr>f_ref := 0, f_type := FD_NONE\<rparr>) st
          in if f_type ff = FD_PIPE then closepipe (f_pipe ff) (f_writable ff) st
             else if f_type ff = FD_INODE \<or> f_type ff = FD_DEVICE then
               case f_ip ff of None \<Rightarrow> Stuck
               | Some ip \<Rightarrow> rbind (begin_op st) (\<lambda>st. rbind (iput ip st) end_op)
             else Ok st)"

text \<open>
  The bytes of a \<^verbatim>\<open>struct stat\<close>. Four of them are padding, which the kernel does not set: they are
  what its stack held, the argument \<open>pad\<close>.
\<close>

definition le_bytes :: "nat \<Rightarrow> 'a::len word \<Rightarrow> u8 list" where
  "le_bytes n w = map (\<lambda>j. ucast (drop_bit (8 * j) w)) [0..<n]"

definition stat_bytes :: "u8 list \<Rightarrow> stat \<Rightarrow> u8 list" where
  "stat_bytes pad s = le_bytes 4 (st_dev s) @ le_bytes 4 (st_ino s) @ le_bytes 2 (st_type s) @
     le_bytes 2 (st_nlink s) @ take 4 (pad @ replicate 4 0) @ le_bytes 8 (st_size s)"

definition filestat :: "nat \<Rightarrow> u64 \<Rightarrow> u8 list \<Rightarrow> kern \<Rightarrow> (c_int \<times> kern) res" where
  "filestat f addr pad st =
     (if f_type (ftab st f) = FD_INODE \<or> f_type (ftab st f) = FD_DEVICE then
        case f_ip (ftab st f) of None \<Rightarrow> Stuck
        | Some ip \<Rightarrow>
          rbind (ilock (Some ip) st) (\<lambda>st.
          let s = stati ip st in
          rbind (iunlock (Some ip) st) (\<lambda>st.
          rbind (user_out addr (stat_bytes pad s) st) (\<lambda>(r, st).
            if r <s 0 then Ok (- 1, st) else Ok (0, st))))
      else Ok (- 1, st))"

text \<open>\<^verbatim>\<open>devsw\<close> has the console's functions at \<^verbatim>\<open>CONSOLE\<close> and nothing elsewhere.\<close>

definition has_device :: "u16 \<Rightarrow> bool" where
  "has_device major \<longleftrightarrow> \<not> major <s 0 \<and> \<not> of_nat NDEV \<le>s major \<and> major = CONSOLE"

definition done_or_asleep :: "c_int + 'a \<Rightarrow> c_int option" where
  "done_or_asleep x = (case x of Inl v \<Rightarrow> Some v | Inr _ \<Rightarrow> None)"

definition fileread :: "nat \<Rightarrow> u64 \<Rightarrow> c_int \<Rightarrow> kern \<Rightarrow> (c_int option \<times> kern) res" where
  "fileread f addr n st =
     (let x = ftab st f in
      if \<not> f_readable x then Ok (Some (- 1), st)
      else case f_type x of
        FD_PIPE \<Rightarrow>
          rbind (piperead (hart st) (f_pipe x) addr n (pipes st (f_pipe x)) (mach st)) (\<lambda>(r, pp, m).
          Ok (done_or_asleep r, st\<lparr>pipes := (pipes st)(f_pipe x := pp), mach := m\<rparr>))
      | FD_DEVICE \<Rightarrow>
          if \<not> has_device (f_major x) then Ok (Some (- 1), st)
          else
            rbind (consoleread (hart st) True addr n (devices st) (mach st)) (\<lambda>(r, d, m).
            Ok (done_or_asleep r, st\<lparr>devices := d, mach := m\<rparr>))
      | FD_INODE \<Rightarrow>
          (case f_ip x of None \<Rightarrow> Stuck
           | Some ip \<Rightarrow>
             rbind (ilock (Some ip) st) (\<lambda>st.
             rbind (readi ip (DUser addr) (f_off x) n st) (\<lambda>((r, bs), st).
             let st = (if 0 <s r then upd_file f (\<lambda>x. x\<lparr>f_off := f_off x + r\<rparr>) st else st) in
             rbind (iunlock (Some ip) st) (\<lambda>st. Ok (Some r, st)))))
      | FD_NONE \<Rightarrow> Panic ''fileread'')"

text \<open>The loop of \<^verbatim>\<open>filewrite\<close> on an inode: the number of bytes written when it ends.\<close>

definition WRITE_MAX :: nat where "WRITE_MAX = ((MAXOPBLOCKS - 1 - 1 - 2) div 2) * BSIZE"

function filewrite_from :: "nat \<Rightarrow> nat \<Rightarrow> u64 \<Rightarrow> nat \<Rightarrow> nat \<Rightarrow> kern \<Rightarrow> (nat \<times> kern) res" where
  "filewrite_from f ip addr i n st =
     (if i < n then
        let n1 = min (n - i) WRITE_MAX in
        rbind (begin_op st) (\<lambda>st.
        rbind (ilock (Some ip) st) (\<lambda>st.
        rbind (writei ip (SUser (addr + of_nat i)) (f_off (ftab st f)) (of_nat n1) st) (\<lambda>(r, st).
        let st = (if 0 <s r then upd_file f (\<lambda>x. x\<lparr>f_off := f_off x + r\<rparr>) st else st) in
        rbind (iunlock (Some ip) st) (\<lambda>st.
        rbind (end_op st) (\<lambda>st.
          if r \<noteq> of_nat n1 then Ok (i, st) else filewrite_from f ip addr (i + n1) n st)))))
      else Ok (i, st))"
  by pat_completeness auto
termination
  by (relation "measure (\<lambda>(f, ip, addr, i, n, st). n - i)") (auto simp: WRITE_MAX_def MAXOPBLOCKS_def BSIZE_def)

declare filewrite_from.simps [simp del]

definition filewrite :: "nat \<Rightarrow> u64 \<Rightarrow> c_int \<Rightarrow> kern \<Rightarrow> (c_int option \<times> kern) res" where
  "filewrite f addr n st =
     (let x = ftab st f in
      if \<not> f_writable x then Ok (Some (- 1), st)
      else case f_type x of
        FD_PIPE \<Rightarrow>
          rbind (pipewrite (hart st) (f_pipe x) addr n (pipes st (f_pipe x)) (mach st)) (\<lambda>(r, pp, m).
          Ok (done_or_asleep r, st\<lparr>pipes := (pipes st)(f_pipe x := pp), mach := m\<rparr>))
      | FD_DEVICE \<Rightarrow>
          if \<not> has_device (f_major x) then Ok (Some (- 1), st)
          else
            rbind (consolewrite (hart st) True addr n (devices st) (mach st)) (\<lambda>(r, d, m).
            Ok (done_or_asleep r, st\<lparr>devices := d, mach := m\<rparr>))
      | FD_INODE \<Rightarrow>
          (case f_ip x of None \<Rightarrow> Stuck
           | Some ip \<Rightarrow>
             rbind (filewrite_from f ip addr 0 (nat (sint n)) st) (\<lambda>(i, st).
             Ok (Some (if int i = sint n then n else - 1), st)))
      | FD_NONE \<Rightarrow> Panic ''filewrite'')"

section \<open>pipealloc\<close>

definition set_pipe_end :: "bool \<Rightarrow> u64 \<Rightarrow> ofile \<Rightarrow> ofile" where
  "set_pipe_end w pi x = x\<lparr>f_type := FD_PIPE, f_readable := \<not> w, f_writable := w, f_pipe := pi\<rparr>"

definition pipealloc :: "kern \<Rightarrow> ((nat \<times> nat) option \<times> kern) res" where
  "pipealloc st =
     (case filealloc st of
        (None, st) \<Rightarrow> Ok (None, st)
      | (Some f0, st) \<Rightarrow>
        (case filealloc st of
           (None, st) \<Rightarrow> rbind (fileclose f0 st) (\<lambda>st. Ok (None, st))
         | (Some f1, st) \<Rightarrow>
           (case kalloc (ph (mach st)) of (pi, s) \<Rightarrow>
              let st = st\<lparr>mach := (mach st)\<lparr>ph := s\<rparr>\<rparr> in
              if pi = 0 then
                rbind (fileclose f0 st) (\<lambda>st. rbind (fileclose f1 st) (\<lambda>st. Ok (None, st)))
              else
                let st = st\<lparr>pipes := (pipes st)(pi := new_pipe (pipes st pi)),
                            mach := initlock (ObjLock pi) ''pipe'' (mach st)\<rparr>
                in Ok (Some (f0, f1), upd_file f1 (set_pipe_end True pi) (upd_file f0 (set_pipe_end False pi) st)))))"

end
