(* ===== verification/Xv6_Exec.thy ===== *)
theory Xv6_Exec
  imports Xv6_File
begin

text \<open>
  Loading a program, \<^verbatim>\<open>kernel/exec.c\<close>. The headers of the file are read at their byte offsets. The
  argument strings are lists of bytes without their NUL; the caller guarantees that there are fewer
  than \<^verbatim>\<open>MAXARG\<close>.
\<close>

definition ELF_MAGIC :: u32 where "ELF_MAGIC = 0x464C457F"
definition ELFHDR_SIZE :: nat where "ELFHDR_SIZE = 64"
definition PROGHDR_SIZE :: nat where "PROGHDR_SIZE = 56"
definition ELF_PROG_LOAD :: u32 where "ELF_PROG_LOAD = 1"
definition MAXARG :: nat where "MAXARG = 32"
definition USERSTACK :: u64 where "USERSTACK = 1"

definition flags2perm :: "u32 \<Rightarrow> u64" where
  "flags2perm flags =
     (let perm = (if flags AND 1 \<noteq> 0 then PTE_X else 0)
      in if flags AND 2 \<noteq> 0 then perm OR PTE_W else perm)"

definition field :: "u8 list \<Rightarrow> nat \<Rightarrow> nat \<Rightarrow> 'a::len word" where
  "field bs off n = load_le (bytes_mem bs) off n"

text \<open>The running process's page table functions act on the memory of the machine.\<close>

definition on_ph :: "(phys \<Rightarrow> ('a \<times> phys) res) \<Rightarrow> kern \<Rightarrow> ('a \<times> kern) res" where
  "on_ph f st = rbind (f (ph (mach st))) (\<lambda>(x, s). Ok (x, st\<lparr>mach := (mach st)\<lparr>ph := s\<rparr>\<rparr>))"

definition do_ph :: "(phys \<Rightarrow> phys res) \<Rightarrow> kern \<Rightarrow> kern res" where
  "do_ph f st = rbind (f (ph (mach st))) (\<lambda>s. Ok (st\<lparr>mach := (mach st)\<lparr>ph := s\<rparr>\<rparr>))"

text \<open>
  \<^verbatim>\<open>loadseg\<close>: \<open>i\<close> counts up to \<^verbatim>\<open>sz\<close> by pages; when the 32-bit counter would wrap around, the loop of the
  code does not end. The bytes \<^verbatim>\<open>readi\<close> delivers go to the physical address, which the kernel maps.
\<close>

function loadseg :: "u64 \<Rightarrow> u64 \<Rightarrow> nat \<Rightarrow> u32 \<Rightarrow> nat \<Rightarrow> nat \<Rightarrow> kern \<Rightarrow> (c_int \<times> kern) res" where
  "loadseg pagetable va ip offset i sz st =
     (if i < sz then
        rbind (walkaddr pagetable (va + of_nat i) (ph (mach st))) (\<lambda>pa.
          if pa = 0 then Panic ''loadseg: address should exist''
          else
            let n = min (sz - i) 4096 in
            rbind (readi ip DKern (offset + of_nat i) (of_nat n) st) (\<lambda>((r, bs), st).
              let s = ph (mach st);
                  st = st\<lparr>mach := (mach st)\<lparr>ph := s\<lparr>pmem := mem_write (pmem s) (unat pa) bs\<rparr>\<rparr>\<rparr>
              in if r \<noteq> of_nat n then Ok (- 1, st)
                 else if 2 ^ 32 \<le> i + 4096 then Stuck
                 else loadseg pagetable va ip offset (i + 4096) sz st))
      else Ok (0, st))"
  by pat_completeness auto
termination
  by (relation "measure (\<lambda>(pagetable, va, ip, offset, i, sz, st). sz - i)") auto

declare loadseg.simps [simp del]

text \<open>
  The loop over the program headers: \<open>k\<close> headers remain, the next one is at \<open>off\<close>, an \<^verbatim>\<open>int\<close>. The result
  is \<open>(ok, sz)\<close>, where \<open>sz\<close> is the size of the image so far.
\<close>

fun load_segments :: "u64 \<Rightarrow> nat \<Rightarrow> nat \<Rightarrow> c_int \<Rightarrow> u64 \<Rightarrow> kern \<Rightarrow> ((bool \<times> u64) \<times> kern) res" where
  "load_segments pagetable ip 0 off sz st = Ok ((True, sz), st)"
| "load_segments pagetable ip (Suc k) off sz st =
     rbind (readi ip DKern off (of_nat PROGHDR_SIZE) st) (\<lambda>((r, h), st).
       if r \<noteq> of_nat PROGHDR_SIZE then Ok ((False, sz), st)
       else
         let vaddr = (field h 16 8 :: u64); filesz = (field h 32 8 :: u64); memsz = (field h 40 8 :: u64)
         in if (field h 0 4 :: u32) \<noteq> ELF_PROG_LOAD
            then load_segments pagetable ip k (off + of_nat PROGHDR_SIZE) sz st
            else if memsz < filesz \<or> vaddr + memsz < vaddr \<or> vaddr mod PGSIZE \<noteq> 0 then Ok ((False, sz), st)
            else
              rbind (on_ph (uvmalloc pagetable sz (vaddr + memsz) (flags2perm (field h 4 4))) st) (\<lambda>(sz1, st).
                if sz1 = 0 then Ok ((False, sz), st)
                else
                  rbind (loadseg pagetable vaddr ip (ucast (field h 8 8 :: u64)) 0 (unat (ucast filesz :: u32)) st) (\<lambda>(r, st).
                    if r <s 0 then Ok ((False, sz1), st)
                    else load_segments pagetable ip k (off + of_nat PROGHDR_SIZE) sz1 st)))"

text \<open>
  The loop that pushes the argument strings: it returns the stack pointer and the addresses of the
  strings, or nothing if they do not fit.
\<close>

fun push_args ::
  "u64 \<Rightarrow> u64 \<Rightarrow> u8 list list \<Rightarrow> u64 \<Rightarrow> u64 list \<Rightarrow> kern \<Rightarrow> ((u64 \<times> u64 list) option \<times> kern) res" where
  "push_args pagetable stackbase [] sp ustack st = Ok (Some (sp, ustack), st)"
| "push_args pagetable stackbase (a # argv) sp ustack st =
     (if MAXARG \<le> length ustack then Ok (None, st)
      else
        let sp = sp - (of_nat (length a) + 1);
            sp = sp - sp mod 16
        in if sp < stackbase then Ok (None, st)
           else
             rbind (on_ph (copyout pagetable sp (a @ [0])) st) (\<lambda>(r, st).
               if r <s 0 then Ok (None, st)
               else push_args pagetable stackbase argv sp (ustack @ [sp]) st))"

definition last_element :: "u8 list \<Rightarrow> u8 list" where
  "last_element path = rev (takeWhile (\<lambda>c. c \<noteq> slash) (rev path))"

text \<open>\<^verbatim>\<open>safestrcpy\<close> into the 16 bytes of \<^verbatim>\<open>p->name\<close>.\<close>

definition set_name :: "u8 list \<Rightarrow> u8 list \<Rightarrow> u8 list" where
  "set_name s old = (let t = take 15 s in t @ 0 # drop (length t + 1) old)"

definition exec_bad :: "u64 \<Rightarrow> u64 \<Rightarrow> nat option \<Rightarrow> kern \<Rightarrow> (c_int \<times> kern) res" where
  "exec_bad pagetable sz ip st =
     rbind (if pagetable \<noteq> 0 then do_ph (proc_freepagetable pagetable sz) st else Ok st) (\<lambda>st.
     rbind (case ip of None \<Rightarrow> Ok st | Some ip \<Rightarrow> rbind (iunlockput ip st) end_op) (\<lambda>st.
     Ok (- 1, st)))"

text \<open>The second half of \<^verbatim>\<open>exec\<close>, when the image is loaded and the inode released.\<close>

definition exec_stack :: "u64 \<Rightarrow> u64 \<Rightarrow> u64 \<Rightarrow> u8 list \<Rightarrow> u8 list list \<Rightarrow> kern \<Rightarrow> (c_int \<times> kern) res" where
  "exec_stack pagetable sz start path argv st =
     rbind (me st) (\<lambda>p.
     let oldsz = p_sz (procs (mach st) p); sz = PGROUNDUP sz in
     rbind (on_ph (uvmalloc pagetable sz (sz + (USERSTACK + 1) * PGSIZE) PTE_W) st) (\<lambda>(sz1, st).
       if sz1 = 0 then exec_bad pagetable sz None st
       else
         let sz = sz1 in
         rbind (do_ph (uvmclear pagetable (sz - (USERSTACK + 1) * PGSIZE)) st) (\<lambda>st.
         let stackbase = sz - USERSTACK * PGSIZE in
         rbind (push_args pagetable stackbase argv sz [] st) (\<lambda>(x, st).
           case x of None \<Rightarrow> exec_bad pagetable sz None st
           | Some (sp, ustack) \<Rightarrow>
             let argc = length ustack;
                 sp = sp - of_nat (argc + 1) * 8;
                 sp = sp - sp mod 16
             in if sp < stackbase then exec_bad pagetable sz None st
                else
                  rbind (on_ph (copyout pagetable sp (concat (map (le_bytes 8) (ustack @ [0])))) st) (\<lambda>(r, st).
                    if r <s 0 then exec_bad pagetable sz None st
                    else
                      let m = mach st;
                          tf = p_trapframe (procs m p);
                          old = p_pagetable (procs m p);
                          s = tf_set (tf_set (tf_set (ph m) tf TF_a1 sp) tf TF_epc start) tf TF_sp sp;
                          m = upd_proc p (\<lambda>q. q\<lparr>p_name := set_name (last_element path) (p_name q),
                                 p_pagetable := pagetable, p_sz := sz\<rparr>) (m\<lparr>ph := s\<rparr>)
                      in rbind (do_ph (proc_freepagetable old oldsz) (st\<lparr>mach := m\<rparr>)) (\<lambda>st.
                         Ok (of_nat argc, st)))))))"

definition exec :: "u8 list \<Rightarrow> u8 list list \<Rightarrow> kern \<Rightarrow> (c_int \<times> kern) res" where
  "exec path argv st =
     rbind (begin_op st) (\<lambda>st.
     rbind (namei path st) (\<lambda>(x, st).
       case x of None \<Rightarrow> rbind (end_op st) (\<lambda>st. Ok (- 1, st))
       | Some ip \<Rightarrow>
         rbind (ilock (Some ip) st) (\<lambda>st.
         rbind (readi ip DKern 0 (of_nat ELFHDR_SIZE) st) (\<lambda>((r, elf), st).
           if r \<noteq> of_nat ELFHDR_SIZE \<or> (field elf 0 4 :: u32) \<noteq> ELF_MAGIC then exec_bad 0 0 (Some ip) st
           else
             rbind (me st) (\<lambda>p.
             rbind (on_ph (proc_pagetable (sym_trampoline (mach st)) (p_trapframe (procs (mach st) p))) st) (\<lambda>(pagetable, st).
               if pagetable = 0 then exec_bad 0 0 (Some ip) st
               else
                 rbind (load_segments pagetable ip (unat (field elf 56 2 :: u16)) (ucast (field elf 32 8 :: u64)) 0 st) (\<lambda>((ok, sz), st).
                   if \<not> ok then exec_bad pagetable sz (Some ip) st
                   else
                     rbind (iunlockput ip st) (\<lambda>st.
                     rbind (end_op st) (\<lambda>st.
                     exec_stack pagetable sz (field elf 24 8) path argv st)))))))))"

end
