(* ===== verification/Xv6_Sysfile.thy ===== *)
theory Xv6_Sysfile
  imports Xv6_Exec
begin

text \<open>
  System calls on files, \<^verbatim>\<open>kernel/sysfile.c\<close>. A system call takes its arguments from the trapframe of
  the running process and returns the value for its register \<^verbatim>\<open>a0\<close>, or \<open>None\<close> when the process has
  given up the processor.
\<close>

definition MAXPATH :: nat where "MAXPATH = 128"
definition O_RDONLY :: c_int where "O_RDONLY = 0"
definition O_WRONLY :: c_int where "O_WRONLY = 1"
definition O_RDWR :: c_int where "O_RDWR = 2"
definition O_CREATE :: c_int where "O_CREATE = 0x200"
definition O_TRUNC :: c_int where "O_TRUNC = 0x400"

type_synonym sys = "(u64 option \<times> kern) res"

definition ret :: "c_int \<Rightarrow> kern \<Rightarrow> sys" where
  "ret v st = Ok (Some (scast v), st)"

definition end_ret :: "c_int \<Rightarrow> kern \<Rightarrow> sys" where
  "end_ret v st = rbind (end_op st) (ret v)"

section \<open>Descriptors\<close>

definition argfd :: "nat \<Rightarrow> kern \<Rightarrow> (nat \<times> nat) option res" where
  "argfd n st =
     rbind (argint n st) (\<lambda>fd.
     rbind (me st) (\<lambda>p.
       if fd <s 0 \<or> of_nat NOFILE \<le>s fd then Ok None
       else Ok (map_option (\<lambda>f. (unat fd, f)) (p_ofile (procs (mach st) p) (unat fd)))))"

definition fdalloc :: "nat \<Rightarrow> kern \<Rightarrow> (c_int \<times> kern) res" where
  "fdalloc f st =
     rbind (me st) (\<lambda>p.
       case find (\<lambda>fd. p_ofile (procs (mach st) p) fd = None) [0..<NOFILE] of
         None \<Rightarrow> Ok (- 1, st)
       | Some fd \<Rightarrow> Ok (of_nat fd, upd_me p (\<lambda>q. q\<lparr>p_ofile := (p_ofile q)(fd := Some f)\<rparr>) st))"

definition fdfree :: "nat \<Rightarrow> kern \<Rightarrow> kern res" where
  "fdfree fd st = rbind (me st) (\<lambda>p. Ok (upd_me p (\<lambda>q. q\<lparr>p_ofile := (p_ofile q)(fd := None)\<rparr>) st))"

definition sys_dup :: "kern \<Rightarrow> sys" where
  "sys_dup st =
     rbind (argfd 0 st) (\<lambda>x.
       case x of None \<Rightarrow> ret (- 1) st
       | Some (_, f) \<Rightarrow>
         rbind (fdalloc f st) (\<lambda>(fd, st).
           if fd <s 0 then ret (- 1) st else rbind (filedup f st) (ret fd)))"

definition sys_read :: "kern \<Rightarrow> sys" where
  "sys_read st =
     rbind (argaddr 1 st) (\<lambda>p.
     rbind (argint 2 st) (\<lambda>n.
     rbind (argfd 0 st) (\<lambda>x.
       case x of None \<Rightarrow> ret (- 1) st
       | Some (_, f) \<Rightarrow> rbind (fileread f p n st) (\<lambda>(r, st). Ok (map_option scast r, st)))))"

definition sys_write :: "kern \<Rightarrow> sys" where
  "sys_write st =
     rbind (argaddr 1 st) (\<lambda>p.
     rbind (argint 2 st) (\<lambda>n.
     rbind (argfd 0 st) (\<lambda>x.
       case x of None \<Rightarrow> ret (- 1) st
       | Some (_, f) \<Rightarrow> rbind (filewrite f p n st) (\<lambda>(r, st). Ok (map_option scast r, st)))))"

definition sys_close :: "kern \<Rightarrow> sys" where
  "sys_close st =
     rbind (argfd 0 st) (\<lambda>x.
       case x of None \<Rightarrow> ret (- 1) st
       | Some (fd, f) \<Rightarrow> rbind (fdfree fd st) (\<lambda>st. rbind (fileclose f st) (ret 0)))"

definition sys_fstat :: "u8 list \<Rightarrow> kern \<Rightarrow> sys" where
  "sys_fstat pad st =
     rbind (argaddr 1 st) (\<lambda>a.
     rbind (argfd 0 st) (\<lambda>x.
       case x of None \<Rightarrow> ret (- 1) st
       | Some (_, f) \<Rightarrow> rbind (filestat f a pad st) (\<lambda>(r, st). ret r st)))"

section \<open>Links\<close>

definition nlink_add :: "nat \<Rightarrow> u16 \<Rightarrow> kern \<Rightarrow> kern res" where
  "nlink_add ip d st = iupdate ip (upd_inode ip (\<lambda>x. x\<lparr>i_nlink := i_nlink x + d\<rparr>) st)"

definition link_bad :: "nat \<Rightarrow> kern \<Rightarrow> sys" where
  "link_bad ip st =
     rbind (ilock (Some ip) st) (\<lambda>st.
     rbind (nlink_add ip (- 1) st) (\<lambda>st.
     rbind (iunlockput ip st) (end_ret (- 1))))"

definition sys_link :: "kern \<Rightarrow> sys" where
  "sys_link st =
     rbind (argstr 0 MAXPATH st) (\<lambda>(n0, old).
       if n0 <s 0 then ret (- 1) st
       else
     rbind (argstr 1 MAXPATH st) (\<lambda>(n1, new).
       if n1 <s 0 then ret (- 1) st
       else
     rbind (begin_op st) (\<lambda>st.
     rbind (namei old st) (\<lambda>(x, st).
       case x of None \<Rightarrow> end_ret (- 1) st
       | Some ip \<Rightarrow>
         rbind (ilock (Some ip) st) (\<lambda>st.
           if i_type (itab st ip) = T_DIR then rbind (iunlockput ip st) (end_ret (- 1))
           else
             rbind (nlink_add ip 1 st) (\<lambda>st.
             rbind (iunlock (Some ip) st) (\<lambda>st.
             rbind (nameiparent new st) (\<lambda>((y, name), st).
               case y of None \<Rightarrow> link_bad ip st
               | Some dp \<Rightarrow>
                 rbind (ilock (Some dp) st) (\<lambda>st.
                 rbind (if i_dev (itab st dp) \<noteq> i_dev (itab st ip) then Ok (- 1, st)
                        else dirlink dp name (i_inum (itab st ip)) st) (\<lambda>(r, st).
                   if r <s 0 then rbind (iunlockput dp st) (link_bad ip)
                   else
                     rbind (iunlockput dp st) (\<lambda>st.
                     rbind (iput ip st) (end_ret 0))))))))))))"

function isdirempty_from :: "nat \<Rightarrow> nat \<Rightarrow> nat \<Rightarrow> kern \<Rightarrow> (bool \<times> kern) res" where
  "isdirempty_from dp off sz st =
     (if off < sz then
        rbind (readi dp DKern (of_nat off) (of_nat DIRENT_SIZE) st) (\<lambda>((r, de), st).
          if r \<noteq> of_nat DIRENT_SIZE then Panic ''isdirempty: readi''
          else if de_inum de \<noteq> 0 then Ok (False, st)
          else isdirempty_from dp (off + DIRENT_SIZE) sz st)
      else Ok (True, st))"
  by pat_completeness auto
termination
  by (relation "measure (\<lambda>(dp, off, sz, st). sz - off)") (auto simp: DIRENT_SIZE_def)

declare isdirempty_from.simps [simp del]

definition isdirempty :: "nat \<Rightarrow> kern \<Rightarrow> (bool \<times> kern) res" where
  "isdirempty dp st = isdirempty_from dp (2 * DIRENT_SIZE) (unat (i_size (itab st dp))) st"

definition dot :: "u8 list" where "dot = [46]"
definition dotdot :: "u8 list" where "dotdot = [46, 46]"

definition sys_unlink :: "kern \<Rightarrow> sys" where
  "sys_unlink st =
     rbind (argstr 0 MAXPATH st) (\<lambda>(n, path).
       if n <s 0 then ret (- 1) st
       else
     rbind (begin_op st) (\<lambda>st.
     rbind (nameiparent path st) (\<lambda>((x, name), st).
       case x of None \<Rightarrow> end_ret (- 1) st
       | Some dp \<Rightarrow>
         rbind (ilock (Some dp) st) (\<lambda>st.
           if namecmp name dot = 0 \<or> namecmp name dotdot = 0 then rbind (iunlockput dp st) (end_ret (- 1))
           else
         rbind (dirlookup dp name st) (\<lambda>(y, st).
           case y of None \<Rightarrow> rbind (iunlockput dp st) (end_ret (- 1))
           | Some (ip, off) \<Rightarrow>
             rbind (ilock (Some ip) st) (\<lambda>st.
               if i_nlink (itab st ip) <s 1 then Panic ''unlink: nlink < 1''
               else
             rbind (if i_type (itab st ip) = T_DIR then isdirempty ip st else Ok (True, st)) (\<lambda>(mt, st).
               if \<not> mt then rbind (iunlockput ip st) (\<lambda>st. rbind (iunlockput dp st) (end_ret (- 1)))
               else
             rbind (writei dp (SKern (replicate DIRENT_SIZE 0)) off (of_nat DIRENT_SIZE) st) (\<lambda>(r, st).
               if r \<noteq> of_nat DIRENT_SIZE then Panic ''unlink: writei''
               else
             rbind (if i_type (itab st ip) = T_DIR then nlink_add dp (- 1) st else Ok st) (\<lambda>st.
             rbind (iunlockput dp st) (\<lambda>st.
             rbind (nlink_add ip (- 1) st) (\<lambda>st.
             rbind (iunlockput ip st) (end_ret 0))))))))))))"

section \<open>Creating and opening\<close>

definition create_fail :: "nat \<Rightarrow> nat \<Rightarrow> kern \<Rightarrow> (nat option \<times> kern) res" where
  "create_fail ip dp st =
     rbind (iupdate ip (upd_inode ip (\<lambda>x. x\<lparr>i_nlink := 0\<rparr>) st)) (\<lambda>st.
     rbind (iunlockput ip st) (\<lambda>st.
     rbind (iunlockput dp st) (\<lambda>st. Ok (None, st))))"

definition create :: "u8 list \<Rightarrow> u16 \<Rightarrow> u16 \<Rightarrow> u16 \<Rightarrow> kern \<Rightarrow> (nat option \<times> kern) res" where
  "create path type major minor st =
     rbind (nameiparent path st) (\<lambda>((x, name), st).
       case x of None \<Rightarrow> Ok (None, st)
       | Some dp \<Rightarrow>
     rbind (ilock (Some dp) st) (\<lambda>st.
     rbind (dirlookup dp name st) (\<lambda>(y, st).
       case y of
         Some (ip, off) \<Rightarrow>
           rbind (iunlockput dp st) (\<lambda>st.
           rbind (ilock (Some ip) st) (\<lambda>st.
             if type = T_FILE \<and> (i_type (itab st ip) = T_FILE \<or> i_type (itab st ip) = T_DEVICE)
             then Ok (Some ip, st)
             else rbind (iunlockput ip st) (\<lambda>st. Ok (None, st))))
       | None \<Rightarrow>
     rbind (ialloc (i_dev (itab st dp)) type st) (\<lambda>(z, st).
       case z of None \<Rightarrow> rbind (iunlockput dp st) (\<lambda>st. Ok (None, st))
       | Some ip \<Rightarrow>
     rbind (ilock (Some ip) st) (\<lambda>st.
     rbind (iupdate ip (upd_inode ip (\<lambda>x. x\<lparr>i_major := major, i_minor := minor, i_nlink := 1\<rparr>) st)) (\<lambda>st.
     rbind (if type = T_DIR then
              rbind (dirlink ip dot (i_inum (itab st ip)) st) (\<lambda>(r, st).
                if r <s 0 then Ok (r, st) else dirlink ip dotdot (i_inum (itab st dp)) st)
            else Ok (0, st)) (\<lambda>(r, st).
       if r <s 0 then create_fail ip dp st
       else
     rbind (dirlink dp name (i_inum (itab st ip)) st) (\<lambda>(r, st).
       if r <s 0 then create_fail ip dp st
       else
     rbind (if type = T_DIR then nlink_add dp 1 st else Ok st) (\<lambda>st.
     rbind (iunlockput dp st) (\<lambda>st. Ok (Some ip, st)))))))))))"

definition open_inode :: "u8 list \<Rightarrow> c_int \<Rightarrow> kern \<Rightarrow> (nat option \<times> kern) res" where
  "open_inode path omode st =
     (if omode AND O_CREATE \<noteq> 0 then create path T_FILE 0 0 st
      else
        rbind (namei path st) (\<lambda>(x, st).
          case x of None \<Rightarrow> Ok (None, st)
          | Some ip \<Rightarrow>
            rbind (ilock (Some ip) st) (\<lambda>st.
              if i_type (itab st ip) = T_DIR \<and> omode \<noteq> O_RDONLY
              then rbind (iunlockput ip st) (\<lambda>st. Ok (None, st))
              else Ok (Some ip, st))))"

definition sys_open :: "kern \<Rightarrow> sys" where
  "sys_open st =
     rbind (argint 1 st) (\<lambda>omode.
     rbind (argstr 0 MAXPATH st) (\<lambda>(n, path).
       if n <s 0 then ret (- 1) st
       else
     rbind (begin_op st) (\<lambda>st.
     rbind (open_inode path omode st) (\<lambda>(x, st).
       case x of None \<Rightarrow> end_ret (- 1) st
       | Some ip \<Rightarrow>
         if i_type (itab st ip) = T_DEVICE \<and>
            (i_major (itab st ip) <s 0 \<or> of_nat NDEV \<le>s i_major (itab st ip))
         then rbind (iunlockput ip st) (end_ret (- 1))
         else
           case filealloc st of
             (None, st) \<Rightarrow> rbind (iunlockput ip st) (end_ret (- 1))
           | (Some f, st) \<Rightarrow>
             rbind (fdalloc f st) (\<lambda>(fd, st).
               if fd <s 0 then
                 rbind (fileclose f st) (\<lambda>st. rbind (iunlockput ip st) (end_ret (- 1)))
               else
                 let st = upd_file f (\<lambda>x.
                       if i_type (itab st ip) = T_DEVICE
                       then x\<lparr>f_type := FD_DEVICE, f_major := i_major (itab st ip)\<rparr>
                       else x\<lparr>f_type := FD_INODE, f_off := 0\<rparr>) st;
                     st = upd_file f (\<lambda>x. x\<lparr>f_ip := Some ip, f_readable := (omode AND O_WRONLY = 0),
                       f_writable := (omode AND O_WRONLY \<noteq> 0 \<or> omode AND O_RDWR \<noteq> 0)\<rparr>) st
                 in rbind (if omode AND O_TRUNC \<noteq> 0 \<and> i_type (itab st ip) = T_FILE then itrunc ip st else Ok st) (\<lambda>st.
                    rbind (iunlock (Some ip) st) (end_ret fd)))))))"

definition make_node :: "(c_int \<times> u8 list) \<Rightarrow> u16 \<Rightarrow> u16 \<Rightarrow> u16 \<Rightarrow> kern \<Rightarrow> sys" where
  "make_node arg type major minor st =
     rbind (if fst arg <s 0 then Ok (None, st) else create (snd arg) type major minor st) (\<lambda>(x, st).
       case x of None \<Rightarrow> end_ret (- 1) st
       | Some ip \<Rightarrow> rbind (iunlockput ip st) (end_ret 0))"

definition sys_mkdir :: "kern \<Rightarrow> sys" where
  "sys_mkdir st =
     rbind (begin_op st) (\<lambda>st. rbind (argstr 0 MAXPATH st) (\<lambda>arg. make_node arg T_DIR 0 0 st))"

definition sys_mknod :: "kern \<Rightarrow> sys" where
  "sys_mknod st =
     rbind (begin_op st) (\<lambda>st.
     rbind (argint 1 st) (\<lambda>major.
     rbind (argint 2 st) (\<lambda>minor.
     rbind (argstr 0 MAXPATH st) (\<lambda>arg.
     make_node arg T_DEVICE (ucast major) (ucast minor) st))))"

definition sys_chdir :: "kern \<Rightarrow> sys" where
  "sys_chdir st =
     rbind (begin_op st) (\<lambda>st.
     rbind (argstr 0 MAXPATH st) (\<lambda>(n, path).
     rbind (if n <s 0 then Ok (None, st) else namei path st) (\<lambda>(x, st).
       case x of None \<Rightarrow> end_ret (- 1) st
       | Some ip \<Rightarrow>
         rbind (ilock (Some ip) st) (\<lambda>st.
           if i_type (itab st ip) \<noteq> T_DIR then rbind (iunlockput ip st) (end_ret (- 1))
           else
         rbind (iunlock (Some ip) st) (\<lambda>st.
         rbind (me st) (\<lambda>p.
           case p_cwd (procs (mach st) p) of None \<Rightarrow> Stuck
           | Some cwd \<Rightarrow>
             rbind (iput cwd st) (\<lambda>st.
             rbind (end_op st) (\<lambda>st.
             ret 0 (upd_me p (\<lambda>q. q\<lparr>p_cwd := Some ip\<rparr>) st)))))))))"

section \<open>exec and pipe\<close>

text \<open>
  The loop of \<^verbatim>\<open>sys_exec\<close> over the argument vector: the pages it has allocated, each with the string
  that was copied into it, and whether it succeeded.
\<close>

fun exec_args :: "u64 \<Rightarrow> nat \<Rightarrow> (u64 \<times> u8 list) list \<Rightarrow> kern \<Rightarrow> ((bool \<times> (u64 \<times> u8 list) list) \<times> kern) res" where
  "exec_args uargv 0 argv st = Ok ((False, argv), st)"
| "exec_args uargv (Suc k) argv st =
     rbind (fetchaddr (uargv + 8 * of_nat (length argv)) st) (\<lambda>(r, uarg).
       if r <s 0 then Ok ((False, argv), st)
       else if uarg = 0 then Ok ((True, argv), st)
       else
         case kalloc (ph (mach st)) of (pg, s) \<Rightarrow>
           let st = st\<lparr>mach := (mach st)\<lparr>ph := s\<rparr>\<rparr> in
           if pg = 0 then Ok ((False, argv), st)
           else
             rbind (fetchstr uarg 4096 st) (\<lambda>(r, s).
               if r <s 0 then Ok ((False, argv @ [(pg, s)]), st)
               else exec_args uargv k (argv @ [(pg, s)]) st))"

fun free_args :: "(u64 \<times> u8 list) list \<Rightarrow> kern \<Rightarrow> kern res" where
  "free_args [] st = Ok st"
| "free_args ((pg, s) # argv) st = rbind (do_ph (kfree pg) st) (free_args argv)"

definition sys_exec :: "kern \<Rightarrow> sys" where
  "sys_exec st =
     rbind (argaddr 1 st) (\<lambda>uargv.
     rbind (argstr 0 MAXPATH st) (\<lambda>(n, path).
       if n <s 0 then ret (- 1) st
       else
         rbind (exec_args uargv MAXARG [] st) (\<lambda>((ok, argv), st).
           if ok then
             rbind (exec path (map snd argv) st) (\<lambda>(r, st). rbind (free_args argv st) (ret r))
           else rbind (free_args argv st) (ret (- 1)))))"

definition close_both :: "nat \<Rightarrow> nat \<Rightarrow> kern \<Rightarrow> sys" where
  "close_both rfile wfile st = rbind (fileclose rfile st) (\<lambda>st. rbind (fileclose wfile st) (ret (- 1)))"

definition sys_pipe :: "kern \<Rightarrow> sys" where
  "sys_pipe st =
     rbind (argaddr 0 st) (\<lambda>fdarray.
     rbind (pipealloc st) (\<lambda>(x, st).
       case x of None \<Rightarrow> ret (- 1) st
       | Some (rfile, wfile) \<Rightarrow>
         rbind (fdalloc rfile st) (\<lambda>(fd0, st).
           if fd0 <s 0 then close_both rfile wfile st
           else
         rbind (fdalloc wfile st) (\<lambda>(fd1, st).
           if fd1 <s 0 then rbind (fdfree (unat fd0) st) (close_both rfile wfile)
           else
         rbind (rbind (user_out fdarray (int_bytes fd0) st) (\<lambda>(r, st).
                  if r <s 0 then Ok (r, st) else user_out (fdarray + 4) (int_bytes fd1) st)) (\<lambda>(r, st).
           if r <s 0 then
             rbind (fdfree (unat fd0) st) (\<lambda>st. rbind (fdfree (unat fd1) st) (close_both rfile wfile))
           else ret 0 st)))))"

end
