(* ===== verification/Xv6_Fork.thy ===== *)
theory Xv6_Fork
  imports Xv6_Exec
begin

text \<open>
  The parts of \<^verbatim>\<open>kernel/proc.c\<close> that also use files and memory: \<^verbatim>\<open>userinit\<close>, \<^verbatim>\<open>fork\<close>, \<^verbatim>\<open>exit\<close> and
  \<^verbatim>\<open>forkret\<close>.
\<close>

definition on_mach :: "(machine \<Rightarrow> machine res) \<Rightarrow> kern \<Rightarrow> kern res" where
  "on_mach f st = rbind (f (mach st)) (\<lambda>m. Ok (st\<lparr>mach := m\<rparr>))"

definition initcode :: "u8 list" where
  "initcode =
     [0x17, 0x05, 0x00, 0x00, 0x13, 0x05, 0x45, 0x02,
      0x97, 0x05, 0x00, 0x00, 0x93, 0x85, 0x35, 0x02,
      0x93, 0x08, 0x70, 0x00, 0x73, 0x00, 0x00, 0x00,
      0x93, 0x08, 0x20, 0x00, 0x73, 0x00, 0x00, 0x00,
      0xef, 0xf0, 0x9f, 0xff, 0x2f, 0x69, 0x6e, 0x69,
      0x74, 0x00, 0x00, 0x24, 0x00, 0x00, 0x00, 0x00,
      0x00, 0x00, 0x00, 0x00]"

text \<open>\<open>src\<close> is the address of \<^verbatim>\<open>initcode\<close> in the data of the kernel.\<close>

definition userinit :: "nat \<Rightarrow> kern \<Rightarrow> kern res" where
  "userinit src st =
     rbind (allocproc (hart st) (mach st)) (\<lambda>(found, m).
       case found of None \<Rightarrow> Stuck
       | Some p \<Rightarrow>
         let m = m\<lparr>initproc := Some p\<rparr>;
             m = m\<lparr>ph := (ph m)\<lparr>pmem := mem_write (pmem (ph m)) src initcode\<rparr>\<rparr>
         in rbind (uvmfirst (p_pagetable (procs m p)) src (of_nat (length initcode)) (ph m)) (\<lambda>s.
            let tf = p_trapframe (procs m p);
                s = tf_set (tf_set s tf TF_epc 0) tf TF_sp PGSIZE;
                m = upd_proc p (\<lambda>q. q\<lparr>p_sz := PGSIZE, p_name := set_name (str ''initcode'') (p_name q)\<rparr>) (m\<lparr>ph := s\<rparr>)
            in rbind (namei [slash] (st\<lparr>mach := m\<rparr>)) (\<lambda>(cwd, st).
               let m = upd_proc p (\<lambda>q. q\<lparr>p_cwd := cwd, p_state := RUNNABLE, p_last_runnable_time := ticks (mach st)\<rparr>) (mach st)
               in rbind (release (hart st) (PLock p) m) (\<lambda>m. Ok (st\<lparr>mach := m\<rparr>)))))"

definition TRAPFRAME_SIZE :: nat where "TRAPFRAME_SIZE = 288"

text \<open>The loop of \<^verbatim>\<open>fork\<close> over the descriptors: \<open>n\<close> remain, the next one is \<open>i\<close>.\<close>

fun fork_files :: "nat \<Rightarrow> nat \<Rightarrow> nat \<Rightarrow> nat \<Rightarrow> kern \<Rightarrow> kern res" where
  "fork_files p np i 0 st = Ok st"
| "fork_files p np i (Suc n) st =
     (case p_ofile (procs (mach st) p) i of
        None \<Rightarrow> fork_files p np (Suc i) n st
      | Some f \<Rightarrow>
        rbind (filedup f st) (\<lambda>st.
        fork_files p np (Suc i) n (upd_me np (\<lambda>q. q\<lparr>p_ofile := (p_ofile q)(i := Some f)\<rparr>) st)))"

definition fork :: "kern \<Rightarrow> (c_int \<times> kern) res" where
  "fork st =
     rbind (me st) (\<lambda>p.
     rbind (allocproc (hart st) (mach st)) (\<lambda>(found, m).
       case found of None \<Rightarrow> Ok (- 1, st\<lparr>mach := m\<rparr>)
       | Some np \<Rightarrow>
         rbind (uvmcopy (p_pagetable (procs m p)) (p_pagetable (procs m np)) (p_sz (procs m p)) (ph m)) (\<lambda>(r, s).
           let m = m\<lparr>ph := s\<rparr> in
           if r <s 0 then
             rbind (freeproc np m) (\<lambda>m. rbind (release (hart st) (PLock np) m) (\<lambda>m. Ok (- 1, st\<lparr>mach := m\<rparr>)))
           else
             let tf = p_trapframe (procs m p); ntf = p_trapframe (procs m np);
                 s = s\<lparr>pmem := mem_write (pmem s) (unat ntf) (mem_read (pmem s) (unat tf) TRAPFRAME_SIZE)\<rparr>;
                 s = tf_set s ntf TF_a0 0;
                 m = upd_proc np (\<lambda>q. q\<lparr>p_sz := p_sz (procs m p)\<rparr>) (m\<lparr>ph := s\<rparr>)
             in rbind (fork_files p np 0 NOFILE (st\<lparr>mach := m\<rparr>)) (\<lambda>st.
                case p_cwd (procs (mach st) p) of None \<Rightarrow> Stuck
                | Some cwd \<Rightarrow>
                  (case idup cwd st of (cwd, st) \<Rightarrow>
                   let nm = takeWhile (\<lambda>c. c \<noteq> 0) (p_name (procs (mach st) p));
                       st = upd_me np (\<lambda>q. q\<lparr>p_cwd := Some cwd, p_name := set_name nm (p_name q)\<rparr>) st;
                       pid = p_pid (procs (mach st) np);
                       i = hart st
                   in rbind (release i (PLock np) (mach st)) (\<lambda>m.
                      rbind (acquire i WaitLock m) (\<lambda>m.
                      rbind (release i WaitLock (upd_proc np (\<lambda>q. q\<lparr>p_parent := Some p\<rparr>) m)) (\<lambda>m.
                      rbind (acquire i (PLock np) m) (\<lambda>m.
                      rbind (release i (PLock np)
                        (upd_proc np (\<lambda>q. q\<lparr>p_state := RUNNABLE, p_last_runnable_time := ticks m\<rparr>) m)) (\<lambda>m.
                      Ok (pid, st\<lparr>mach := m\<rparr>)))))))))))"

text \<open>The loop of \<^verbatim>\<open>exit\<close> that closes the files.\<close>

fun exit_files :: "nat \<Rightarrow> nat \<Rightarrow> nat \<Rightarrow> kern \<Rightarrow> kern res" where
  "exit_files p fd 0 st = Ok st"
| "exit_files p fd (Suc n) st =
     (case p_ofile (procs (mach st) p) fd of
        None \<Rightarrow> exit_files p (Suc fd) n st
      | Some f \<Rightarrow>
        rbind (fileclose f st) (\<lambda>st.
        exit_files p (Suc fd) n (upd_me p (\<lambda>q. q\<lparr>p_ofile := (p_ofile q)(fd := None)\<rparr>) st)))"

text \<open>\<^verbatim>\<open>exit(status)\<close> up to its switch, from which it never returns.\<close>

definition exit :: "c_int \<Rightarrow> kern \<Rightarrow> kern res" where
  "exit status st =
     rbind (me st) (\<lambda>p.
       if initproc (mach st) = Some p then Panic ''init exiting''
       else
         rbind (on_mach (exit_metrics (hart st) p) st) (\<lambda>st.
         rbind (exit_files p 0 NOFILE st) (\<lambda>st.
         rbind (begin_op st) (\<lambda>st.
           case p_cwd (procs (mach st) p) of None \<Rightarrow> Stuck
           | Some cwd \<Rightarrow>
             rbind (iput cwd st) (\<lambda>st.
             rbind (end_op st) (\<lambda>st.
             on_mach (exit_final (hart st) p status) (upd_me p (\<lambda>q. q\<lparr>p_cwd := None\<rparr>) st)))))))"

text \<open>\<^verbatim>\<open>forkret()\<close> before its \<^verbatim>\<open>usertrapret()\<close>: the first process ever scheduled opens the file system.\<close>

definition forkret :: "kern \<Rightarrow> kern res" where
  "forkret st =
     rbind (me st) (\<lambda>p.
     rbind (on_mach (release (hart st) (PLock p)) st) (\<lambda>st.
       if forkret_first st then rbind (fsinit ROOTDEV st) (\<lambda>st. Ok (st\<lparr>forkret_first := False\<rparr>)) else Ok st))"

end
