(* ===== verification/Xv6_Datetime.thy ===== *)
theory Xv6_Datetime
  imports Xv6_Prelude
begin

text \<open>
  The calendar of \<^verbatim>\<open>kernel/sysutil.c\<close>: a number of seconds since 1970 as a date and time of day in the
  zone of Cairo, two hours east, and the random numbers of the same file.
\<close>

section \<open>Code\<close>

record datetime =
  dt_year :: nat
  dt_month :: nat
  dt_day :: nat
  dt_hour :: nat
  dt_minute :: nat
  dt_second :: nat
  dt_weekday :: nat

definition CAIRO_OFFSET :: u64 where "CAIRO_OFFSET = 2 * 3600"

definition month_days :: "nat list" where
  "month_days = [31, 28, 31, 30, 31, 30, 31, 31, 30, 31, 30, 31]"

definition is_leap_year :: "nat \<Rightarrow> bool" where
  "is_leap_year year \<longleftrightarrow> year mod 4 = 0 \<and> year mod 100 \<noteq> 0 \<or> year mod 400 = 0"

definition days_in_year :: "nat \<Rightarrow> nat" where
  "days_in_year year = (if is_leap_year year then 366 else 365)"

function find_year :: "nat \<Rightarrow> nat \<Rightarrow> nat \<times> nat" where
  "find_year days year =
     (if days < days_in_year year then (days, year) else find_year (days - days_in_year year) (Suc year))"
  by pat_completeness auto
termination
  by (relation "measure fst") (auto simp: days_in_year_def)

declare find_year.simps [simp del]

definition days_in_month :: "nat \<Rightarrow> nat \<Rightarrow> nat" where
  "days_in_month year month = (if month = 1 \<and> is_leap_year year then 29 else month_days ! month)"

text \<open>The \<^verbatim>\<open>for\<close> loop over the months, which are numbered from 0; \<open>n\<close> of them remain.\<close>

fun find_month :: "nat \<Rightarrow> nat \<Rightarrow> nat \<Rightarrow> nat \<Rightarrow> nat \<times> nat" where
  "find_month year month 0 days = (days, month)"
| "find_month year month (Suc n) days =
     (if days < days_in_month year month then (days, month)
      else find_month year (Suc month) n (days - days_in_month year month))"

text \<open>
  \<^verbatim>\<open>unix_to_datetime\<close>. The year is an \<^verbatim>\<open>int\<close>: a time so far away that it overflows has no defined result.
\<close>

definition unix_to_datetime :: "u64 \<Rightarrow> datetime res" where
  "unix_to_datetime timestamp =
     (let t = unat (timestamp + CAIRO_OFFSET) in
      case find_year (t div 86400) 1970 of (days, year) \<Rightarrow>
        if 2 ^ 31 \<le> year then Stuck
        else case find_month year 0 12 days of (days, month) \<Rightarrow>
          let secs = t mod 86400 in
          Ok \<lparr>dt_year = year, dt_month = month + 1, dt_day = days + 1, dt_hour = secs div 3600,
             dt_minute = secs mod 3600 div 60, dt_second = secs mod 60, dt_weekday = (t div 86400 + 4) mod 7\<rparr>)"

text \<open>The linear congruential generator of \<^verbatim>\<open>sys_rand\<close>: the number and the next seed.\<close>

definition rand_step :: "u32 \<Rightarrow> u64 \<Rightarrow> u64 \<times> u64" where
  "rand_step ticks seed =
     (let seed = (if seed = 1 then ucast ticks else seed);
          seed = seed * 1103515245 + 12345
      in (drop_bit 16 seed AND 0x7FFF, seed))"

section \<open>Calendar arithmetic\<close>

text \<open>The days before a year, counted from 1970, and before a month of it.\<close>

definition days_before_year :: "nat \<Rightarrow> nat" where
  "days_before_year year = sum_list (map days_in_year [1970..<year])"

definition days_before_month :: "nat \<Rightarrow> nat \<Rightarrow> nat" where
  "days_before_month year month = sum_list (map (days_in_month year) [0..<month])"

lemma find_year_ok:
  "find_year days year = (rest, y) \<Longrightarrow>
   year \<le> y \<and> rest < days_in_year y \<and> days = sum_list (map days_in_year [year..<y]) + rest"
proof (induction days year arbitrary: rest y rule: find_year.induct)
  case (1 days year)
  show ?case
  proof (cases "days < days_in_year year")
    case True
    then show ?thesis
      using 1(2) by (simp add: find_year.simps)
  next
    case False
    then have "find_year (days - days_in_year year) (Suc year) = (rest, y)"
      using 1(2) by (simp add: find_year.simps [of days])
    from 1(1) [OF False this] show ?thesis
      using False by (auto simp: upt_conv_Cons [of year y])
  qed
qed

lemma year_months: "days_before_month year 12 = days_in_year year"
  by (simp add: days_before_month_def days_in_year_def days_in_month_def month_days_def upt_rec)

lemma find_month_ok:
  "find_month year month n days = (rest, m) \<Longrightarrow> days < sum_list (map (days_in_month year) [month..<month + n]) \<Longrightarrow>
   month \<le> m \<and> m < month + n \<and> rest < days_in_month year m \<and>
   days = sum_list (map (days_in_month year) [month..<m]) + rest"
proof (induction n arbitrary: month days)
  case (Suc n)
  have sum: "sum_list (map (days_in_month year) [month..<month + Suc n]) =
      days_in_month year month + sum_list (map (days_in_month year) [Suc month..<Suc month + n])"
    by (simp add: upt_conv_Cons del: upt_Suc)
  show ?case
  proof (cases "days < days_in_month year month")
    case True
    then show ?thesis
      using Suc.prems(1) by simp
  next
    case False
    then have "find_month year (Suc month) n (days - days_in_month year month) = (rest, m)"
      using Suc.prems(1) by simp
    moreover have "days - days_in_month year month < sum_list (map (days_in_month year) [Suc month..<Suc month + n])"
      using False Suc.prems(2) unfolding sum by linarith
    ultimately have "Suc month \<le> m \<and> m < Suc month + n \<and> rest < days_in_month year m \<and>
        days - days_in_month year month = sum_list (map (days_in_month year) [Suc month..<m]) + rest"
      by (rule Suc.IH)
    then show ?thesis
      using False by (auto simp: upt_conv_Cons [of month m])
  qed
qed simp


section \<open>The Gregorian calendar\<close>

text \<open>
  The calendar itself, apart from the code: leap years by divisibility, the lengths of the months by name, and the number of
  a day since the first of January of the year 1, which is day 1 and a Monday. The formula for the
  days before a month is the usual one, corrected for February.
\<close>

definition gregorian_leap :: "nat \<Rightarrow> bool" where
  "gregorian_leap y \<longleftrightarrow> 4 dvd y \<and> (100 dvd y \<longrightarrow> 400 dvd y)"

definition month_length :: "nat \<Rightarrow> nat \<Rightarrow> nat" where
  "month_length y m =
     (if m = 2 then (if gregorian_leap y then 29 else 28) else if m \<in> {4, 6, 9, 11} then 30 else 31)"

definition leap_days :: "int \<Rightarrow> int" where
  "leap_days n = n div 4 - n div 100 + n div 400"

definition fixed_day :: "nat \<Rightarrow> nat \<Rightarrow> nat \<Rightarrow> int" where
  "fixed_day y m d =
     365 * (int y - 1) + leap_days (int y - 1) +
     (367 * int m - 362) div 12 + (if m \<le> 2 then 0 else if gregorian_leap y then - 1 else - 2) + int d"

definition valid_date :: "datetime \<Rightarrow> bool" where
  "valid_date d \<longleftrightarrow> 1970 \<le> dt_year d \<and> 1 \<le> dt_month d \<and> dt_month d \<le> 12 \<and>
     1 \<le> dt_day d \<and> dt_day d \<le> month_length (dt_year d) (dt_month d) \<and>
     dt_hour d < 24 \<and> dt_minute d < 60 \<and> dt_second d < 60"

lemma leap_multiples: "400 dvd y \<Longrightarrow> 100 dvd (y :: nat)" "100 dvd y \<Longrightarrow> 4 dvd (y :: nat)"
  by (rule dvd_trans [of _ 400], simp_all) (rule dvd_trans [of _ 100], simp_all)

lemma leap_iff: "is_leap_year y \<longleftrightarrow> gregorian_leap y"
  using leap_multiples [of y] by (auto simp: is_leap_year_def gregorian_leap_def dvd_eq_mod_eq_0)

lemma less_12_cases: "m < 12 \<Longrightarrow> m \<in> {0, 1, 2, 3, 4, 5, 6, 7, 8, 9, 10, 11 :: nat}"
  unfolding insert_iff empty_iff by presburger

lemma month_length_code: "m < 12 \<Longrightarrow> days_in_month y m = month_length y (Suc m)"
  by (drule less_12_cases, elim insertE) (simp_all add: days_in_month_def month_length_def month_days_def leap_iff)

lemma days_before_month_code:
  "m < 12 \<Longrightarrow> int (days_before_month y m) =
   (367 * int (Suc m) - 362) div 12 + (if Suc m \<le> 2 then 0 else if gregorian_leap y then - 1 else - 2)"
  by (drule less_12_cases, elim insertE) (simp_all add: days_before_month_def days_in_month_def month_days_def leap_iff upt_rec)

lemma div_step:
  fixes y k :: nat
  assumes "0 < y"
  shows "int y div int k = (int y - 1) div int k + of_bool (k dvd y)"
proof -
  obtain n where n: "y = Suc n"
    using assms by (cases y) auto
  have "int y - 1 = int n"
    by (simp add: n)
  moreover have "int (y div k) = int (n div k) + of_bool (k dvd y)"
    unfolding n div_Suc dvd_eq_mod_eq_0 by (cases "Suc n mod k = 0") simp_all
  ultimately show ?thesis
    by (simp only: zdiv_int)
qed

lemma leap_days_step:
  fixes y :: nat
  assumes "0 < y"
  shows "leap_days (int y) = leap_days (int y - 1) + of_bool (gregorian_leap y)"
proof -
  define a b c where "a = (int y - 1) div 4" and "b = (int y - 1) div 100" and "c = (int y - 1) div 400"
  have "int y div 4 = a + of_bool (4 dvd y)" "int y div 100 = b + of_bool (100 dvd y)"
    "int y div 400 = c + of_bool (400 dvd y)"
    unfolding a_def b_def c_def using div_step [OF assms, of 4] div_step [OF assms, of 100] div_step [OF assms, of 400]
    by (simp_all only: of_nat_numeral)
  moreover have "of_bool (4 dvd y) - of_bool (100 dvd y) + of_bool (400 dvd y) = (of_bool (gregorian_leap y) :: int)"
    using leap_multiples [of y] by (cases "4 dvd y"; cases "100 dvd y"; cases "400 dvd y") (simp_all add: gregorian_leap_def)
  ultimately show ?thesis
    unfolding leap_days_def a_def [symmetric] b_def [symmetric] c_def [symmetric] by linarith
qed

lemma days_before_year_code:
  "1970 \<le> y \<Longrightarrow> int (days_before_year y) =
   365 * (int y - 1) + leap_days (int y - 1) - 719162"
proof (induction y rule: nat_induct_at_least)
  case base
  show ?case
    by (simp add: days_before_year_def leap_days_def)
next
  case (Suc y)
  then have "days_before_year (Suc y) = days_before_year y + days_in_year y"
    by (simp add: days_before_year_def)
  then have "int (days_before_year (Suc y)) = int (days_before_year y) + 365 + of_bool (gregorian_leap y)"
    by (simp add: days_in_year_def leap_iff)
  moreover have "int (Suc y) - 1 = int y"
    by simp
  ultimately show ?case
    using Suc.IH leap_days_step [of y] Suc.hyps by simp
qed

lemma fixed_day_code:
  "1970 \<le> y \<Longrightarrow> m < 12 \<Longrightarrow>
   fixed_day y (Suc m) (Suc d) = 719163 + int (days_before_year y + days_before_month y m + d)"
  using days_before_year_code [of y] days_before_month_code [of m y] by (simp add: fixed_day_def)

text \<open>
  Claim C9: the calendar is right. The date and time that \<^verbatim>\<open>unix_to_datetime\<close> computes is a valid one of the Gregorian
  calendar; its day is as many days after the first of January 1970, which is day 719163, as whole days have passed, with the two
  hours of the zone added; its time of day is the rest; and its weekday, Sunday being 0, is that of its day.
\<close>

theorem unix_to_datetime_correct:
  assumes "unix_to_datetime t = Ok d"
  shows "valid_date d \<and>
    fixed_day (dt_year d) (dt_month d) (dt_day d) = 719163 + int (unat (t + CAIRO_OFFSET) div 86400) \<and>
    dt_hour d * 3600 + dt_minute d * 60 + dt_second d = unat (t + CAIRO_OFFSET) mod 86400 \<and>
    int (dt_weekday d) = fixed_day (dt_year d) (dt_month d) (dt_day d) mod 7"
proof -
  let ?t = "unat (t + CAIRO_OFFSET)"
  obtain rest y where y: "find_year (?t div 86400) 1970 = (rest, y)"
    by fastforce
  obtain day m where m: "find_month y 0 12 rest = (day, m)"
    by fastforce
  have fy: "1970 \<le> y" "rest < days_in_year y" "?t div 86400 = days_before_year y + rest"
    using find_year_ok [OF y] by (simp_all add: days_before_year_def)
  have "rest < sum_list (map (days_in_month y) [0..<0 + 12])"
    using fy(2) year_months [of y] by (simp add: days_before_month_def del: upt_Suc)
  from find_month_ok [OF m this] have fm: "m < 12" "day < days_in_month y m" "rest = days_before_month y m + day"
    by (simp_all add: days_before_month_def)
  have d: "d = \<lparr>dt_year = y, dt_month = m + 1, dt_day = day + 1, dt_hour = ?t mod 86400 div 3600,
      dt_minute = ?t mod 86400 mod 3600 div 60, dt_second = ?t mod 86400 mod 60, dt_weekday = (?t div 86400 + 4) mod 7\<rparr>"
    using assms y m by (simp add: unix_to_datetime_def Let_def split: if_splits)
  let ?s = "?t mod 86400"
  have "?s mod 60 = ?s mod 3600 mod 60"
    by (simp add: mod_mod_cancel)
  then have "?s div 3600 * 3600 + ?s mod 3600 div 60 * 60 + ?s mod 60 = ?s"
    using div_mult_mod_eq [of "?s mod 3600" 60] div_mult_mod_eq [of ?s 3600] by linarith
  moreover have "valid_date d"
    using fy(1) fm(1,2) by (simp add: valid_date_def d month_length_code div_less_iff_less_mult)
  moreover have fixed: "fixed_day y (Suc m) (Suc day) = 719163 + int (?t div 86400)"
    using fixed_day_code [OF fy(1) fm(1), of day] fy(3) fm(3) by (simp add: add.assoc)
  moreover have "int ((?t div 86400 + 4) mod 7) = (719163 + int (?t div 86400)) mod 7"
    unfolding zmod_int by (simp add: mod_add_left_eq [of 719163 7, symmetric] add.commute)
  ultimately show ?thesis
    by (simp add: d)
qed

theorem unix_to_datetime_correct_witness:
  "\<exists>d. unix_to_datetime 951782400 = Ok d \<and> valid_date d \<and> dt_year d = 2000 \<and> dt_month d = 2 \<and> dt_day d = 29 \<and>
     fixed_day 2000 2 29 = 719163 + 11016"
proof -
  have "find_year 11016 1970 = (59, 2000)"
    by (simp add: find_year.simps days_in_year_def is_leap_year_def)
  moreover have "find_month 2000 0 (Suc (Suc 10)) 59 = (28, 1)"
    unfolding find_month.simps by (simp add: days_in_month_def month_days_def is_leap_year_def)
  ultimately have "unix_to_datetime 951782400 = Ok \<lparr>dt_year = 2000, dt_month = 2, dt_day = 29, dt_hour = 2,
      dt_minute = 0, dt_second = 0, dt_weekday = 2\<rparr>"
    by (simp add: unix_to_datetime_def CAIRO_OFFSET_def)
  from unix_to_datetime_correct [OF this] this show ?thesis
    by (auto simp: CAIRO_OFFSET_def)
qed

end
