(* ===== verification/Xv6_Syscall.thy ===== *)
theory Xv6_Syscall
  imports Xv6_Sysfile Xv6_Fork Xv6_Datetime
begin

text \<open>
  The other system calls, \<^verbatim>\<open>kernel/sysproc.c\<close> and \<^verbatim>\<open>kernel/sysutil.c\<close>, and the dispatcher of
  \<^verbatim>\<open>kernel/syscall.c\<close>.
\<close>

section \<open>Processes\<close>

definition on_machine :: "(machine \<Rightarrow> ('a \<times> machine) res) \<Rightarrow> kern \<Rightarrow> ('a \<times> kern) res" where
  "on_machine f st = rbind (f (mach st)) (\<lambda>(x, m). Ok (x, st\<lparr>mach := m\<rparr>))"

text \<open>Calls of \<open>Xv6_Proc\<close> that may switch to the scheduler.\<close>

definition may_switch :: "((c_int \<times> machine) + machine) res \<Rightarrow> kern \<Rightarrow> sys" where
  "may_switch x st =
     rbind x (\<lambda>y. case y of Inl (r, m) \<Rightarrow> ret r (st\<lparr>mach := m\<rparr>) | Inr m \<Rightarrow> Ok (None, st\<lparr>mach := m\<rparr>))"

definition sys_exit :: "kern \<Rightarrow> sys" where
  "sys_exit st = rbind (argint 0 st) (\<lambda>n. rbind (exit n st) (\<lambda>st. Ok (None, st)))"

definition sys_getpid :: "kern \<Rightarrow> sys" where
  "sys_getpid st = rbind (me st) (\<lambda>p. ret (p_pid (procs (mach st) p)) st)"

definition sys_fork :: "kern \<Rightarrow> sys" where
  "sys_fork st = rbind (fork st) (\<lambda>(r, st). ret r st)"

definition sys_wait :: "kern \<Rightarrow> sys" where
  "sys_wait st = rbind (argaddr 0 st) (\<lambda>p. may_switch (wait (hart st) p (mach st)) st)"

definition sys_sbrk :: "kern \<Rightarrow> sys" where
  "sys_sbrk st =
     rbind (argint 0 st) (\<lambda>n.
     rbind (me st) (\<lambda>p.
     let addr = p_sz (procs (mach st) p) in
     rbind (on_machine (growproc (hart st) n) st) (\<lambda>(r, st).
       if r <s 0 then ret (- 1) st else Ok (Some addr, st))))"

text \<open>
  The loop of \<^verbatim>\<open>sys_sleep\<close>, with \<^verbatim>\<open>tickslock\<close> held; a process that is woken takes the lock and enters it
  again with the same \<^verbatim>\<open>ticks0\<close>. The comparison is one of unsigned numbers.
\<close>

definition sleep_loop :: "c_int \<Rightarrow> u32 \<Rightarrow> nat \<Rightarrow> nat \<Rightarrow> machine \<Rightarrow> ((c_int \<times> machine) + machine) res" where
  "sleep_loop n ticks0 i p m =
     (if ticks m - ticks0 < n then
        rbind (killed i p m) (\<lambda>(dead, m).
          if dead \<noteq> 0 then rbind (release i TicksLock m) (\<lambda>m. Ok (Inl (- 1, m)))
          else rbind (sleep i ChTicks TicksLock m) (\<lambda>m. Ok (Inr m)))
      else rbind (release i TicksLock m) (\<lambda>m. Ok (Inl (0, m))))"

definition sys_sleep :: "kern \<Rightarrow> sys" where
  "sys_sleep st =
     rbind (argint 0 st) (\<lambda>n.
     rbind (me st) (\<lambda>p.
     let n = (if n <s 0 then 0 else n) in
     may_switch (rbind (acquire (hart st) TicksLock (mach st)) (\<lambda>m. sleep_loop n (ticks m) (hart st) p m)) st))"

definition sys_kill :: "kern \<Rightarrow> sys" where
  "sys_kill st =
     rbind (argint 0 st) (\<lambda>pid. rbind (on_machine (kill (hart st) pid) st) (\<lambda>(r, st). ret r st))"

definition sys_getppid :: "kern \<Rightarrow> sys" where
  "sys_getppid st =
     rbind (me st) (\<lambda>p.
       case p_parent (procs (mach st) p) of None \<Rightarrow> ret 0 st | Some q \<Rightarrow> ret (p_pid (procs (mach st) q)) st)"

text \<open>
  The bytes of a \<^verbatim>\<open>struct procinfo\<close>. Four bytes before \<^verbatim>\<open>sz\<close> are padding; the bytes of \<^verbatim>\<open>name\<close> after the NUL
  that \<^verbatim>\<open>safestrcpy\<close> writes are not set. Both are what the kernel stack held, the argument \<open>pad\<close>, and
  for the name what the entry before left.
\<close>

definition state_num :: "procstate \<Rightarrow> c_int" where
  "state_num s = (case s of UNUSED \<Rightarrow> 0 | USED \<Rightarrow> 1 | SLEEPING \<Rightarrow> 2 | RUNNABLE \<Rightarrow> 3 | RUNNING \<Rightarrow> 4 | ZOMBIE \<Rightarrow> 5)"

definition procinfo_bytes :: "u8 list \<Rightarrow> machine \<Rightarrow> nat \<Rightarrow> u8 list \<Rightarrow> u8 list" where
  "procinfo_bytes pad m k nm =
     (let p = procs m k in
      int_bytes (p_pid p) @ int_bytes (case p_parent p of None \<Rightarrow> 0 | Some q \<Rightarrow> p_pid (procs m q)) @
      int_bytes (state_num (p_state p)) @ take 4 (pad @ replicate 4 0) @ le_bytes 8 (p_sz p) @ nm)"

fun getptable_from ::
  "u8 list \<Rightarrow> nat \<Rightarrow> nat \<Rightarrow> u64 \<Rightarrow> c_int \<Rightarrow> nat \<Rightarrow> nat \<Rightarrow> nat \<Rightarrow> u8 list \<Rightarrow> machine \<Rightarrow> (nat \<times> machine) res" where
  "getptable_from pad i mp buf n count k 0 nm m = Ok (count, m)"
| "getptable_from pad i mp buf n count k (Suc r) nm m =
     (if \<not> int count < sint n then Ok (count, m)
      else
        rbind (acquire i (PLock k) m) (\<lambda>m.
          if p_state (procs m k) \<noteq> UNUSED then
            let nm = set_name (takeWhile (\<lambda>c. c \<noteq> 0) (p_name (procs m k))) nm in
            rbind (copyout (p_pagetable (procs m mp)) (buf + of_nat count * 40) (procinfo_bytes pad m k nm) (ph m)) (\<lambda>(x, s).
              if x <s 0 then rbind (release i (PLock k) (m\<lparr>ph := s\<rparr>)) (\<lambda>m. Ok (0, m))
              else
                rbind (release i (PLock k) (m\<lparr>ph := s\<rparr>)) (\<lambda>m.
                getptable_from pad i mp buf n (Suc count) (Suc k) r nm m))
          else rbind (release i (PLock k) m) (\<lambda>m. getptable_from pad i mp buf n count (Suc k) r nm m)))"

definition sys_getptable :: "u8 list \<Rightarrow> kern \<Rightarrow> sys" where
  "sys_getptable pad st =
     rbind (argint 0 st) (\<lambda>n.
     rbind (argaddr 1 st) (\<lambda>buf.
       if n <s 1 \<or> buf = 0 then ret 0 st
       else
         rbind (me st) (\<lambda>mp.
         rbind (on_machine (getptable_from pad (hart st) mp buf n 0 0 NPROC (take 16 (drop 4 pad @ replicate 16 0))) st) (\<lambda>(c, st).
         ret (of_nat c) st))))"

definition sys_setpriority :: "kern \<Rightarrow> sys" where
  "sys_setpriority st =
     rbind (argint 0 st) (\<lambda>pid.
     rbind (argint 1 st) (\<lambda>priority. may_switch (setpriority (hart st) pid priority (mach st)) st))"

definition sys_setscheduler :: "kern \<Rightarrow> sys" where
  "sys_setscheduler st =
     rbind (argint 0 st) (\<lambda>policy. may_switch (setscheduler (hart st) policy (mach st)) st)"

definition kprint :: "u8 list \<Rightarrow> varg list \<Rightarrow> kern \<Rightarrow> kern res" where
  "kprint fmt ap st =
     rbind (kprintf (hart st) fmt ap (devices st) (mach st)) (\<lambda>(d, m). Ok (st\<lparr>devices := d, mach := m\<rparr>))"

definition short_state :: "procstate \<Rightarrow> u8 list" where
  "short_state s = str (case s of SLEEPING \<Rightarrow> ''SLEEP'' | RUNNABLE \<Rightarrow> ''RUNBL'' | RUNNING \<Rightarrow> ''RUN'' | _ \<Rightarrow> ''???'')"

fun print_active :: "nat \<Rightarrow> nat \<Rightarrow> kern \<Rightarrow> kern res" where
  "print_active k 0 st = Ok st"
| "print_active k (Suc n) st =
     rbind (on_mach (acquire (hart st) (PLock k)) st) (\<lambda>st.
     let p = procs (mach st) k in
     rbind (if p_state p \<noteq> UNUSED then
              kprint (str ''%d'' @ [9] @ str ''%d'' @ [9] @ str ''%s'' @ [9] @ str ''%d'' @ [9] @ str ''%d'' @ [10])
                [VInt (scast (p_pid p)), VInt (scast (p_priority p)), VStr (Some (short_state (p_state p))),
                 VInt (ucast (p_total_waiting_time p)), VInt (ucast (p_creation_time p))] st
            else Ok st) (\<lambda>st.
     rbind (on_mach (release (hart st) (PLock k)) st) (print_active (Suc k) n)))"

definition sys_getmetrics :: "kern \<Rightarrow> sys" where
  "sys_getmetrics st =
     rbind (argaddr 0 st) (\<lambda>addr.
     rbind (on_machine (populate_metrics (hart st)) st) (\<lambda>((t, w, f), st).
     rbind (user_out addr (le_bytes 8 t @ le_bytes 8 w @ le_bytes 8 f) st) (\<lambda>(r, st).
       if r <s 0 then ret (- 1) st
       else
         rbind (kprint ([10] @ str ''--- Active Process List (Kernel Print) ---'' @ [10]) [] st) (\<lambda>st.
         rbind (kprint (str ''PID'' @ [9] @ str ''Prio'' @ [9] @ str ''State'' @ [9] @ str ''WaitT'' @ [9] @ str ''Created'' @ [10]) [] st) (\<lambda>st.
         rbind (print_active 0 NPROC st) (\<lambda>st.
         rbind (kprint (str ''------------------------------------------'' @ [10]) [] st) (ret 0)))))))"

section \<open>Utilities\<close>

definition sys_kbdint :: "kern \<Rightarrow> sys" where
  "sys_kbdint st = ret (kbd_intr_count (devices st)) st"

definition sys_countsyscall :: "kern \<Rightarrow> sys" where
  "sys_countsyscall st = ret (total_syscalls st) st"

definition sys_uptime :: "kern \<Rightarrow> sys" where
  "sys_uptime st =
     rbind (on_mach (acquire (hart st) TicksLock) st) (\<lambda>st.
     let xticks = ticks (mach st) in
     rbind (on_mach (release (hart st) TicksLock) st) (\<lambda>st. Ok (Some (ucast xticks), st)))"

definition sys_rand :: "kern \<Rightarrow> sys" where
  "sys_rand st =
     (case rand_step (ticks (mach st)) (rand_seed st) of (x, seed) \<Rightarrow> Ok (Some x, st\<lparr>rand_seed := seed\<rparr>))"

text \<open>\<^verbatim>\<open>sys_shutdown\<close> prints its message, stops the machine and does not return.\<close>

definition sys_shutdown :: "kern \<Rightarrow> sys" where
  "sys_shutdown st = rbind (kprint (str ''Shutting down xv6...'' @ [10]) [] st) (\<lambda>_. Stuck)"

definition get_current_time :: "kern \<Rightarrow> u64" where
  "get_current_time st = boot_epoch st + time_csr st div 10000000"

definition datetime_bytes :: "datetime \<Rightarrow> u8 list" where
  "datetime_bytes d = concat (map (\<lambda>x. int_bytes (of_nat x))
     [dt_year d, dt_month d, dt_day d, dt_hour d, dt_minute d, dt_second d, dt_weekday d])"

definition sys_datetime :: "kern \<Rightarrow> sys" where
  "sys_datetime st =
     rbind (argaddr 0 st) (\<lambda>addr.
     rbind (unix_to_datetime (get_current_time st)) (\<lambda>dt.
     rbind (user_out addr (datetime_bytes dt) st) (\<lambda>(r, st).
       if r <s 0 then ret (- 1) st else ret 0 st)))"

section \<open>The dispatcher\<close>

text \<open>The table of \<^verbatim>\<open>syscall.c\<close> by the numbers of \<^verbatim>\<open>syscall.h\<close>, from 1. \<open>pad\<close> is what the stack held.\<close>

definition syscalls :: "u8 list \<Rightarrow> (kern \<Rightarrow> sys) list" where
  "syscalls pad =
     [sys_fork, sys_exit, sys_wait, sys_pipe, sys_read, sys_kill, sys_exec, sys_fstat pad, sys_chdir, sys_dup,
      sys_getpid, sys_sbrk, sys_sleep, sys_uptime, sys_open, sys_write, sys_mknod, sys_unlink, sys_link,
      sys_mkdir, sys_close, sys_kbdint, sys_countsyscall, sys_getppid, sys_rand, sys_shutdown, sys_datetime,
      sys_getptable pad, sys_setpriority, sys_setscheduler, sys_getmetrics]"

definition set_a0 :: "nat \<Rightarrow> u64 \<Rightarrow> kern \<Rightarrow> kern" where
  "set_a0 p v st =
     (let m = mach st in st\<lparr>mach := m\<lparr>ph := tf_set (ph m) (p_trapframe (procs m p)) TF_a0 v\<rparr>\<rparr>)"

text \<open>\<open>True\<close> when the call has returned to its caller, \<open>False\<close> when the process has switched away.\<close>

definition syscall :: "u8 list \<Rightarrow> kern \<Rightarrow> (bool \<times> kern) res" where
  "syscall pad st =
     rbind (me st) (\<lambda>p.
     let num = (ucast (tf_get (ph (mach st)) (p_trapframe (procs (mach st) p)) TF_a7) :: c_int) in
     if 0 <s num \<and> num <s of_nat (Suc (length (syscalls pad))) then
       rbind ((syscalls pad ! (unat num - 1)) (st\<lparr>total_syscalls := total_syscalls st + 1\<rparr>)) (\<lambda>(r, st).
         case r of None \<Rightarrow> Ok (False, st) | Some v \<Rightarrow> Ok (True, set_a0 p v st))
     else
       rbind (kprint (str ''%d %s: unknown sys call %d'' @ [10])
         [VInt (scast (p_pid (procs (mach st) p))),
          VStr (Some (takeWhile (\<lambda>c. c \<noteq> 0) (p_name (procs (mach st) p)))), VInt (scast num)] st) (\<lambda>st.
       Ok (True, set_a0 p (- 1) st)))"

end
