(* ===== verification/Xv6_Frame.thy ===== *)
theory Xv6_Frame
  imports Xv6_Syscall
begin

text \<open>
  What the calls of the kernel leave alone. \<open>post Q r\<close> says that the result of a call that returns
  satisfies \<open>Q\<close>; its rules, collected in \<open>wp\<close>, follow the text of a function from its end to its start.

  Two frames are shown with them. No function of the process table changes the open files of a process
  or brings a finished process back to life (\<open>still\<close>). No function of the file system changes anything
  but its own tables, the disk and user memory (the locale \<open>fs_client\<close>).
\<close>

section \<open>Rules\<close>

named_theorems wp

definition post :: "('a \<Rightarrow> bool) \<Rightarrow> 'a res \<Rightarrow> bool" where
  "post Q r \<longleftrightarrow> (\<forall>x. r = Ok x \<longrightarrow> Q x)"

lemma postD: "post Q r \<Longrightarrow> r = Ok x \<Longrightarrow> Q x"
  by (simp add: post_def)

lemma post_rbind: "post (\<lambda>x. post Q (g x)) f \<Longrightarrow> post Q (rbind f g)"
  by (auto simp: post_def rbind_eq_Ok)

lemma post_rbind_eq: "post (\<lambda>x. f = Ok x \<longrightarrow> post Q (g x)) f \<Longrightarrow> post Q (rbind f g)"
  by (auto simp: post_def rbind_eq_Ok)

lemma post_Ok [wp]: "Q x \<Longrightarrow> post Q (Ok x)"
  by (simp add: post_def)

lemma post_Panic [simp]: "post Q (Panic e)"
  by (simp add: post_def)

lemma post_Stuck [simp]: "post Q Stuck"
  by (simp add: post_def)

lemma post_any: "(\<And>x. Q x) \<Longrightarrow> post Q r"
  by (simp add: post_def)

lemma post_mono: "post P r \<Longrightarrow> (\<And>x. P x \<Longrightarrow> Q x) \<Longrightarrow> post Q r"
  by (auto simp: post_def)

lemma post_mono2: "post (\<lambda>(a, b). P a b) r \<Longrightarrow> (\<And>a b. P a b \<Longrightarrow> Q (a, b)) \<Longrightarrow> post Q r"
  by (auto simp: post_def)

lemma post_pair: "post Q (f a b) \<Longrightarrow> post Q (case (a, b) of (x, y) \<Rightarrow> f x y)"
  by simp

lemma post_if [wp]: "(b \<Longrightarrow> post Q x) \<Longrightarrow> (\<not> b \<Longrightarrow> post Q y) \<Longrightarrow> post Q (if b then x else y)"
  by simp

lemma post_option [wp]:
  "(x = None \<Longrightarrow> post Q n) \<Longrightarrow> (\<And>y. x = Some y \<Longrightarrow> post Q (s y)) \<Longrightarrow> post Q (case x of None \<Rightarrow> n | Some y \<Rightarrow> s y)"
  by (cases x) auto

lemma post_sum [wp]:
  "(\<And>y. x = Inl y \<Longrightarrow> post Q (l y)) \<Longrightarrow> (\<And>y. x = Inr y \<Longrightarrow> post Q (r y)) \<Longrightarrow> post Q (case x of Inl y \<Rightarrow> l y | Inr y \<Rightarrow> r y)"
  by (cases x) auto

lemma post_prod [wp]: "(\<And>a b. x = (a, b) \<Longrightarrow> post Q (f a b)) \<Longrightarrow> post Q (case x of (a, b) \<Rightarrow> f a b)"
  by (cases x) auto

lemma post_Let [wp]: "post Q (f x) \<Longrightarrow> post Q (Let x f)"
  by simp

section \<open>Processes\<close>

definition dead :: "procstate \<Rightarrow> bool" where
  "dead s \<longleftrightarrow> s = UNUSED \<or> s = USED \<or> s = ZOMBIE"

lemma dead_simps [simp]:
  "dead UNUSED" "dead USED" "dead ZOMBIE" "\<not> dead SLEEPING" "\<not> dead RUNNABLE" "\<not> dead RUNNING"
  by (simp_all add: dead_def)

definition still :: "'z machine_scheme \<Rightarrow> 'z machine_scheme \<Rightarrow> bool" where
  "still s0 st \<longleftrightarrow>
     (\<forall>p. p_ofile (procs st p) = p_ofile (procs s0 p) \<and>
        (dead (p_state (procs st p)) \<longrightarrow> dead (p_state (procs s0 p)))) \<and>
     (\<forall>i. cproc (cpus st i) = cproc (cpus s0 i))"

lemma still_refl [simp]: "still s s"
  by (simp add: still_def)

lemma still_trans: "still a b \<Longrightarrow> still b c \<Longrightarrow> still a c"
  by (simp add: still_def)

lemma still_fields [simp]:
  "still s0 (st\<lparr>ph := x1\<rparr>) = still s0 st" "still s0 (st\<lparr>nextpid := x2\<rparr>) = still s0 st"
  "still s0 (st\<lparr>ticks := x3\<rparr>) = still s0 st" "still s0 (st\<lparr>sched_mode := x4\<rparr>) = still s0 st"
  "still s0 (st\<lparr>total_turnaround_time := x5\<rparr>) = still s0 st"
  "still s0 (st\<lparr>total_waiting_time_sum := x6\<rparr>) = still s0 st"
  "still s0 (st\<lparr>finished_processes := x7\<rparr>) = still s0 st" "still s0 (st\<lparr>lks := x8\<rparr>) = still s0 st"
  "still s0 (initlock l nm st) = still s0 st"
  by (simp_all add: still_def initlock_def)

lemma still_upd_proc:
  assumes "still s0 st" and "p_ofile (f (procs st k)) = p_ofile (procs st k)"
    and "dead (p_state (f (procs st k))) \<Longrightarrow> dead (p_state (procs st k))"
  shows "still s0 (upd_proc k f st)"
  using assms by (auto simp: still_def upd_proc_def)

lemma still_cpus:
  "still s0 st \<Longrightarrow> cproc c = cproc (cpus st i) \<Longrightarrow> still s0 (st\<lparr>cpus := (cpus st)(i := c)\<rparr>)"
  by (simp add: still_def)

lemma acquire_still [THEN post_mono, wp]: "still s0 st \<Longrightarrow> post (still s0) (acquire i l st)"
  by (simp add: acquire_def Let_def push_off_def post_Ok still_cpus)

lemma pop_off_still [THEN post_mono, wp]: "still s0 st \<Longrightarrow> post (still s0) (pop_off i st)"
  by (auto simp: pop_off_def pop_off_cpu_def Let_def intro!: post_Ok still_cpus)

lemma release_still [THEN post_mono, wp]: "still s0 st \<Longrightarrow> post (still s0) (release i l st)"
  by (auto simp: release_def intro!: pop_off_still)

lemma push_off_still [simp]: "still s0 (push_off i st) = still s0 st"
  by (auto simp: still_def push_off_def)

text \<open>Functions on physical memory change nothing else.\<close>

lemma any_phys [wp]:
  "(\<And>x. Q1 x) \<Longrightarrow> post Q1 (copyout pt va bs s)" "(\<And>x. Q2 x) \<Longrightarrow> post Q2 (copyin pt va n s)"
  "(\<And>x. Q3 x) \<Longrightarrow> post Q3 (copyinstr pt va n s)" "(\<And>x. Q4 x) \<Longrightarrow> post Q4 (kfree pa s)"
  "(\<And>x. Q5 x) \<Longrightarrow> post Q5 (proc_pagetable t tf s)" "(\<And>x. Q6 x) \<Longrightarrow> post Q6 (proc_freepagetable pt sz s)"
  "(\<And>x. Q7 x) \<Longrightarrow> post Q7 (uvmalloc pt a b p s)" "(\<And>x. Q8 x) \<Longrightarrow> post Q8 (uvmdealloc pt a b s)"
  "(\<And>x. Q9 x) \<Longrightarrow> post Q9 (uvmcopy pt a b s)" "(\<And>x. Q10 x) \<Longrightarrow> post Q10 (uvmclear pt a s)"
  "(\<And>x. Q11 x) \<Longrightarrow> post Q11 (walkaddr pt a s)" "(\<And>x. Q12 x) \<Longrightarrow> post Q12 (printf fmt ap)"
  "(\<And>x. Q13 x) \<Longrightarrow> post Q13 (unix_to_datetime t)" "(\<And>x. Q14 x) \<Longrightarrow> post Q14 (either_copyin i u src n m)"
  by (auto intro: post_any)

lemma sched_still [THEN post_mono, wp]: "still s0 st \<Longrightarrow> post (still s0) (sched i k st)"
  by (auto simp: sched_def intro!: post_rbind wp still_upd_proc)

lemma sleep_still [THEN post_mono, wp]: "still s0 st \<Longrightarrow> post (still s0) (sleep i ch l st)"
  by (auto simp: sleep_def intro!: post_rbind wp still_upd_proc)

lemma yield_still [THEN post_mono, wp]:
  "still s0 st \<Longrightarrow> post (\<lambda>x. case x of Inl st \<Rightarrow> still s0 st | Inr st \<Rightarrow> still s0 st) (yield i st)"
  by (auto simp: yield_def intro!: post_rbind wp still_upd_proc)

lemma wakeup_from_still: "still s0 st \<Longrightarrow> post (still s0) (wakeup_from i ch k n st)"
  by (induction n arbitrary: k st) (auto intro!: post_rbind wp still_upd_proc)

lemma wakeup_still [THEN post_mono, wp]: "still s0 st \<Longrightarrow> post (still s0) (wakeup i ch st)"
  by (simp add: wakeup_def wakeup_from_still)

lemma kill_from_still: "still s0 st \<Longrightarrow> post (\<lambda>(_, st). still s0 st) (kill_from i pid k n st)"
  by (induction n arbitrary: k st) (auto simp: Let_def intro!: post_rbind wp still_upd_proc)

lemma kill_still [THEN post_mono2, wp]: "still s0 st \<Longrightarrow> post (\<lambda>(_, st). still s0 st) (kill i pid st)"
  by (simp add: kill_def kill_from_still)

lemma setkilled_still [THEN post_mono, wp]: "still s0 st \<Longrightarrow> post (still s0) (setkilled i p st)"
  by (auto simp: setkilled_def intro!: post_rbind wp still_upd_proc)

lemma killed_still [THEN post_mono2, wp]: "still s0 st \<Longrightarrow> post (\<lambda>(_, st). still s0 st) (killed i p st)"
  by (auto simp: killed_def Let_def intro!: post_rbind wp)

lemma growproc_still [THEN post_mono2, wp]: "still s0 st \<Longrightarrow> post (\<lambda>(_, st). still s0 st) (growproc i n st)"
  by (auto simp: growproc_def Let_def intro!: post_rbind wp still_upd_proc)

lemma either_copyout_still [THEN post_mono2, wp]:
  "still s0 st \<Longrightarrow> post (\<lambda>(_, st). still s0 st) (either_copyout i u dst bs st)"
  by (auto simp: either_copyout_def intro!: post_rbind wp)

lemma freeproc_still [THEN post_mono, wp]:
  "still s0 st \<Longrightarrow> dead (p_state (procs st k)) \<Longrightarrow> post (still s0) (freeproc k st)"
  by (auto simp: freeproc_def intro!: post_rbind wp still_upd_proc)


lemma lock_procs:
  "acquire i l st = Ok st' \<Longrightarrow> procs st' = procs st" "release i l st = Ok st' \<Longrightarrow> procs st' = procs st"
  by (auto simp: acquire_def release_def push_off_def pop_off_def Let_def rbind_eq_Ok split: if_splits)

lemma allocpid_still: "still s0 st \<Longrightarrow> post (\<lambda>(_, st). still s0 st) (allocpid i st)"
  by (auto simp: allocpid_def Let_def intro!: post_rbind wp)

lemma allocpid_procs [THEN post_mono2, wp]:
  "still s0 st \<Longrightarrow> post (\<lambda>(_, st'). still s0 st' \<and> procs st' = procs st) (allocpid i st)"
  using allocpid_still [of s0 st i]
  by (auto simp: allocpid_def Let_def post_def rbind_eq_Ok dest!: lock_procs)

text \<open>The slot that \<^verbatim>\<open>allocproc\<close> finds was dead, and still is.\<close>

definition found_dead :: "'z machine_scheme \<Rightarrow> nat option \<Rightarrow> bool" where
  "found_dead s0 x \<longleftrightarrow> (\<forall>k. x = Some k \<longrightarrow> k < NPROC \<and> dead (p_state (procs s0 k)))"

lemma still_dead: "still s0 st \<Longrightarrow> dead (p_state (procs st k)) \<Longrightarrow> dead (p_state (procs s0 k))"
  by (simp add: still_def)

lemma alloc_scan_still:
  "still s0 st \<Longrightarrow> k + n \<le> NPROC \<Longrightarrow>
   post (\<lambda>(x, st). still s0 st \<and> (\<forall>k. x = Some k \<longrightarrow> k < NPROC \<and> p_state (procs st k) = UNUSED)) (alloc_scan i k n st)"
  by (induction n arbitrary: k st) (auto intro!: post_rbind wp)

lemma allocproc_still [THEN post_mono2, wp]:
  "still s0 st \<Longrightarrow> post (\<lambda>(x, st). still s0 st \<and> found_dead s0 x \<and> found_dead st x) (allocproc i st)"
  unfolding allocproc_def
  by (rule post_rbind, rule post_mono [OF alloc_scan_still [of s0 st 0 NPROC]])
    (auto simp: found_dead_def Let_def intro!: post_rbind wp still_upd_proc intro: still_dead)

lemma wait_scan_still:
  "still s0 st \<Longrightarrow> post (\<lambda>(_, st). still s0 st) (wait_scan i p addr k n h st)"
  by (induction n arbitrary: k h st) (auto simp: Let_def intro!: post_rbind wp)

lemma wait_still [THEN post_mono, wp]:
  "still s0 st \<Longrightarrow> post (\<lambda>x. case x of Inl (_, st) \<Rightarrow> still s0 st | Inr st \<Rightarrow> still s0 st) (wait i addr st)"
  by (auto simp: wait_def wait_round_def intro!: post_rbind wp wait_scan_still [THEN post_mono])

lemma exit_metrics_still [THEN post_mono, wp]: "still s0 st \<Longrightarrow> post (still s0) (exit_metrics i p st)"
  by (auto simp: exit_metrics_def intro!: post_rbind wp)

lemma reparent_from_still: "still s0 st \<Longrightarrow> post (still s0) (reparent_from i p k n st)"
  by (induction n arbitrary: k st) (auto intro!: post_rbind wp still_upd_proc)

lemma reparent_still [THEN post_mono, wp]: "still s0 st \<Longrightarrow> post (still s0) (reparent i p st)"
  by (simp add: reparent_def reparent_from_still)

definition buried :: "nat \<Rightarrow> 'z machine_scheme \<Rightarrow> 'z machine_scheme" where
  "buried p st = upd_proc p (\<lambda>q. q\<lparr>p_state := ZOMBIE\<rparr>) st"

lemma still_buried: "still s0 st \<Longrightarrow> still (buried p s0) st"
  by (auto simp: still_def buried_def upd_proc_def)

lemma buried_dead [simp]: "dead (p_state (procs (buried p st) p))"
  by (simp add: buried_def upd_proc_def)

lemma still_bury:
  "still (buried p s0) st \<Longrightarrow> p_ofile (f (procs st p)) = p_ofile (procs st p) \<Longrightarrow> still (buried p s0) (upd_proc p f st)"
  by (auto simp: still_def buried_def upd_proc_def)

lemma exit_final_still [THEN post_mono, wp]:
  assumes "still s0 st"
  shows "post (still (buried p s0)) (exit_final i p status st)"
  using still_buried [OF assms, of p] by (auto simp: exit_final_def intro!: post_rbind wp still_bury)

lemma yield_then_0_still [THEN post_mono, wp]:
  "still s0 st \<Longrightarrow> post (\<lambda>x. case x of Inl (_, st) \<Rightarrow> still s0 st | Inr st \<Rightarrow> still s0 st) (yield_then_0 i st)"
  by (auto simp: yield_then_0_def intro!: post_rbind wp)

lemma setpriority_from_still:
  "still s0 st \<Longrightarrow>
   post (\<lambda>x. case x of Inl (_, st) \<Rightarrow> still s0 st | Inr st \<Rightarrow> still s0 st) (setpriority_from i pid prio k n st)"
  by (induction n arbitrary: k st) (auto intro!: post_rbind wp still_upd_proc)

lemma setpriority_still [THEN post_mono, wp]:
  "still s0 st \<Longrightarrow> post (\<lambda>x. case x of Inl (_, st) \<Rightarrow> still s0 st | Inr st \<Rightarrow> still s0 st) (setpriority i pid prio st)"
  by (simp add: setpriority_def setpriority_from_still)

lemma setscheduler_still [THEN post_mono, wp]:
  "still s0 st \<Longrightarrow> post (\<lambda>x. case x of Inl (_, st) \<Rightarrow> still s0 st | Inr st \<Rightarrow> still s0 st) (setscheduler i policy st)"
  by (auto simp: setscheduler_def intro!: post_rbind wp)

lemma populate_metrics_still [THEN post_mono2, wp]:
  "still s0 st \<Longrightarrow> post (\<lambda>(_, st). still s0 st) (populate_metrics i st)"
  by (auto simp: populate_metrics_def Let_def intro!: post_rbind wp)

lemma sleep_loop_still [THEN post_mono, wp]:
  "still s0 st \<Longrightarrow> post (\<lambda>x. case x of Inl (_, st) \<Rightarrow> still s0 st | Inr st \<Rightarrow> still s0 st) (sleep_loop n t i p st)"
  by (auto simp: sleep_loop_def intro!: post_rbind wp)

lemma getptable_from_still [THEN post_mono2, wp]:
  "still s0 st \<Longrightarrow> post (\<lambda>(_, st). still s0 st) (getptable_from pad i mp buf n c k r nm st)"
  by (induction r arbitrary: c k nm st) (auto simp: Let_def intro!: post_rbind wp)


section \<open>Pipes and the console\<close>

lemma pipeclose_still [THEN post_mono2, wp]:
  "still s0 st \<Longrightarrow> post (\<lambda>(_, st). still s0 st) (pipeclose i pi w pp st)"
  by (auto simp: pipeclose_def Let_def intro!: post_rbind wp)

lemma pipewrite_done_still [THEN post_mono2, wp]:
  "still s0 st \<Longrightarrow> post (\<lambda>(_, _, st). still s0 st) (pipewrite_done i pi k pp st)"
  by (auto simp: pipewrite_done_def intro!: post_rbind wp)

lemma pipewrite_loop_still:
  "still s0 st \<Longrightarrow> post (\<lambda>(_, _, st). still s0 st) (pipewrite_loop i p pi addr k r pp st)"
  by (induction r arbitrary: k pp st) (auto simp: Let_def intro!: post_rbind wp)

lemma pipewrite_still [THEN post_mono2, wp]:
  "still s0 st \<Longrightarrow> post (\<lambda>(_, _, st). still s0 st) (pipewrite i pi addr n pp st)"
  by (auto simp: pipewrite_def pipewrite_from_def intro!: post_rbind wp pipewrite_loop_still)

lemma piperead_copy_still:
  "still s0 st \<Longrightarrow> post (\<lambda>(_, _, st). still s0 st) (piperead_copy p addr k r pp st)"
  by (induction r arbitrary: k pp st) (auto simp: Let_def intro!: post_rbind wp)

lemma piperead_still [THEN post_mono2, wp]:
  "still s0 st \<Longrightarrow> post (\<lambda>(_, _, st). still s0 st) (piperead i pi addr n pp st)"
  by (auto simp: piperead_def intro!: post_rbind wp piperead_copy_still [THEN post_mono])

lemma uartstart_still [THEN post_mono2, wp]: "still s0 st \<Longrightarrow> post (\<lambda>(_, st). still s0 st) (uartstart i d st)"
proof (induction i d st rule: uartstart.induct)
  case (1 i d st)
  then show ?case
    by (subst uartstart.simps) (auto simp: Let_def intro!: post_rbind_eq wp)
qed

lemma uartputc_still [THEN post_mono2, wp]:
  "still s0 st \<Longrightarrow> post (\<lambda>(_, _, st). still s0 st) (uartputc i c d st)"
  by (auto simp: uartputc_def uartputc_loop_def Let_def intro!: post_rbind wp)

lemma uartputc_sync_still [THEN post_mono2, wp]:
  "still s0 st \<Longrightarrow> post (\<lambda>(_, st). still s0 st) (uartputc_sync i c d st)"
  by (auto simp: uartputc_sync_def Let_def intro!: post_rbind wp split: list.split)

lemma consputc_still [THEN post_mono2, wp]:
  "still s0 st \<Longrightarrow> post (\<lambda>(_, st). still s0 st) (consputc i c d st)"
  by (auto simp: consputc_def intro!: post_rbind wp)

lemma consputs_still [THEN post_mono2, wp]:
  "still s0 st \<Longrightarrow> post (\<lambda>(_, st). still s0 st) (consputs i cs d st)"
  by (induction cs arbitrary: d st) (auto intro!: post_rbind wp)

lemma kprintf_still [THEN post_mono2, wp]:
  "still s0 st \<Longrightarrow> post (\<lambda>(_, st). still s0 st) (kprintf i fmt ap d st)"
  by (auto simp: kprintf_def intro!: post_rbind wp)

lemma consolewrite_from_still:
  "still s0 st \<Longrightarrow> post (\<lambda>(_, _, st). still s0 st) (consolewrite_from i u src k r d st)"
  by (induction r arbitrary: k d st) (auto intro!: post_rbind wp)

lemma consolewrite_still [THEN post_mono2, wp]:
  "still s0 st \<Longrightarrow> post (\<lambda>(_, _, st). still s0 st) (consolewrite i u src n d st)"
  by (simp add: consolewrite_def consolewrite_from_still)

lemma consoleread_done_still [THEN post_mono2, wp]:
  "still s0 st \<Longrightarrow> post (\<lambda>(_, _, st). still s0 st) (consoleread_done i k d st)"
  by (auto simp: consoleread_done_def intro!: post_rbind wp)

lemma consoleread_loop_still:
  "still s0 st \<Longrightarrow> post (\<lambda>(_, _, st). still s0 st) (consoleread_loop i u dst k r d st)"
  by (induction r arbitrary: k d st) (auto simp: Let_def intro!: post_rbind wp)

lemma consoleread_still [THEN post_mono2, wp]:
  "still s0 st \<Longrightarrow> post (\<lambda>(_, _, st). still s0 st) (consoleread i u dst n d st)"
  by (auto simp: consoleread_def consoleread_from_def intro!: post_rbind wp consoleread_loop_still)


section \<open>The file system\<close>

text \<open>A property of the state that does not look at the file system's own tables or at memory.\<close>

locale fs_client =
  fixes P :: "'z fsys_scheme \<Rightarrow> bool"
  assumes own: "fsys.more st' = fsys.more st \<Longrightarrow> hart st' = hart st \<Longrightarrow> mach st' = (mach st)\<lparr>ph := s\<rparr> \<Longrightarrow> P st' = P st"
begin

lemma own_fields [simp]:
  "P (st\<lparr>bufs := x1\<rparr>) = P st" "P (st\<lparr>lru := x2\<rparr>) = P st" "P (st\<lparr>disk := x3\<rparr>) = P st"
  "P (st\<lparr>dwrites := x4\<rparr>) = P st" "P (st\<lparr>lg_start := x5\<rparr>) = P st" "P (st\<lparr>lg_size := x6\<rparr>) = P st"
  "P (st\<lparr>lg_outstanding := x7\<rparr>) = P st" "P (st\<lparr>lg_committing := x8\<rparr>) = P st" "P (st\<lparr>lg_dev := x9\<rparr>) = P st"
  "P (st\<lparr>lg_n := x10\<rparr>) = P st" "P (st\<lparr>lg_block := x11\<rparr>) = P st" "P (st\<lparr>sb := x12\<rparr>) = P st"
  "P (st\<lparr>itab := x13\<rparr>) = P st" "P (st\<lparr>mach := (mach st)\<lparr>ph := x14\<rparr>\<rparr>) = P st"
  by (rule own [where s = "ph (mach st)"] own, simp, simp, simp)+

lemma own_upd [simp]:
  "P (upd_buf k f st) = P st" "P (upd_inode k g st) = P st" "P (set_data k d st) = P st" "P (bpin k st) = P st"
  "P (bunpin k st) = P st" "P (disk_read k st) = P st" "P (disk_write k st) = P st"
  by (simp_all add: upd_buf_def upd_inode_def set_data_def bpin_def bunpin_def disk_read_def disk_write_def Let_def)

lemma bget_own [THEN post_mono2, wp]: "P st \<Longrightarrow> post (\<lambda>(_, st). P st) (bget dev n st)"
  by (auto simp: bget_def lock_buf_def intro!: post_rbind wp)

lemma bread_own [THEN post_mono2, wp]: "P st \<Longrightarrow> post (\<lambda>(_, st). P st) (bread dev n st)"
  by (auto simp: bread_def intro!: post_rbind wp)

lemma bwrite_own [THEN post_mono, wp]: "P st \<Longrightarrow> post P (bwrite k st)"
  by (auto simp: bwrite_def intro!: post_rbind wp)

lemma brelse_own [THEN post_mono, wp]: "P st \<Longrightarrow> post P (brelse k st)"
  by (auto simp: brelse_def Let_def intro!: post_rbind wp)

lemma log_write_own [THEN post_mono, wp]: "P st \<Longrightarrow> post P (log_write k st)"
  by (auto simp: log_write_def Let_def intro!: post_rbind wp)

lemma install_from_own: "P st \<Longrightarrow> post P (install_from r t n st)"
  by (induction n arbitrary: t st) (auto intro!: post_rbind wp)

lemma write_log_from_own: "P st \<Longrightarrow> post P (write_log_from t n st)"
  by (induction n arbitrary: t st) (auto intro!: post_rbind wp)

lemma write_head_own [THEN post_mono, wp]: "P st \<Longrightarrow> post P (write_head st)"
  by (auto simp: write_head_def intro!: post_rbind wp)

lemma read_head_own [THEN post_mono, wp]: "P st \<Longrightarrow> post P (read_head st)"
  by (auto simp: read_head_def Let_def intro!: post_rbind wp)

lemma commit_own [THEN post_mono, wp]: "P st \<Longrightarrow> post P (commit st)"
  by (auto simp: commit_def write_log_def install_trans_def
      intro!: post_rbind wp write_log_from_own [THEN post_mono] install_from_own [THEN post_mono])

lemma begin_op_own [THEN post_mono, wp]: "P st \<Longrightarrow> post P (begin_op st)"
  by (auto simp: begin_op_def intro!: post_rbind wp)

lemma end_op_own [THEN post_mono, wp]: "P st \<Longrightarrow> post P (end_op st)"
  by (auto simp: end_op_def Let_def intro!: post_rbind wp)

lemma fsinit_own [THEN post_mono, wp]: "P st \<Longrightarrow> post P (fsinit dev st)"
  by (auto simp: fsinit_def readsb_def initlog_def recover_from_log_def install_trans_def
      intro!: post_rbind wp install_from_own [THEN post_mono])

lemma bzero_own [THEN post_mono, wp]: "P st \<Longrightarrow> post P (bzero dev n st)"
  by (auto simp: bzero_def intro!: post_rbind wp)

lemma balloc_from_own: "P st \<Longrightarrow> post (\<lambda>(_, st). P st) (balloc_from dev b sz st)"
proof (induction dev b sz st rule: balloc_from.induct)
  case (1 dev b sz st)
  then show ?case
    by (subst balloc_from.simps) (auto simp: Let_def intro!: post_rbind_eq wp)
qed

lemma balloc_own [THEN post_mono2, wp]: "P st \<Longrightarrow> post (\<lambda>(_, st). P st) (balloc dev st)"
  by (simp add: balloc_def balloc_from_own)

lemma bfree_own [THEN post_mono, wp]: "P st \<Longrightarrow> post P (bfree dev b st)"
  by (auto simp: bfree_def Let_def intro!: post_rbind wp)

lemma iget_own [THEN post_mono2, wp]: "P st \<Longrightarrow> post (\<lambda>(_, st). P st) (iget dev inum st)"
  by (auto simp: iget_def intro!: post_rbind wp)

lemma ialloc_from_own: "P st \<Longrightarrow> post (\<lambda>(_, st). P st) (ialloc_from dev type k n st)"
  by (induction n arbitrary: k st) (auto simp: Let_def intro!: post_rbind wp)

lemma ialloc_own [THEN post_mono2, wp]: "P st \<Longrightarrow> post (\<lambda>(_, st). P st) (ialloc dev type st)"
  by (simp add: ialloc_def ialloc_from_own)

lemma iupdate_own [THEN post_mono, wp]: "P st \<Longrightarrow> post P (iupdate ip st)"
  by (auto simp: iupdate_def intro!: post_rbind wp)

lemma ilock_own [THEN post_mono, wp]: "P st \<Longrightarrow> post P (ilock p st)"
  by (auto simp: ilock_def Let_def intro!: post_rbind wp)

lemma iunlock_own [THEN post_mono, wp]: "P st \<Longrightarrow> post P (iunlock p st)"
  by (auto simp: iunlock_def intro!: post_rbind wp)

lemma bmap_own [THEN post_mono2, wp]: "P st \<Longrightarrow> post (\<lambda>(_, st). P st) (bmap ip bn st)"
  by (auto simp: bmap_def Let_def intro!: post_rbind wp)

lemma itrunc_direct_own: "P st \<Longrightarrow> post P (itrunc_direct ip i n st)"
  by (induction n arbitrary: i st) (auto intro!: post_rbind wp)

lemma itrunc_indirect_own: "P st \<Longrightarrow> post P (itrunc_indirect dev bp j n st)"
  by (induction n arbitrary: j st) (auto simp: Let_def intro!: post_rbind wp)

lemma itrunc_own [THEN post_mono, wp]: "P st \<Longrightarrow> post P (itrunc ip st)"
  by (auto simp: itrunc_def intro!: post_rbind wp itrunc_direct_own [THEN post_mono] itrunc_indirect_own [THEN post_mono])

lemma iput_own [THEN post_mono, wp]: "P st \<Longrightarrow> post P (iput ip st)"
  by (auto simp: iput_def intro!: post_rbind wp)

lemma iunlockput_own [THEN post_mono, wp]: "P st \<Longrightarrow> post P (iunlockput ip st)"
  by (auto simp: iunlockput_def intro!: post_rbind wp)

lemma put_dest_own [THEN post_mono2, wp]: "P st \<Longrightarrow> post (\<lambda>(_, st). P st) (put_dest dst tot bs st)"
  by (cases dst) (auto simp: put_dest_def either_copyout_def intro!: post_rbind wp)

lemma readi_from_own: "P st \<Longrightarrow> post (\<lambda>(_, st). P st) (readi_from ip dst off n tot acc st)"
proof (induction ip dst off n tot acc st rule: readi_from.induct)
  case (1 ip dst off n tot acc st)
  then show ?case
    by (subst readi_from.simps) (auto simp: Let_def intro!: post_rbind_eq wp)
qed

lemma readi_own [THEN post_mono2, wp]: "P st \<Longrightarrow> post (\<lambda>(_, st). P st) (readi ip dst off n st)"
  by (auto simp: readi_def Let_def readi_from_own intro!: post_rbind wp)

lemma get_source_own [wp]: "(\<And>x. Q x) \<Longrightarrow> post Q (get_source src tot m st)"
  by (rule post_any)

lemma writei_from_own: "P st \<Longrightarrow> post (\<lambda>(_, st). P st) (writei_from ip src off n tot st)"
proof (induction ip src off n tot st rule: writei_from.induct)
  case (1 ip src off n tot st)
  then show ?case
    by (subst writei_from.simps) (auto simp: Let_def intro!: post_rbind_eq wp)
qed

lemma writei_own [THEN post_mono2, wp]: "P st \<Longrightarrow> post (\<lambda>(_, st). P st) (writei ip src off n st)"
  by (auto simp: writei_def Let_def intro!: post_rbind wp writei_from_own [THEN post_mono])

lemma dirlookup_from_own: "P st \<Longrightarrow> post (\<lambda>(_, st). P st) (dirlookup_from dp name off sz st)"
proof (induction dp name off sz st rule: dirlookup_from.induct)
  case (1 dp name off sz st)
  then show ?case
    by (subst dirlookup_from.simps) (auto simp: Let_def intro!: post_rbind_eq wp)
qed

lemma dirlookup_own [THEN post_mono2, wp]: "P st \<Longrightarrow> post (\<lambda>(_, st). P st) (dirlookup dp name st)"
  by (auto simp: dirlookup_def dirlookup_from_own)

lemma free_dirent_own [THEN post_mono2, wp]: "P st \<Longrightarrow> post (\<lambda>(_, st). P st) (free_dirent dp off sz st)"
proof (induction dp off sz st rule: free_dirent.induct)
  case (1 dp off sz st)
  then show ?case
    by (subst free_dirent.simps) (auto simp: Let_def intro!: post_rbind_eq wp)
qed

lemma dirlink_own [THEN post_mono2, wp]: "P st \<Longrightarrow> post (\<lambda>(_, st). P st) (dirlink dp name inum st)"
  by (auto simp: dirlink_def intro!: post_rbind wp)

lemma namex_from_own: "P st \<Longrightarrow> post (\<lambda>(_, st). P st) (namex_from ip path parent name st)"
proof (induction "length path" arbitrary: path ip name st rule: less_induct)
  case less
  then show ?case
    by (subst namex_from.simps) (auto intro!: post_rbind wp less(1) dest: skipelem_shorter)
qed

lemma namex_own [THEN post_mono2, wp]: "P st \<Longrightarrow> post (\<lambda>(_, st). P st) (namex path parent st)"
  by (auto simp: namex_def idup_def intro!: post_rbind wp namex_from_own)

lemma namei_own [THEN post_mono2, wp]: "P st \<Longrightarrow> post (\<lambda>(_, st). P st) (namei path st)"
  by (auto simp: namei_def intro!: post_rbind wp)

lemma nameiparent_own [THEN post_mono2, wp]: "P st \<Longrightarrow> post (\<lambda>(_, st). P st) (nameiparent path st)"
  by (auto simp: nameiparent_def intro!: post_rbind wp)

end

end
