(* ===== verification/Xv6_Trap.thy ===== *)
theory Xv6_Trap
  imports Xv6_Syscall
begin

text \<open>
  Traps, \<^verbatim>\<open>kernel/trap.c\<close> and \<^verbatim>\<open>kernel/trampoline.S\<close>. The control registers of the processor are a record;
  \<open>irq\<close> is the answer of the interrupt controller to \<^verbatim>\<open>plic_claim()\<close>. Disk requests are served at once in
  the model of the disk, so the interrupt of the disk has nothing left to do.
\<close>

section \<open>Registers\<close>

record csrs =
  sstatus :: u64
  sepc :: u64
  scause :: u64
  stval :: u64
  stvec :: u64
  satp :: u64
  stimecmp :: u64

text \<open>Addresses of code, as the linker gives them.\<close>

record ksyms =
  sym_kernelvec :: u64
  sym_usertrap :: u64
  sym_uservec :: u64
  sym_userret :: u64

definition SSTATUS_SPP :: u64 where "SSTATUS_SPP = push_bit 8 1"
definition SSTATUS_SPIE :: u64 where "SSTATUS_SPIE = push_bit 5 1"
definition UART0_IRQ :: c_int where "UART0_IRQ = 10"
definition VIRTIO0_IRQ :: c_int where "VIRTIO0_IRQ = 1"

definition MAKE_SATP :: "u64 \<Rightarrow> u64" where
  "MAKE_SATP pagetable = push_bit 60 8 OR drop_bit 12 pagetable"

definition set_sie :: "bool \<Rightarrow> kern \<Rightarrow> kern" where
  "set_sie b st = st\<lparr>mach := upd_cpu (hart st) (\<lambda>c. c\<lparr>sie := b\<rparr>) (mach st)\<rparr>"

definition set_tf :: "nat \<Rightarrow> nat \<Rightarrow> u64 \<Rightarrow> kern \<Rightarrow> kern" where
  "set_tf p off v st = (let m = mach st in st\<lparr>mach := m\<lparr>ph := tf_set (ph m) (p_trapframe (procs m p)) off v\<rparr>\<rparr>)"

definition get_tf :: "nat \<Rightarrow> nat \<Rightarrow> kern \<Rightarrow> u64" where
  "get_tf p off st = tf_get (ph (mach st)) (p_trapframe (procs (mach st) p)) off"

section \<open>trap.c\<close>

definition trapinit :: "machine \<Rightarrow> machine" where
  "trapinit m = initlock TicksLock ''time'' m"

definition trapinithart :: "ksyms \<Rightarrow> csrs \<Rightarrow> csrs" where
  "trapinithart k cs = cs\<lparr>stvec := sym_kernelvec k\<rparr>"

text \<open>The whole of \<^verbatim>\<open>clockintr()\<close>, with the request for the next interrupt.\<close>

definition timer :: "csrs \<Rightarrow> kern \<Rightarrow> (csrs \<times> kern) res" where
  "timer cs st =
     rbind (on_mach (clockintr (hart st)) st) (\<lambda>st. Ok (cs\<lparr>stimecmp := time_csr st + 1000000\<rparr>, st))"

text \<open>
  \<^verbatim>\<open>devintr()\<close>, where \<open>irq\<close> is what \<^verbatim>\<open>plic_claim()\<close> returns. The completion of a disk request has no effect here, as
  disk requests are atomic in this model, and \<^verbatim>\<open>plic_complete()\<close> has none either, as the interrupt controller has no state.
\<close>

definition devintr :: "c_int \<Rightarrow> csrs \<Rightarrow> kern \<Rightarrow> (nat \<times> csrs \<times> kern) res" where
  "devintr irq cs st =
     (if scause cs = 0x8000000000000009 then
        rbind (if irq = UART0_IRQ then
                 rbind (uartintr (hart st) (devices st) (mach st)) (\<lambda>(d, m). Ok (st\<lparr>devices := d, mach := m\<rparr>))
               else if irq = VIRTIO0_IRQ then Ok st
               else if irq \<noteq> 0 then kprint (str ''unexpected interrupt irq=%d'' @ [10]) [VInt (scast irq)] st
               else Ok st) (\<lambda>st.
        Ok (1, cs, st))
      else if scause cs = 0x8000000000000005 then rbind (timer cs st) (\<lambda>(cs, st). Ok (2, cs, st))
      else Ok (0, cs, st))"

definition usertrapret :: "ksyms \<Rightarrow> csrs \<Rightarrow> kern \<Rightarrow> ((csrs \<times> u64) \<times> kern) res" where
  "usertrapret k cs st =
     rbind (me st) (\<lambda>p.
     let st = set_sie False st;
         cs = cs\<lparr>stvec := TRAMPOLINE + (sym_uservec k - sym_trampoline (mach st))\<rparr>;
         st = set_tf p 0 (satp cs) st;
         st = set_tf p 8 (p_kstack (procs (mach st) p) + PGSIZE) st;
         st = set_tf p 16 (sym_usertrap k) st;
         st = set_tf p 32 (of_nat (hart st)) st;
         cs = cs\<lparr>sstatus := (sstatus cs AND NOT SSTATUS_SPP) OR SSTATUS_SPIE\<rparr>;
         cs = cs\<lparr>sepc := get_tf p TF_epc st\<rparr>
     in Ok ((cs, MAKE_SATP (p_pagetable (procs (mach st) p))), st))"

text \<open>
  \<^verbatim>\<open>usertrap()\<close>: \<open>Some\<close> with the registers and the page table for \<^verbatim>\<open>userret\<close> when it returns to user
  space, \<open>None\<close> when the process has switched to the scheduler; after a \<^verbatim>\<open>yield()\<close> it continues with
  \<^verbatim>\<open>usertrapret()\<close>.
\<close>

definition exit_if_killed :: "nat \<Rightarrow> kern \<Rightarrow> (bool \<times> kern) res" where
  "exit_if_killed p st =
     rbind (on_machine (killed (hart st) p) st) (\<lambda>(dead, st).
       if dead \<noteq> 0 then rbind (exit (- 1) st) (\<lambda>st. Ok (True, st)) else Ok (False, st))"

definition after_trap :: "ksyms \<Rightarrow> nat \<Rightarrow> nat \<Rightarrow> csrs \<Rightarrow> kern \<Rightarrow> ((csrs \<times> u64) option \<times> kern) res" where
  "after_trap k p which_dev cs st =
     rbind (exit_if_killed p st) (\<lambda>(gone, st).
       if gone then Ok (None, st)
       else
         rbind (if which_dev = 2 then yield (hart st) (mach st) else Ok (Inl (mach st))) (\<lambda>y.
           case y of
             Inr m \<Rightarrow> Ok (None, st\<lparr>mach := m\<rparr>)
           | Inl m \<Rightarrow> rbind (usertrapret k cs (st\<lparr>mach := m\<rparr>)) (\<lambda>(x, st). Ok (Some x, st))))"

definition usertrap ::
  "u8 list \<Rightarrow> ksyms \<Rightarrow> c_int \<Rightarrow> csrs \<Rightarrow> kern \<Rightarrow> ((csrs \<times> u64) option \<times> kern) res" where
  "usertrap pad k irq cs st =
     (if sstatus cs AND SSTATUS_SPP \<noteq> 0 then Panic ''usertrap: not from user mode''
      else
        let cs = cs\<lparr>stvec := sym_kernelvec k\<rparr> in
        rbind (me st) (\<lambda>p.
        let st = set_tf p TF_epc (sepc cs) st in
        if scause cs = 8 then
          rbind (exit_if_killed p st) (\<lambda>(gone, st).
            if gone then Ok (None, st)
            else
              let st = set_sie True (set_tf p TF_epc (get_tf p TF_epc st + 4) st) in
              rbind (syscall pad st) (\<lambda>(returned, st).
                if returned then after_trap k p 0 cs st else Ok (None, st)))
        else
          rbind (devintr irq cs st) (\<lambda>(which_dev, cs, st).
          rbind (if which_dev \<noteq> 0 then Ok st
                 else
                   rbind (kprint (str ''usertrap(): unexpected scause 0x%lx pid=%d'' @ [10])
                     [VInt (scause cs), VInt (scast (p_pid (procs (mach st) p)))] st) (\<lambda>st.
                   rbind (kprint (str ''            sepc=0x%lx stval=0x%lx'' @ [10]) [VInt (sepc cs), VInt (stval cs)] st) (\<lambda>st.
                   on_mach (setkilled (hart st) p) st))) (\<lambda>st.
          after_trap k p which_dev cs st))))"

text \<open>\<^verbatim>\<open>kerneltrap()\<close>: \<open>True\<close> when it returns to the interrupted code, \<open>False\<close> at the switch of its \<^verbatim>\<open>yield()\<close>.\<close>

definition kerneltrap :: "c_int \<Rightarrow> csrs \<Rightarrow> kern \<Rightarrow> (bool \<times> csrs \<times> kern) res" where
  "kerneltrap irq cs st =
     (if sstatus cs AND SSTATUS_SPP = 0 then Panic ''kerneltrap: not from supervisor mode''
      else if sie (cpus (mach st) (hart st)) then Panic ''kerneltrap: interrupts enabled''
      else
        rbind (devintr irq cs st) (\<lambda>(which_dev, cs', st).
          if which_dev = 0 then
            rbind (kprint (str ''scause=0x%lx sepc=0x%lx stval=0x%lx'' @ [10])
              [VInt (scause cs), VInt (sepc cs'), VInt (stval cs')] st) (\<lambda>_. Panic ''kerneltrap'')
          else
            rbind (if which_dev = 2 \<and> myproc (hart st) (mach st) \<noteq> None
                   then yield (hart st) (mach st) else Ok (Inl (mach st))) (\<lambda>y.
              case y of
                Inr m \<Rightarrow> Ok (False, cs', st\<lparr>mach := m\<rparr>)
              | Inl m \<Rightarrow> Ok (True, cs'\<lparr>sepc := sepc cs, sstatus := sstatus cs\<rparr>, st\<lparr>mach := m\<rparr>))))"

section \<open>trampoline.S\<close>

text \<open>
  The general registers are numbered as in the instruction set: \<^verbatim>\<open>ra\<close> is 1, \<^verbatim>\<open>sp\<close> 2, \<^verbatim>\<open>tp\<close> 4, \<^verbatim>\<open>t0\<close> 5,
  \<^verbatim>\<open>t1\<close> 6, \<^verbatim>\<open>a0\<close> 10. A user page table maps the trapframe at \<^verbatim>\<open>TRAPFRAME\<close>; \<open>tf\<close> is its page. The order
  and offsets of \<open>saved\<close> are those of the \<^verbatim>\<open>sd\<close> instructions, those of \<open>restored\<close> those of the \<^verbatim>\<open>ld\<close> instructions.
\<close>

definition saved :: "(nat \<times> nat) list" where
  "saved = [(1, 40), (2, 48), (3, 56), (4, 64), (5, 72), (6, 80), (7, 88), (8, 96), (9, 104), (11, 120), (12, 128),
     (13, 136), (14, 144), (15, 152), (16, 160), (17, 168), (18, 176), (19, 184), (20, 192), (21, 200), (22, 208),
     (23, 216), (24, 224), (25, 232), (26, 240), (27, 248), (28, 256), (29, 264), (30, 272), (31, 280)]"

definition restored :: "(nat \<times> nat) list" where
  "restored = [(1, 40), (2, 48), (3, 56), (4, 64), (5, 72), (6, 80), (7, 88), (8, 96), (9, 104), (11, 120), (12, 128),
     (13, 136), (14, 144), (15, 152), (16, 160), (17, 168), (18, 176), (19, 184), (20, 192), (21, 200), (22, 208),
     (23, 216), (24, 224), (25, 232), (26, 240), (27, 248), (28, 256), (29, 264), (30, 272), (31, 280)]"

fun save_regs :: "(nat \<times> nat) list \<Rightarrow> u64 \<Rightarrow> (nat \<Rightarrow> u64) \<Rightarrow> phys \<Rightarrow> phys" where
  "save_regs [] tf x s = s"
| "save_regs ((r, off) # rs) tf x s = save_regs rs tf x (tf_set s tf off (x r))"

fun load_regs :: "(nat \<times> nat) list \<Rightarrow> u64 \<Rightarrow> phys \<Rightarrow> (nat \<Rightarrow> u64) \<Rightarrow> nat \<Rightarrow> u64" where
  "load_regs [] tf s x = x"
| "load_regs ((r, off) # rs) tf s x = load_regs rs tf s (x(r := tf_get s tf off))"

text \<open>\<^verbatim>\<open>uservec\<close>: the registers and the control registers it leaves, where it jumps, and the memory.\<close>

definition uservec :: "u64 \<Rightarrow> (nat \<Rightarrow> u64) \<Rightarrow> csrs \<Rightarrow> phys \<Rightarrow> (nat \<Rightarrow> u64) \<times> csrs \<times> u64 \<times> phys" where
  "uservec tf x cs s =
     (let sscratch = x 10;
          x = x(10 := TRAPFRAME);
          s = save_regs saved tf x s;
          x = x(5 := sscratch);
          s = tf_set s tf 112 (x 5);
          x = x(2 := tf_get s tf 8);
          x = x(4 := tf_get s tf 32);
          x = x(5 := tf_get s tf 16);
          x = x(6 := tf_get s tf 0)
      in (x, cs\<lparr>satp := x 6\<rparr>, x 5, s))"

definition userret :: "u64 \<Rightarrow> u64 \<Rightarrow> (nat \<Rightarrow> u64) \<Rightarrow> csrs \<Rightarrow> phys \<Rightarrow> (nat \<Rightarrow> u64) \<times> csrs \<times> u64" where
  "userret a0 tf x cs s =
     (let cs = cs\<lparr>satp := a0\<rparr>;
          x = x(10 := TRAPFRAME);
          x = load_regs restored tf s x;
          x = x(10 := tf_get s tf 112)
      in (x, cs, sepc cs))"


section \<open>User registers survive the kernel\<close>

definition apart :: "nat \<Rightarrow> nat \<Rightarrow> bool" where
  "apart a b \<longleftrightarrow> a + 8 \<le> b \<or> b + 8 \<le> a"

lemma tf_get_set_same [simp]: "tf_get (tf_set s tf off v) tf off = v"
  by (simp add: tf_get_def tf_set_def)

lemma tf_get_set_other: "apart off off' \<Longrightarrow> tf_get (tf_set s tf off v) tf off' = tf_get s tf off'"
  by (auto simp: tf_get_def tf_set_def apart_def load64_store64_other)

lemma save_regs_other:
  "\<forall>(r, off') \<in> set rs. apart off' off \<Longrightarrow> tf_get (save_regs rs tf x s) tf off = tf_get s tf off"
  by (induction rs arbitrary: s) (auto simp: tf_get_set_other)

lemma save_regs_same:
  "sorted_wrt (\<lambda>(_, a) (_, b). apart a b) rs \<Longrightarrow> (r, off) \<in> set rs \<Longrightarrow> tf_get (save_regs rs tf x s) tf off = x r"
proof (induction rs arbitrary: s)
  case (Cons ro rs)
  obtain r' off' where ro: "ro = (r', off')"
    by fastforce
  show ?case
  proof (cases "(r, off) \<in> set rs")
    case True
    then show ?thesis
      using Cons ro by simp
  next
    case False
    then have "r' = r" "off' = off"
      using Cons.prems(2) ro by auto
    moreover have "\<forall>(_, a) \<in> set rs. apart a off'"
      using Cons.prems(1) ro by (auto simp: apart_def)
    ultimately show ?thesis
      using ro save_regs_other [of rs off tf x "tf_set s tf off (x r)"] by simp
  qed
qed simp

lemma load_regs_other: "r \<notin> fst ` set rs \<Longrightarrow> load_regs rs tf s x r = x r"
  by (induction rs arbitrary: x) (auto split: prod.splits)

lemma load_regs_same:
  "distinct (map fst rs) \<Longrightarrow> (r, off) \<in> set rs \<Longrightarrow> load_regs rs tf s x r = tf_get s tf off"
proof (induction rs arbitrary: x)
  case (Cons ro rs)
  then show ?case
    by (cases ro) (auto simp: load_regs_other image_iff)
qed simp

lemma saved_ok: "sorted_wrt (\<lambda>(_, a) (_, b). apart a b) saved" "distinct (map fst saved)"
  by (simp_all add: saved_def apart_def)

lemma restored_saved: "restored = saved"
  by (simp add: restored_def saved_def)

lemma saved_offset: "(r, off) \<in> set saved \<Longrightarrow> off = 32 + 8 * r"
  by (auto simp: saved_def)

lemma saved_all: "1 \<le> r \<Longrightarrow> r \<le> 31 \<Longrightarrow> r \<noteq> 10 \<Longrightarrow> (r, 32 + 8 * r) \<in> set saved"
proof -
  have "\<forall>r \<in> set [1..<32]. r = 10 \<or> (r, 32 + 8 * r) \<in> set saved"
    by code_simp
  then show "1 \<le> r \<Longrightarrow> r \<le> 31 \<Longrightarrow> r \<noteq> 10 \<Longrightarrow> (r, 32 + 8 * r) \<in> set saved"
    by auto
qed

text \<open>
  Claim C6: a trap and the return from it preserve the registers of the user. \<^verbatim>\<open>uservec\<close> saves all 31
  general registers in the trapframe and enters the kernel on its stack, with its page table, at the
  address the trapframe holds. \<^verbatim>\<open>userret\<close> brings back every register but \<^verbatim>\<open>a0\<close> as it was, provided the kernel
  has left their places in the trapframe alone, and \<^verbatim>\<open>a0\<close> with the value that is in its place then.
\<close>

theorem trampoline_roundtrip:
  assumes "uservec tf x cs s = (xk, csk, pc, s1)" and "userret a tf y cs2 s2 = (x', cs3, pc')"
    and "\<forall>r. 1 \<le> r \<and> r \<le> 31 \<and> r \<noteq> 10 \<longrightarrow> tf_get s2 tf (32 + 8 * r) = tf_get s1 tf (32 + 8 * r)"
  shows "(\<forall>r. 1 \<le> r \<and> r \<le> 31 \<and> r \<noteq> 10 \<longrightarrow> x' r = x r) \<and>
    x' 10 = tf_get s2 tf TF_a0 \<and> tf_get s1 tf TF_a0 = x 10 \<and>
    xk 2 = tf_get s tf 8 \<and> xk 4 = tf_get s tf 32 \<and> pc = tf_get s tf 16 \<and> satp csk = tf_get s tf 0 \<and>
    pc' = sepc cs2 \<and> satp cs3 = a"
proof -
  let ?x = "x(10 := TRAPFRAME)"
  let ?s = "tf_set (save_regs saved tf ?x s) tf 112 (x 10)"
  have head: "tf_get (save_regs saved tf ?x s) tf off = tf_get s tf off" if "off \<le> 32" for off
    using that by (intro save_regs_other) (auto simp: saved_def apart_def)
  have low: "tf_get ?s tf off = tf_get s tf off" if "off \<le> 32" for off
    using head [OF that] that by (simp add: tf_get_set_other apart_def)
  have s1: "s1 = ?s" and k: "xk 2 = tf_get ?s tf 8" "xk 4 = tf_get ?s tf 32" "pc = tf_get ?s tf 16"
    "satp csk = tf_get ?s tf 0"
    using assms(1) by (auto simp: uservec_def Let_def)
  have saved_reg: "tf_get s1 tf (32 + 8 * r) = x r" if "1 \<le> r" "r \<le> 31" "r \<noteq> 10" for r
  proof -
    have "apart 112 (32 + 8 * r)"
      using that by (auto simp: apart_def)
    then show ?thesis
      using save_regs_same [OF saved_ok(1) saved_all [OF that], of tf ?x s] that
      by (simp add: s1 tf_get_set_other)
  qed
  have "x' r = tf_get s2 tf (32 + 8 * r)" if "1 \<le> r" "r \<le> 31" "r \<noteq> 10" for r
    using assms(2) load_regs_same [OF saved_ok(2) saved_all [OF that]] that by (auto simp: userret_def restored_saved Let_def)
  then show ?thesis
    using saved_reg assms(2,3) k low by (auto simp: userret_def Let_def s1 TF_a0_def)
qed

theorem trampoline_roundtrip_witness:
  "case uservec 0x87000000 of_nat \<lparr>sstatus = 0, sepc = 4, scause = 8, stval = 0, stvec = 0, satp = 0, stimecmp = 0\<rparr> demo_phys of
     (xk, csk, pc, s1) \<Rightarrow>
       case userret 7 0x87000000 (\<lambda>_. 0) csk (tf_set s1 0x87000000 TF_a0 99) of (x', cs3, pc') \<Rightarrow> x' 31 = 31 \<and> x' 10 = 99"
proof -
  let ?cs = "\<lparr>sstatus = 0, sepc = 4, scause = 8, stval = 0, stvec = 0, satp = 0, stimecmp = 0\<rparr>" and ?tf = "0x87000000 :: u64"
  obtain xk csk pc s1 where u: "uservec ?tf of_nat ?cs demo_phys = (xk, csk, pc, s1)"
    by (metis prod_cases4)
  obtain x' cs3 pc' where r: "userret 7 ?tf (\<lambda>_. 0) csk (tf_set s1 ?tf TF_a0 99) = (x', cs3, pc')"
    by (metis prod_cases3)
  have "tf_get (tf_set s1 ?tf TF_a0 99) ?tf (32 + 8 * r) = tf_get s1 ?tf (32 + 8 * r)"
    if "1 \<le> r" "r \<le> 31" "r \<noteq> 10" for r
    using that by (intro tf_get_set_other) (auto simp: apart_def TF_a0_def)
  then have "x' 31 = 31 \<and> x' 10 = 99"
    using trampoline_roundtrip [OF u r] by simp
  then show ?thesis
    by (simp add: u r)
qed

end
