(* ===== verification/Xv6_File_Refs.thy ===== *)
theory Xv6_File_Refs
  imports Xv6_Frame Xv6_Trap
begin

text \<open>
  The reference counts of the file table. A count is the number of descriptors, of all processes, that
  refer to the entry; inside a system call it may be off by the references the call holds itself, which
  is the first argument of \<open>balance\<close>. The second one names a process under construction.
\<close>

section \<open>Counting\<close>

definition slots :: "nat \<Rightarrow> kern \<Rightarrow> (nat \<times> nat) set" where
  "slots f st = {(p, fd). p < NPROC \<and> fd < NOFILE \<and> p_ofile (procs (mach st) p) fd = Some f}"

definition balance :: "(nat \<Rightarrow> int) \<Rightarrow> nat set \<Rightarrow> kern \<Rightarrow> bool" where
  "balance e X st \<longleftrightarrow>
     (\<forall>f < NFILE. int (unat (f_ref (ftab st f))) = int (card (slots f st)) + e f) \<and>
     (\<forall>p fd f. p_ofile (procs (mach st) p) fd = Some f \<longrightarrow> p < NPROC \<and> fd < NOFILE \<and> f < NFILE) \<and>
     (\<forall>p < NPROC. dead (p_state (procs (mach st) p)) \<longrightarrow> p \<notin> X \<longrightarrow> p_ofile (procs (mach st) p) = (\<lambda>_. None))"

text \<open>The references a call holds, when it takes another one or gives one up.\<close>

definition owe :: "nat \<Rightarrow> (nat \<Rightarrow> int) \<Rightarrow> nat \<Rightarrow> int" where
  "owe f e = e(f := e f + 1)"

definition paid :: "nat \<Rightarrow> (nat \<Rightarrow> int) \<Rightarrow> nat \<Rightarrow> int" where
  "paid f e = e(f := e f - 1)"

lemma owe_paid [simp]: "owe f (paid f e) = e" "paid f (owe g e) = owe g (paid f e)"
  by (auto simp: owe_def paid_def)

lemma owe_commute: "owe f (owe g e) = owe g (owe f e)"
  by (auto simp: owe_def)

text \<open>
  Between system calls: every count is exact, descriptors are in range, and a slot without a live process
  has none.
\<close>

definition files_ok :: "kern \<Rightarrow> bool" where
  "files_ok st \<longleftrightarrow>
     (\<forall>f < NFILE. unat (f_ref (ftab st f)) = card (slots f st)) \<and>
     (\<forall>p fd f. p_ofile (procs (mach st) p) fd = Some f \<longrightarrow> p < NPROC \<and> fd < NOFILE \<and> f < NFILE) \<and>
     (\<forall>p < NPROC. p_state (procs (mach st) p) \<in> {UNUSED, USED, ZOMBIE} \<longrightarrow> p_ofile (procs (mach st) p) = (\<lambda>_. None))"

lemma files_okD:
  assumes "files_ok st"
  shows "p_ofile (procs (mach st) p) fd = Some f \<Longrightarrow> p < NPROC \<and> fd < NOFILE \<and> f < NFILE"
    and "f < NFILE \<Longrightarrow> unat (f_ref (ftab st f)) = card (slots f st)"
  using assms unfolding files_ok_def by blast+

lemma files_ok_balance: "files_ok st \<longleftrightarrow> balance (\<lambda>_. 0) {} st"
  unfolding files_ok_def balance_def dead_def
  by (simp only: add_0_right of_nat_eq_iff insert_iff empty_iff not_False_eq_True simp_thms)

text \<open>The process \<open>p\<close>, whose descriptors are \<open>o'\<close>, is in a system call.\<close>

definition fits :: "(nat \<Rightarrow> int) \<Rightarrow> nat set \<Rightarrow> nat \<Rightarrow> (nat \<Rightarrow> nat option) \<Rightarrow> kern \<Rightarrow> bool" where
  "fits e X p o' st \<longleftrightarrow>
     balance e X st \<and> me st = Ok p \<and> p < NPROC \<and> \<not> dead (p_state (procs (mach st) p)) \<and>
     p_ofile (procs (mach st) p) = o'"

lemma slots_finite [simp]: "finite (slots f st)"
proof -
  have "slots f st \<subseteq> {..<NPROC} \<times> {..<NOFILE}"
    by (auto simp: slots_def)
  then show ?thesis
    by (rule finite_subset) simp
qed

lemma slots_bound: "card (slots f st) \<le> 1024"
proof -
  have "slots f st \<subseteq> {..<NPROC} \<times> {..<NOFILE}"
    by (auto simp: slots_def)
  then have "card (slots f st) \<le> card ({..<NPROC} \<times> {..<NOFILE})"
    by (rule card_mono [rotated]) simp
  then show ?thesis
    by (simp add: card_cartesian_product NPROC_def NOFILE_def)
qed

lemma slots_still: "still (mach st) m \<Longrightarrow> slots f (st\<lparr>mach := m\<rparr>) = slots f st"
  by (simp add: slots_def still_def)

lemma balance_still: "balance e X st \<Longrightarrow> still (mach st) m \<Longrightarrow> balance e X (st\<lparr>mach := m\<rparr>)"
  by (simp add: balance_def slots_still) (simp add: still_def)

lemma me_still: "still (mach st) m \<Longrightarrow> me (st\<lparr>mach := m\<rparr>) = me st"
  by (simp add: still_def me_def myproc_def)

lemma fits_still:
  assumes "fits e X p o' st" and "still (mach st) m"
  shows "fits e X p o' (st\<lparr>mach := m\<rparr>)"
  using assms balance_still [OF _ assms(2)] me_still [OF assms(2)] by (auto simp: fits_def still_def)

lemma fits_other [simp]:
  "fits e X p o' (st\<lparr>pipes := x1\<rparr>) = fits e X p o' st" "fits e X p o' (st\<lparr>devices := x2\<rparr>) = fits e X p o' st"
  "fits e X p o' (st\<lparr>total_syscalls := x3\<rparr>) = fits e X p o' st" "fits e X p o' (st\<lparr>rand_seed := x4\<rparr>) = fits e X p o' st"
  "fits e X p o' (st\<lparr>mach := (mach st)\<lparr>ph := x5\<rparr>\<rparr>) = fits e X p o' st"
  by (simp_all add: fits_def balance_def slots_def me_def myproc_def)

interpretation fs: fs_client "fits e X p o'" for e X p o'
proof
  fix st st' :: kern and s
  assume "fsys.more st' = fsys.more st" "hart st' = hart st" "mach st' = (mach st)\<lparr>ph := s\<rparr>"
  then show "fits e X p o' st' = fits e X p o' st"
    by (cases st; cases st') (simp add: fits_def balance_def slots_def me_def myproc_def)
qed

lemma fits_file:
  assumes "fits e X p o' st" and "\<And>x. x = ftab st f \<Longrightarrow> f_ref (g x) = f_ref x"
  shows "fits e X p o' (upd_file f g st)"
  using assms by (simp add: fits_def balance_def slots_def me_def myproc_def upd_file_def)

lemma fits_ref:
  assumes "fits e X p o' st"
  shows "(f < NFILE \<Longrightarrow> int (unat (f_ref (g (ftab st f)))) = int (unat (f_ref (ftab st f))) + 1) \<Longrightarrow>
      fits (owe f e) X p o' (upd_file f g st)"
    and "(f < NFILE \<Longrightarrow> int (unat (f_ref (g (ftab st f)))) = int (unat (f_ref (ftab st f))) - 1) \<Longrightarrow>
      fits (paid f e) X p o' (upd_file f g st)"
  using assms by (simp_all add: fits_def balance_def slots_def me_def myproc_def upd_file_def owe_def paid_def)

section \<open>Operations on the file table\<close>

lemma filealloc_fits:
  assumes "fits e X p o' st" and "\<And>st'. fits e X p o' st' \<Longrightarrow> post Q (none st')"
    and "\<And>f st'. f < NFILE \<Longrightarrow> fits (owe f e) X p o' st' \<Longrightarrow> post Q (some f st')"
  shows "post Q (case filealloc st of (None, st) \<Rightarrow> none st | (Some f, st) \<Rightarrow> some f st)"
proof (cases "find (\<lambda>f. f_ref (ftab st f) = 0) [0..<NFILE]")
  case (Some f)
  then have f: "f < NFILE" "f_ref (ftab st f) = 0"
    by (auto simp: find_Some_iff)
  then have "fits (owe f e) X p o' (upd_file f (\<lambda>x. x\<lparr>f_ref := 1\<rparr>) st)"
    by (intro fits_ref(1) [OF assms(1)]) simp
  then show ?thesis
    using assms(3) [OF f(1)] Some by (simp add: filealloc_def)
qed (use assms in \<open>simp add: filealloc_def\<close>)

lemma next_ref: "\<not> x <s 1 \<Longrightarrow> int (unat (x + 1)) = int (unat x) + 1" for x :: c_int
proof -
  assume "\<not> x <s 1"
  then have "x \<noteq> - 1"
    by (auto simp: word_sless_alt)
  then have "1 + x \<noteq> 0"
    by (simp add: add_eq_0_iff)
  then show "int (unat (x + 1)) = int (unat x) + 1"
    using unatSuc [of x] by (simp only: add.commute [of x]) simp
qed

lemma filedup_fits [THEN post_mono, wp]:
  "fits e X p o' st \<Longrightarrow> post (fits (owe f e) X p o') (filedup f st)"
  using next_ref by (auto simp: filedup_def intro!: post_rbind wp fits_ref(1))

lemma closepipe_fits [THEN post_mono, wp]: "fits e X p o' st \<Longrightarrow> post (fits e X p o') (closepipe pi w st)"
  unfolding closepipe_def
  by (rule post_rbind, rule post_mono [OF pipeclose_still [OF still_refl]]) (auto intro!: post_rbind wp fits_still)

lemma last_ref: "\<not> x <s 1 \<Longrightarrow> \<not> 0 <s x - 1 \<Longrightarrow> x = 1" for x :: c_int
proof -
  assume "\<not> x <s 1" "\<not> 0 <s x - 1"
  then have "1 \<le> sint x" "sint (x - 1) \<le> 0"
    by (simp_all add: word_sless_alt)
  moreover have "sint (x - 1) = sint x - 1" if "1 \<le> sint x"
    using that sint_range_size [of x] by (simp add: sint_word_ariths signed_take_bit_int_eq_self word_size)
  ultimately have "sint x = sint (1 :: c_int)"
    by simp
  then show "x = 1"
    by (rule signed_word_eqI)
qed

lemma fileclose_fits [THEN post_mono, wp]:
  assumes "fits e X p o' st"
  shows "post (fits (paid f e) X p o') (fileclose f st)"
proof (cases "f_ref (ftab st f) <s 1")
  case False
  let ?st = "upd_file f (\<lambda>x. x\<lparr>f_ref := f_ref x - 1\<rparr>) st"
  have "f_ref (ftab st f) \<noteq> 0"
    using False by (auto simp: word_sless_alt)
  then have "int (unat (f_ref (ftab st f) - 1)) = int (unat (f_ref (ftab st f))) - 1"
    using unat_minus_one [of "f_ref (ftab st f)"] unat_gt_0 [of "f_ref (ftab st f)"] by linarith
  then have 1: "fits (paid f e) X p o' ?st"
    by (intro fits_ref(2) [OF assms]) simp
  have 2: "fits (paid f e) X p o' (upd_file f (\<lambda>x. x\<lparr>f_ref := 0, f_type := FD_NONE\<rparr>) ?st)"
    if "\<not> 0 <s f_ref (ftab ?st f)"
    using that False by (intro fits_file [OF 1]) (auto dest: last_ref simp: upd_file_def)
  show ?thesis
    using 1 2 False unfolding fileclose_def Let_def by (auto intro!: post_rbind wp)
qed (simp add: fileclose_def)


section \<open>Descriptors\<close>

lemma argfd_fits [THEN post_mono, wp]:
  assumes "fits e X p o' st"
  shows "post (\<lambda>x. \<forall>fd f. x = Some (fd, f) \<longrightarrow> o' fd = Some f \<and> fd < NOFILE \<and> f < NFILE) (argfd n st)"
proof -
  have 1: "me st = Ok p" "p_ofile (procs (mach st) p) = o'"
    using assms by (auto simp: fits_def)
  have 2: "fd < NOFILE \<and> f < NFILE" if "o' fd = Some f" for fd f
    using assms that by (auto simp: fits_def balance_def)
  show ?thesis
    using 1 2 by (auto simp: argfd_def post_def rbind_eq_Ok split: if_splits)
qed

text \<open>Changing one descriptor of a process.\<close>

definition set_fd :: "nat \<Rightarrow> nat \<Rightarrow> nat option \<Rightarrow> kern \<Rightarrow> kern" where
  "set_fd q fd x st = upd_me q (\<lambda>r. r\<lparr>p_ofile := (p_ofile r)(fd := x)\<rparr>) st"

lemma slots_set_fd:
  assumes "q < NPROC" and "fd < NOFILE"
  shows "slots f (set_fd q fd x st) = (if x = Some f then insert (q, fd) (slots f st) else slots f st - {(q, fd)})"
  using assms by (auto simp: slots_def set_fd_def upd_me_def upd_proc_def split: if_splits)

lemma balance_set_fd:
  assumes "balance e X st" and "q < NPROC" and "fd < NOFILE" and "f < NFILE"
    and "\<not> dead (p_state (procs (mach st) q)) \<or> q \<in> X"
  shows "p_ofile (procs (mach st) q) fd = None \<Longrightarrow> balance (paid f e) X (set_fd q fd (Some f) st)"
    and "p_ofile (procs (mach st) q) fd = Some f \<Longrightarrow> balance (owe f e) X (set_fd q fd None st)"
proof -
  assume none: "p_ofile (procs (mach st) q) fd = None"
  then have notin: "(q, fd) \<notin> slots g st" for g
    by (simp add: slots_def)
  have "int (unat (f_ref (ftab st g))) = int (card (slots g (set_fd q fd (Some f) st))) + (paid f e) g"
    if "g < NFILE" for g
    using assms(1) that notin by (simp add: slots_set_fd assms(2,3) balance_def paid_def)
  then show "balance (paid f e) X (set_fd q fd (Some f) st)"
    using assms by (auto simp: balance_def set_fd_def upd_me_def upd_proc_def)
next
  assume some: "p_ofile (procs (mach st) q) fd = Some f"
  then have 1: "(q, fd) \<in> slots f st"
    using assms by (simp add: slots_def)
  have 2: "(q, fd) \<notin> slots g st" if "g \<noteq> f" for g
    using some that by (simp add: slots_def)
  have "int (card (slots f st - {(q, fd)})) = int (card (slots f st)) - 1"
    using 1 card_Suc_Diff1 [of "slots f st" "(q, fd)"] by simp
  then have "int (unat (f_ref (ftab st g))) = int (card (slots g (set_fd q fd None st))) + (owe f e) g"
    if "g < NFILE" for g
    using assms(1) that 2 by (cases "g = f") (simp_all add: slots_set_fd assms(2,3) balance_def owe_def)
  then show "balance (owe f e) X (set_fd q fd None st)"
    using assms by (auto simp: balance_def set_fd_def upd_me_def upd_proc_def split: if_splits)
qed

lemma set_fd_me [simp]:
  "me (set_fd q fd x st) = me st" "p_state (procs (mach (set_fd q fd x st)) r) = p_state (procs (mach st) r)"
  "hart (set_fd q fd x st) = hart st"
  by (simp_all add: set_fd_def upd_me_def upd_proc_def me_def myproc_def)

lemma set_fd_ofile: "p_ofile (procs (mach (set_fd q fd x st)) r) =
    (if r = q then (p_ofile (procs (mach st) q))(fd := x) else p_ofile (procs (mach st) r))"
  by (simp add: set_fd_def upd_me_def upd_proc_def)

lemma fits_set_fd:
  assumes "fits e X p o' st" and "fd < NOFILE" and "f < NFILE"
  shows "o' fd = None \<Longrightarrow> fits (paid f e) X p (o'(fd := Some f)) (set_fd p fd (Some f) st)"
    and "o' fd = Some f \<Longrightarrow> fits (owe f e) X p (o'(fd := None)) (set_fd p fd None st)"
  using assms balance_set_fd [of e X st p fd f] by (auto simp: fits_def set_fd_ofile)

lemma fdalloc_fits [wp]:
  assumes "fits e X p o' st" and "f < NFILE"
    and "\<And>fd st. fd <s 0 \<Longrightarrow> fits e X p o' st \<Longrightarrow> Q (fd, st)"
    and "\<And>fd st. \<not> fd <s 0 \<Longrightarrow> o' (unat fd) = None \<Longrightarrow> fits (paid f e) X p (o'(unat fd := Some f)) st \<Longrightarrow> Q (fd, st)"
  shows "post Q (fdalloc f st)"
proof (cases "find (\<lambda>fd. o' fd = None) [0..<NOFILE]")
  case (Some k)
  then have k: "k < NOFILE" "o' k = None"
    by (auto simp: find_Some_iff)
  then have "unat (of_nat k :: c_int) = k" "\<not> (of_nat k :: c_int) <s 0"
    by (simp_all add: NOFILE_def word_sless_alt sint_small unat_of_nat)
  then show ?thesis
    using assms(1,4) k Some fits_set_fd(1) [OF assms(1) k(1) assms(2) k(2)]
    by (auto simp: fdalloc_def fits_def set_fd_def intro!: post_Ok)
next
  case None
  have "(- 1 :: c_int) <s 0"
    by (simp add: word_sless_alt)
  then show ?thesis
    using assms(1,3) None by (auto simp: fdalloc_def fits_def intro!: post_Ok)
qed

lemma fdfree_fits [THEN post_mono, wp]:
  assumes "fits e X p o' st" and "o' fd = Some f"
  shows "post (fits (owe f e) X p (o'(fd := None))) (fdfree fd st)"
proof -
  have "fd < NOFILE" "f < NFILE" "me st = Ok p"
    using assms by (auto simp: fits_def balance_def)
  then show ?thesis
    using fits_set_fd(2) [OF assms(1), of fd f] assms(2) by (simp add: fdfree_def set_fd_def post_Ok)
qed


section \<open>Reading and writing\<close>

lemma any_value [wp]:
  "(\<And>x. Q1 x) \<Longrightarrow> post Q1 (argint n st)" "(\<And>x. Q2 x) \<Longrightarrow> post Q2 (argaddr n st)"
  "(\<And>x. Q3 x) \<Longrightarrow> post Q3 (argstr n k st)" "(\<And>x. Q4 x) \<Longrightarrow> post Q4 (fetchaddr a st)"
  "(\<And>x. Q5 x) \<Longrightarrow> post Q5 (fetchstr a k st)"
  by (auto intro: post_any)

lemma me_fits [wp]: "fits e X p o' st \<Longrightarrow> (me st = Ok p \<Longrightarrow> Q p) \<Longrightarrow> post Q (me st)"
  by (simp add: fits_def post_Ok)

lemma user_out_fits [THEN post_mono2, wp]:
  "fits e X p o' st \<Longrightarrow> post (\<lambda>(_, st). fits e X p o' st) (user_out a bs st)"
  by (auto simp: user_out_def intro!: post_rbind wp)

lemma on_ph_fits [THEN post_mono2, wp]: "fits e X p o' st \<Longrightarrow> post (\<lambda>(_, st). fits e X p o' st) (on_ph g st)"
  by (auto simp: on_ph_def post_def rbind_eq_Ok)

lemma do_ph_fits [THEN post_mono, wp]: "fits e X p o' st \<Longrightarrow> post (fits e X p o') (do_ph g st)"
  by (auto simp: do_ph_def post_def rbind_eq_Ok)

text \<open>A call of the process table keeps the files.\<close>

lemma on_mach_fits [THEN post_mono, wp]:
  assumes "fits e X p o' st" and "post (still (mach st)) (g (mach st))"
  shows "post (fits e X p o') (on_mach g st)"
  using assms fits_still [OF assms(1)] by (auto simp: on_mach_def post_def rbind_eq_Ok)

lemma on_machine_fits [THEN post_mono2, wp]:
  assumes "fits e X p o' st" and "post (\<lambda>(_, m). still (mach st) m) (g (mach st))"
  shows "post (\<lambda>(_, st). fits e X p o' st) (on_machine g st)"
  using assms fits_still [OF assms(1)] by (auto simp: on_machine_def post_def rbind_eq_Ok)

lemma filestat_fits [THEN post_mono2, wp]:
  "fits e X p o' st \<Longrightarrow> post (\<lambda>(_, st). fits e X p o' st) (filestat f addr pad st)"
  by (auto simp: filestat_def Let_def intro!: post_rbind wp)

lemma fileread_fits [THEN post_mono2, wp]:
  "fits e X p o' st \<Longrightarrow> post (\<lambda>(_, st). fits e X p o' st) (fileread f addr n st)"
  unfolding fileread_def Let_def
  by (cases "f_type (ftab st f)")
    (auto intro!: post_rbind wp fits_file fits_still consoleread_still [OF still_refl] piperead_still [OF still_refl])


lemma filewrite_from_fits [THEN post_mono2, wp]:
  "fits e X p o' st \<Longrightarrow> post (\<lambda>(_, st). fits e X p o' st) (filewrite_from f ip addr i n st)"
proof (induction f ip addr i n st rule: filewrite_from.induct)
  case (1 f ip addr i n st)
  then show ?case
    by (subst filewrite_from.simps) (auto simp: Let_def intro!: post_rbind_eq wp fits_file)
qed

lemma filewrite_fits [THEN post_mono2, wp]:
  "fits e X p o' st \<Longrightarrow> post (\<lambda>(_, st). fits e X p o' st) (filewrite f addr n st)"
  unfolding filewrite_def Let_def
  by (cases "f_type (ftab st f)")
    (auto intro!: post_rbind wp fits_file fits_still consolewrite_still [OF still_refl] pipewrite_still [OF still_refl])

section \<open>System calls on files\<close>

definition ok_sys :: "u64 option \<times> kern \<Rightarrow> bool" where
  "ok_sys x \<longleftrightarrow> files_ok (snd x)"

lemma ok_sysI [intro]: "fits (\<lambda>_. 0) {} p o' st \<Longrightarrow> ok_sys (r, st)"
  by (simp add: ok_sys_def files_ok_balance fits_def)

lemma ret_fits [wp]: "fits (\<lambda>_. 0) {} p o' st \<Longrightarrow> post ok_sys (ret v st)"
  by (auto simp: ret_def intro!: post_Ok)

lemma end_ret_fits [wp]: "fits (\<lambda>_. 0) {} p o' st \<Longrightarrow> post ok_sys (end_ret v st)"
  by (auto simp: end_ret_def intro!: post_rbind wp)

lemma sys_dup_fits: "fits (\<lambda>_. 0) {} p o' st \<Longrightarrow> post ok_sys (sys_dup st)"
  by (auto simp: sys_dup_def intro!: post_rbind wp split: if_splits)

lemma sys_read_fits: "fits (\<lambda>_. 0) {} p o' st \<Longrightarrow> post ok_sys (sys_read st)"
  by (auto simp: sys_read_def intro!: post_rbind wp)

lemma sys_write_fits: "fits (\<lambda>_. 0) {} p o' st \<Longrightarrow> post ok_sys (sys_write st)"
  by (auto simp: sys_write_def intro!: post_rbind wp)

lemma sys_close_fits: "fits (\<lambda>_. 0) {} p o' st \<Longrightarrow> post ok_sys (sys_close st)"
  by (auto simp: sys_close_def intro!: post_rbind wp)

lemma sys_fstat_fits: "fits (\<lambda>_. 0) {} p o' st \<Longrightarrow> post ok_sys (sys_fstat pad st)"
  by (auto simp: sys_fstat_def intro!: post_rbind wp)


lemma nlink_add_fits [THEN post_mono, wp]: "fits e X p o' st \<Longrightarrow> post (fits e X p o') (nlink_add ip d st)"
  by (auto simp: nlink_add_def intro!: post_rbind wp)

lemma link_bad_fits [wp]: "fits (\<lambda>_. 0) {} p o' st \<Longrightarrow> post ok_sys (link_bad ip st)"
  by (auto simp: link_bad_def intro!: post_rbind wp)

lemma sys_link_fits: "fits (\<lambda>_. 0) {} p o' st \<Longrightarrow> post ok_sys (sys_link st)"
  unfolding sys_link_def by (rule post_pair post_rbind | rule wp | assumption | clarsimp split del: if_split)+

lemma isdirempty_from_fits: "fits e X p o' st \<Longrightarrow> post (\<lambda>(_, st). fits e X p o' st) (isdirempty_from dp off sz st)"
proof (induction "sz - off" arbitrary: off st rule: less_induct)
  case less
  show ?case
    using less(2) by (subst isdirempty_from.simps)
      (rule post_pair post_rbind | rule wp less(1) | assumption | clarsimp simp: DIRENT_SIZE_def split del: if_split | arith)+
qed

lemma isdirempty_fits [THEN post_mono2, wp]:
  "fits e X p o' st \<Longrightarrow> post (\<lambda>(_, st). fits e X p o' st) (isdirempty dp st)"
  by (simp add: isdirempty_def isdirempty_from_fits)

lemma sys_unlink_fits: "fits (\<lambda>_. 0) {} p o' st \<Longrightarrow> post ok_sys (sys_unlink st)"
  unfolding sys_unlink_def by (rule post_pair post_rbind | rule wp | assumption | clarsimp split del: if_split)+

lemma create_fail_fits [THEN post_mono2, wp]:
  "fits e X p o' st \<Longrightarrow> post (\<lambda>(_, st). fits e X p o' st) (create_fail ip dp st)"
  unfolding create_fail_def by (rule post_pair post_rbind | rule wp | assumption | clarsimp split del: if_split)+

lemma create_fits [THEN post_mono2, wp]:
  "fits e X p o' st \<Longrightarrow> post (\<lambda>(_, st). fits e X p o' st) (create path type major minor st)"
  unfolding create_def by (rule post_pair post_rbind | rule wp | assumption | clarsimp split del: if_split)+

lemma open_inode_fits [THEN post_mono2, wp]:
  "fits e X p o' st \<Longrightarrow> post (\<lambda>(_, st). fits e X p o' st) (open_inode path omode st)"
  unfolding open_inode_def by (rule post_pair post_rbind | rule wp | assumption | clarsimp split del: if_split)+

lemma make_node_fits [wp]: "fits (\<lambda>_. 0) {} p o' st \<Longrightarrow> post ok_sys (make_node arg type major minor st)"
  unfolding make_node_def by (rule post_pair post_rbind | rule wp | assumption | clarsimp split del: if_split)+

lemma sys_mkdir_fits: "fits (\<lambda>_. 0) {} p o' st \<Longrightarrow> post ok_sys (sys_mkdir st)"
  unfolding sys_mkdir_def by (rule post_pair post_rbind | rule wp | assumption | clarsimp split del: if_split)+

lemma sys_mknod_fits: "fits (\<lambda>_. 0) {} p o' st \<Longrightarrow> post ok_sys (sys_mknod st)"
  unfolding sys_mknod_def by (rule post_pair post_rbind | rule wp | assumption | clarsimp split del: if_split)+

lemma fits_upd_me:
  assumes "fits e X p o' st" and "\<And>r. p_ofile (g r) = p_ofile r" and "\<And>r. p_state (g r) = p_state r"
  shows "fits e X p o' (upd_me q g st)"
proof -
  have "still (mach st) (upd_proc q g (mach st))"
    using assms by (intro still_upd_proc) auto
  then show ?thesis
    using fits_still [OF assms(1)] by (simp add: upd_me_def)
qed

lemma sys_chdir_fits: "fits (\<lambda>_. 0) {} p o' st \<Longrightarrow> post ok_sys (sys_chdir st)"
  unfolding sys_chdir_def by (rule post_pair post_rbind | rule wp fits_upd_me | assumption | clarsimp split del: if_split)+


lemma sys_open_fits: "fits (\<lambda>_. 0) {} p o' st \<Longrightarrow> post ok_sys (sys_open st)"
  unfolding sys_open_def
  by (rule post_pair post_rbind filealloc_fits | rule wp | assumption | rule fits_file | clarsimp split del: if_split | (simp; fail))+

lemma fits_init [simp]: "fits e X p o' (st\<lparr>pipes := a, mach := initlock l nm ((mach st)\<lparr>ph := s\<rparr>)\<rparr>) = fits e X p o' st"
  by (simp add: fits_def balance_def slots_def me_def myproc_def initlock_def)

lemma kalloc_fits:
  assumes "fits e X p o' st" and "\<And>a s. fits e X p o' (st\<lparr>mach := (mach st)\<lparr>ph := s\<rparr>\<rparr>) \<Longrightarrow> post Q (g a s)"
  shows "post Q (case kalloc (ph (mach st)) of (a, s) \<Rightarrow> g a s)"
  using assms by (cases "kalloc (ph (mach st))") simp

lemma pipealloc_fits [wp]:
  assumes "fits e X p o' st" and "\<And>st. fits e X p o' st \<Longrightarrow> Q (None, st)"
    and "\<And>f0 f1 st. f0 < NFILE \<Longrightarrow> f1 < NFILE \<Longrightarrow> fits (owe f1 (owe f0 e)) X p o' st \<Longrightarrow> Q (Some (f0, f1), st)"
  shows "post Q (pipealloc st)"
  unfolding pipealloc_def
  by (rule post_pair post_rbind filealloc_fits kalloc_fits assms | rule wp | assumption | rule fits_file
      | clarsimp simp: set_pipe_end_def split del: if_split | (simp; fail))+

lemma close_both_fits [wp]:
  "fits (owe w (owe r (\<lambda>_. 0))) {} p o' st \<Longrightarrow> post ok_sys (close_both r w st)"
  unfolding close_both_def by (rule post_pair post_rbind | rule wp | assumption | clarsimp split del: if_split)+

lemma pipe_undo_fits:
  assumes "fits (\<lambda>_. 0) {} p o' st" and "o' a = Some r" and "o' b = Some w" and "a \<noteq> b"
  shows "post ok_sys (rbind (fdfree a st) (\<lambda>st. rbind (fdfree b st) (close_both r w)))"
proof (intro post_rbind fdfree_fits [OF assms(1,2)], goal_cases)
  case (1 st)
  show ?case
    using assms(3,4) by (intro fdfree_fits [OF 1]) (auto intro: close_both_fits)
qed

lemma pipe_slots: "(if a = b then Some r else q) = None \<Longrightarrow> b \<noteq> a"
  by (auto split: if_splits)

lemma sys_pipe_fits: "fits (\<lambda>_. 0) {} p o' st \<Longrightarrow> post ok_sys (sys_pipe st)"
  unfolding sys_pipe_def
  by (rule pipe_undo_fits | assumption | rule post_pair post_rbind | rule wp
     | clarsimp simp: owe_commute split del: if_split | (drule pipe_slots; simp; fail) | (simp; fail))+


section \<open>exec\<close>

lemma loadseg_fits [THEN post_mono2, wp]:
  "fits e X p o' st \<Longrightarrow> post (\<lambda>(_, st). fits e X p o' st) (loadseg pt va ip off i sz st)"
proof (induction "sz - i" arbitrary: i st rule: less_induct)
  case less
  show ?case
    using less(2) by (subst loadseg.simps)
      (rule post_pair post_rbind | rule wp less(1) | assumption | clarsimp split del: if_split | (simp; fail))+
qed

lemma load_segments_fits [THEN post_mono2, wp]:
  "fits e X p o' st \<Longrightarrow> post (\<lambda>(_, st). fits e X p o' st) (load_segments pt ip k off sz st)"
proof (induction k arbitrary: off sz st)
  case (Suc k)
  show ?case
    unfolding load_segments.simps using Suc(2)
    by - (rule post_pair post_rbind | rule wp Suc(1) | assumption | clarsimp split del: if_split)+
qed (auto intro!: post_Ok)

lemma push_args_fits [THEN post_mono2, wp]:
  "fits e X p o' st \<Longrightarrow> post (\<lambda>(_, st). fits e X p o' st) (push_args pt base argv sp us st)"
proof (induction argv arbitrary: sp us st)
  case (Cons a argv)
  show ?case
    unfolding push_args.simps using Cons(2)
    by - (rule post_pair post_rbind | rule wp Cons(1) | assumption | clarsimp split del: if_split)+
qed (auto intro!: post_Ok)

lemma exec_bad_fits [THEN post_mono2, wp]:
  "fits e X p o' st \<Longrightarrow> post (\<lambda>(_, st). fits e X p o' st) (exec_bad pt sz ip st)"
  unfolding exec_bad_def by (rule post_pair post_rbind | rule wp | assumption | clarsimp split del: if_split)+

lemma fits_upd_proc:
  assumes "fits e X p o' st" and "\<And>r. p_ofile (g r) = p_ofile r" and "\<And>r. p_state (g r) = p_state r"
  shows "fits e X p o' (st\<lparr>mach := upd_proc q g ((mach st)\<lparr>ph := s\<rparr>)\<rparr>)"
  using assms by (intro fits_still still_upd_proc) auto

lemma exec_stack_fits [THEN post_mono2, wp]:
  "fits e X p o' st \<Longrightarrow> post (\<lambda>(_, st). fits e X p o' st) (exec_stack pt sz start path argv st)"
  unfolding exec_stack_def
  by (rule post_pair post_rbind post_Let | rule wp | rule fits_upd_proc | assumption | clarsimp split del: if_split)+

lemma exec_fits [THEN post_mono2, wp]:
  "fits e X p o' st \<Longrightarrow> post (\<lambda>(_, st). fits e X p o' st) (exec path argv st)"
  unfolding exec_def by (rule post_pair post_rbind | rule wp | assumption | clarsimp split del: if_split)+

lemma exec_args_fits [THEN post_mono2, wp]:
  "fits e X p o' st \<Longrightarrow> post (\<lambda>(_, st). fits e X p o' st) (exec_args uargv k argv st)"
proof (induction k arbitrary: argv st)
  case (Suc k)
  show ?case
    unfolding exec_args.simps using Suc(2)
    by - (rule post_pair post_rbind kalloc_fits | rule wp Suc(1) | assumption | clarsimp split del: if_split)+
qed (auto intro!: post_Ok)

lemma free_args_fits [THEN post_mono, wp]: "fits e X p o' st \<Longrightarrow> post (fits e X p o') (free_args argv st)"
proof (induction argv arbitrary: st)
  case (Cons a argv)
  then show ?case
    by (cases a) (auto intro!: post_rbind wp)
qed (auto intro!: post_Ok)

lemma sys_exec_fits: "fits (\<lambda>_. 0) {} p o' st \<Longrightarrow> post ok_sys (sys_exec st)"
  unfolding sys_exec_def by (rule post_pair post_rbind | rule wp | assumption | clarsimp split del: if_split)+


section \<open>Other system calls\<close>

lemma kprint_fits [THEN post_mono, wp]: "fits e X p o' st \<Longrightarrow> post (fits e X p o') (kprint fmt ap st)"
  unfolding kprint_def
  by (rule post_rbind, rule kprintf_still [OF still_refl]) (auto intro!: post_Ok fits_still)

lemma may_switch_fits:
  assumes "fits (\<lambda>_. 0) {} p o' st"
    and "post (\<lambda>x. case x of Inl (_, m) \<Rightarrow> still (mach st) m | Inr m \<Rightarrow> still (mach st) m) r"
  shows "post ok_sys (may_switch r st)"
  unfolding may_switch_def
  by (rule post_rbind, rule post_mono [OF assms(2)]) (auto simp: ret_def intro!: post_Ok fits_still [OF assms(1)] split: sum.splits)

lemma process_calls_fits:
  assumes "fits (\<lambda>_. 0) {} p o' st"
  shows "post ok_sys (sys_wait st)" "post ok_sys (sys_setpriority st)" "post ok_sys (sys_setscheduler st)"
    "post ok_sys (sys_sleep st)"
  using assms
  by (auto simp: sys_wait_def sys_setpriority_def sys_setscheduler_def sys_sleep_def Let_def
      intro!: post_rbind wp may_switch_fits wait_still setpriority_still setscheduler_still)

lemma other_calls_fits:
  assumes "fits (\<lambda>_. 0) {} p o' st"
  shows "post ok_sys (sys_getpid st)" "post ok_sys (sys_getppid st)" "post ok_sys (sys_kbdint st)"
    "post ok_sys (sys_countsyscall st)" "post ok_sys (sys_shutdown st)" "post ok_sys (sys_datetime st)"
    "post ok_sys (sys_sbrk st)" "post ok_sys (sys_kill st)" "post ok_sys (sys_uptime st)"
    "post ok_sys (sys_getptable pad st)" "post ok_sys (sys_rand st)"
  using assms
  by (auto simp: sys_getpid_def sys_getppid_def sys_kbdint_def sys_countsyscall_def sys_shutdown_def
      sys_datetime_def sys_sbrk_def sys_kill_def sys_uptime_def sys_getptable_def sys_rand_def Let_def
      intro!: post_rbind wp)

lemma print_active_fits [THEN post_mono, wp]: "fits e X p o' st \<Longrightarrow> post (fits e X p o') (print_active k n st)"
  by (induction n arbitrary: k st) (auto simp: Let_def intro!: post_rbind wp)

lemma sys_getmetrics_fits: "fits (\<lambda>_. 0) {} p o' st \<Longrightarrow> post ok_sys (sys_getmetrics st)"
  by (auto simp: sys_getmetrics_def intro!: post_rbind wp)


section \<open>fork and exit\<close>

lemma fits_more: "fits e {} p o' st \<Longrightarrow> fits e X p o' st"
  by (auto simp: fits_def balance_def)

lemma fits_set_other:
  assumes "fits e X p o' st" and "q \<noteq> p" and "q \<in> X" and "q < NPROC" and "fd < NOFILE" and "f < NFILE"
    and "p_ofile (procs (mach st) q) fd = None"
  shows "fits (paid f e) X p o' (set_fd q fd (Some f) st)"
  using assms balance_set_fd(1) [of e X st q fd f] by (auto simp: fits_def set_fd_ofile)

lemma fork_files_fits:
  assumes "fits (\<lambda>_. 0) {q} p o' st" and "q \<noteq> p" and "q < NPROC" and "i + n \<le> NOFILE"
    and "\<forall>fd \<ge> i. p_ofile (procs (mach st) q) fd = None"
  shows "post (fits (\<lambda>_. 0) {q} p o') (fork_files p q i n st)"
  using assms
proof (induction n arbitrary: i st)
  case (Suc n)
  have o': "p_ofile (procs (mach st) p) = o'"
    using Suc(2) by (simp add: fits_def)
  show ?case
  proof (cases "o' i")
    case None
    then show ?thesis
      using Suc(1) [of st "Suc i"] Suc(2-6) o' by simp
  next
    case (Some f)
    then have f: "f < NFILE"
      using Suc(2) o' by (auto simp: fits_def balance_def)
    let ?st = "upd_file f (\<lambda>x. x\<lparr>f_ref := f_ref x + 1\<rparr>) st"
    have "post (fits (\<lambda>_. 0) {q} p o') (fork_files p q (Suc i) n (set_fd q i (Some f) ?st))"
      if "filedup f st = Ok ?st"
    proof (rule Suc(1))
      have "fits (owe f (\<lambda>_. 0)) {q} p o' ?st"
        using filedup_fits [OF Suc(2), of f] that by (rule postD) simp
      from fits_set_other [OF this, of q i f] show "fits (\<lambda>_. 0) {q} p o' (set_fd q i (Some f) ?st)"
        using Suc(3-6) f by (simp add: upd_file_def)
    qed (use Suc(3-6) in \<open>auto simp: set_fd_ofile upd_file_def\<close>)
    then show ?thesis
      using Some o' by (auto simp: set_fd_def filedup_def)
  qed
qed (auto intro!: post_Ok)

lemma exit_files_fits:
  assumes "fits (\<lambda>_. 0) {} p o' st" and "fd + n = NOFILE" and "\<forall>k < fd. o' k = None"
  shows "post (fits (\<lambda>_. 0) {} p (\<lambda>_. None)) (exit_files p fd n st)"
  using assms
proof (induction n arbitrary: fd o' st)
  case 0
  have "k < NOFILE" if "o' k = Some f" for k f
    using 0(1) that unfolding fits_def balance_def by blast
  then have "o' k = None" for k
    using 0(2,3) by (metis add.right_neutral not_Some_eq)
  then have "o' = (\<lambda>_. None)"
    by auto
  then show ?case
    using 0 by (auto intro!: post_Ok)
next
  case (Suc n)
  have o': "p_ofile (procs (mach st) p) = o'"
    using Suc(2) by (simp add: fits_def)
  show ?case
  proof (cases "o' fd")
    case None
    have "post (fits (\<lambda>_. 0) {} p (\<lambda>_. None)) (exit_files p (Suc fd) n st)"
      using Suc(2,3,4) None less_Suc_eq by (intro Suc(1) [of o']) auto
    then show ?thesis
      using None o' by simp
  next
    case (Some f)
    have "f < NFILE" "fd < NOFILE"
      using Suc(2) Some by (auto simp: fits_def balance_def)
    then have step: "fits (\<lambda>_. 0) {} p (o'(fd := None)) (set_fd p fd None st')" if "fits (paid f (\<lambda>_. 0)) {} p o' st'" for st'
      using fits_set_fd(2) [OF that _ _ Some] by simp
    have "post (fits (\<lambda>_. 0) {} p (\<lambda>_. None)) (rbind (fileclose f st) (\<lambda>st. exit_files p (Suc fd) n (set_fd p fd None st)))"
      using Suc(3,4) by (intro post_rbind fileclose_fits [OF Suc(2)] Suc(1) [OF step]) (auto simp: less_Suc_eq)
    then show ?thesis
      using Some o' by (simp add: set_fd_def)
  qed
qed

lemma buried_fields:
  "p_ofile (procs (buried p m) q) = p_ofile (procs m q)"
  "p_state (procs (buried p m) q) = (if q = p then ZOMBIE else p_state (procs m q))"
  by (simp_all add: buried_def upd_proc_def)

lemma sys_exit_fits:
  assumes "fits (\<lambda>_. 0) {} p o' st"
  shows "post ok_sys (sys_exit st)"
proof -
  have "ok_sys (None, st'\<lparr>mach := m\<rparr>)" if "fits (\<lambda>_. 0) {} p (\<lambda>_. None) st'" "still (buried p (mach st')) m" for st' m
  proof -
    have "balance (\<lambda>_. 0) {} (st'\<lparr>mach := buried p (mach st')\<rparr>)"
      using that(1) by (auto simp: fits_def balance_def slots_def buried_fields)
    from balance_still [OF this] show ?thesis
      using that(2) by (simp add: ok_sys_def files_ok_balance)
  qed
  note bury = this
  have last: "post (\<lambda>st. ok_sys (None, st)) (on_mach (exit_final i p status) st')"
    if "fits (\<lambda>_. 0) {} p (\<lambda>_. None) st'" for i status st'
    unfolding on_mach_def by (rule post_rbind, rule exit_final_still [OF still_refl]) (auto intro!: post_Ok bury [OF that])
  show ?thesis
    unfolding sys_exit_def exit_def using assms
    by - (rule post_pair post_rbind last [THEN post_mono] exit_files_fits [THEN post_mono] | rule wp exit_metrics_still still_refl fits_upd_me | assumption
      | clarsimp split del: if_split | (simp; fail))+
qed


lemma fits_born:
  assumes "fits e {q} p o' st" and "\<And>r. p_ofile (procs m r) = p_ofile (procs (mach st) r)"
    and "\<And>r. dead (p_state (procs m r)) \<Longrightarrow> r \<noteq> q \<and> dead (p_state (procs (mach st) r))"
    and "\<And>i. cproc (cpus m i) = cproc (cpus (mach st) i)"
  shows "fits e {} p o' (st\<lparr>mach := m\<rparr>)"
proof -
  have "slots f (st\<lparr>mach := m\<rparr>) = slots f st" for f
    by (simp add: slots_def assms(2))
  moreover have "me (st\<lparr>mach := m\<rparr>) = me st"
    by (simp add: me_def myproc_def assms(4))
  ultimately show ?thesis
    using assms(1,3) by (auto simp: fits_def balance_def assms(2))
qed

text \<open>The last steps of \<^verbatim>\<open>fork\<close>: the parent and the state of the child, each under its lock.\<close>

lemma fork_end_fits:
  assumes "fits (\<lambda>_. 0) {q} p o' st"
  shows "post (\<lambda>(r, st). fits (\<lambda>_. 0) {} p o' st)
    (rbind (release i (PLock q) (mach st)) (\<lambda>m.
     rbind (acquire i WaitLock m) (\<lambda>m.
     rbind (release i WaitLock (upd_proc q (\<lambda>r. r\<lparr>p_parent := Some p'\<rparr>) m)) (\<lambda>m.
     rbind (acquire i (PLock q) m) (\<lambda>m.
     rbind (release i (PLock q) (upd_proc q (\<lambda>r. r\<lparr>p_state := RUNNABLE, p_last_runnable_time := ticks m\<rparr>) m)) (\<lambda>m.
     Ok (pid, st\<lparr>mach := m\<rparr>)))))))"
proof -
  have "post (\<lambda>(r, st). fits (\<lambda>_. 0) {} p o' st)
      (rbind (release i (PLock q) (upd_proc q (\<lambda>r. r\<lparr>p_state := RUNNABLE, p_last_runnable_time := ticks m\<rparr>) m)) (\<lambda>m.
       Ok (pid, st\<lparr>mach := m\<rparr>)))" if "still (mach st) m" for m
  proof -
    let ?m = "upd_proc q (\<lambda>r. r\<lparr>p_state := RUNNABLE, p_last_runnable_time := ticks m\<rparr>) m"
    have "fits (\<lambda>_. 0) {} p o' (st\<lparr>mach := m, mach := ?m\<rparr>)"
    proof (rule fits_born [OF fits_still [OF assms that]])
      show "dead (p_state (procs ?m r)) \<Longrightarrow> r \<noteq> q \<and> dead (p_state (procs (mach (st\<lparr>mach := m\<rparr>)) r))" for r
        by (simp split: if_splits)
    qed simp_all
    then have "fits (\<lambda>_. 0) {} p o' (st\<lparr>mach := ?m\<rparr>)"
      by simp
    from fits_still [OF this] show ?thesis
      by (intro post_rbind release_still [OF still_refl] post_Ok) simp
  qed
  note last = this
  show ?thesis
    by (rule last | rule post_rbind acquire_still release_still | assumption | rule still_refl still_upd_proc | (simp; fail))+
qed


lemma found_slot:
  assumes "fits e {} p o' st" and "found_dead (mach st) (Some q)"
  shows "q < NPROC" "q \<noteq> p" "p_ofile (procs (mach st) q) = (\<lambda>_. None)"
  using assms by (auto simp: fits_def balance_def found_dead_def)

lemma fork_fits [THEN post_mono2, wp]:
  assumes "fits (\<lambda>_. 0) {} p o' st"
  shows "post (\<lambda>(_, st). fits (\<lambda>_. 0) {} p o' st) (fork st)"
proof -
  have files: "post (fits (\<lambda>_. 0) {q} p o') (fork_files p q 0 NOFILE (st\<lparr>mach := upd_proc q (\<lambda>r. r\<lparr>p_sz := sz\<rparr>) (m\<lparr>ph := s\<rparr>)\<rparr>))"
    if "found_dead (mach st) (Some q)" "still (mach st) m" for q m s sz
  proof (rule fork_files_fits)
    have "fits (\<lambda>_. 0) {} p o' (st\<lparr>mach := upd_proc q (\<lambda>r. r\<lparr>p_sz := sz\<rparr>) (m\<lparr>ph := s\<rparr>)\<rparr>)"
      using that(2) by (intro fits_still [OF assms] still_upd_proc) simp_all
    then show "fits (\<lambda>_. 0) {q} p o' (st\<lparr>mach := upd_proc q (\<lambda>r. r\<lparr>p_sz := sz\<rparr>) (m\<lparr>ph := s\<rparr>)\<rparr>)"
      by (rule fits_more)
  qed (use found_slot [OF assms that(1)] that(2) in \<open>auto simp: still_def\<close>)
  show ?thesis
    unfolding fork_def idup_def using assms
    by - (rule fork_end_fits files [THEN post_mono] | rule post_pair post_rbind post_Let | rule wp | assumption
      | clarsimp split del: if_split | rule fits_upd_me fits_still still_refl | (simp add: found_dead_def; fail))+
qed

lemma sys_fork_fits: "fits (\<lambda>_. 0) {} p o' st \<Longrightarrow> post ok_sys (sys_fork st)"
  by (auto simp: sys_fork_def intro!: post_rbind wp)

section \<open>The dispatcher\<close>

lemmas all_calls_fits = sys_fork_fits sys_exit_fits sys_pipe_fits sys_read_fits sys_exec_fits sys_fstat_fits
  sys_chdir_fits sys_dup_fits sys_open_fits sys_write_fits sys_mknod_fits sys_unlink_fits sys_link_fits
  sys_mkdir_fits sys_close_fits process_calls_fits other_calls_fits sys_getmetrics_fits

lemma call_fits: "g \<in> set (syscalls pad) \<Longrightarrow> fits (\<lambda>_. 0) {} p o' st \<Longrightarrow> post ok_sys (g st)"
  unfolding syscalls_def by (auto intro: all_calls_fits)

lemma files_ok_ph [simp]: "files_ok (st\<lparr>mach := (mach st)\<lparr>ph := s\<rparr>\<rparr>) = files_ok st"
  by (simp add: files_ok_def slots_def)

lemma fits_files: "fits (\<lambda>_. 0) {} p o' st \<Longrightarrow> files_ok st"
  by (simp add: fits_def files_ok_balance)

lemma unat_positive: "0 \<le> sint num \<Longrightarrow> unat num = nat (sint num)" for num :: c_int
proof -
  assume "0 \<le> sint num"
  moreover have "uint num = sint num mod 2 ^ 32"
    using uint_word_of_int [of "sint num", where 'a = 32] by simp
  moreover have "sint num < 2 ^ 31"
    using sint_range_size [of num] by (simp add: word_size)
  ultimately show ?thesis
    by (simp add: unat_eq_nat_uint)
qed

lemma syscall_files:
  assumes "fits (\<lambda>_. 0) {} p o' st"
  shows "post (\<lambda>(_, st). files_ok st) (syscall pad st)"
proof -
  let ?st = "st\<lparr>total_syscalls := total_syscalls st + 1\<rparr>"
  have "post ok_sys ((syscalls pad ! (unat num - 1)) ?st)"
    if "0 <s num" "num <s of_nat (Suc (length (syscalls pad)))" for num :: c_int
  proof (rule call_fits)
    have "unat num \<le> length (syscalls pad)" "0 < unat num"
      using that unat_positive [of num] by (simp_all add: word_sless_alt syscalls_def)
    then show "syscalls pad ! (unat num - 1) \<in> set (syscalls pad)"
      by simp
  qed (use assms in simp)
  note call = this
  have unknown: "post (\<lambda>(_, st). files_ok st) (rbind (kprint fmt ap st) (\<lambda>st. Ok (True, set_a0 p v st)))" for fmt ap v
    using assms by (auto simp: set_a0_def Let_def intro!: post_rbind wp intro: fits_files)
  show ?thesis
    unfolding syscall_def Let_def
  proof (rule post_rbind, rule me_fits [OF assms], rule post_if)
    fix num :: c_int
    assume "0 <s num \<and> num <s of_nat (Suc (length (syscalls pad)))"
    then show "post (\<lambda>(_, st). files_ok st) (rbind ((syscalls pad ! (unat num - 1)) ?st)
        (\<lambda>(r, st). case r of None \<Rightarrow> Ok (False, st) | Some v \<Rightarrow> Ok (True, set_a0 p v st)))"
      by (intro post_rbind post_mono [OF call])
        (auto simp: ok_sys_def set_a0_def Let_def intro!: post_Ok split: option.split)
  qed (rule unknown)
qed

text \<open>
  Claim C1: the reference counts of open files are exact. When each count is the number of descriptors that
  refer to the file and slots without a live process have no descriptors, every system call of a running
  process that comes to its end or to a switch leaves it so. No file with a descriptor has a count below
  one, which is what \<^verbatim>\<open>filedup\<close> and \<^verbatim>\<open>fileclose\<close> panic about, and no count can wrap around.
\<close>

theorem syscall_keeps_file_counts:
  assumes "files_ok st" and "me st = Ok p" and "p < NPROC" and "p_state (procs (mach st) p) = RUNNING"
    and "syscall pad st = Ok (b, st')"
  shows "files_ok st' \<and>
    (\<forall>q fd f. p_ofile (procs (mach st') q) fd = Some f \<longrightarrow>
       f < NFILE \<and> \<not> f_ref (ftab st' f) <s 1 \<and> unat (f_ref (ftab st' f)) \<le> NPROC * NOFILE)"
proof -
  have "fits (\<lambda>_. 0) {} p (p_ofile (procs (mach st) p)) st"
    using assms(1-4) by (simp add: fits_def files_ok_balance)
  from postD [OF syscall_files [OF this] assms(5)] have ok: "files_ok st'"
    by simp
  have "f < NFILE \<and> \<not> f_ref (ftab st' f) <s 1 \<and> unat (f_ref (ftab st' f)) \<le> NPROC * NOFILE"
    if "p_ofile (procs (mach st') q) fd = Some f" for q fd f
  proof -
    have f: "f < NFILE" "(q, fd) \<in> slots f st'"
      using files_okD(1) [OF ok that] that by (simp_all add: slots_def)
    then have "0 < card (slots f st')"
      by (auto simp: card_gt_0_iff)
    then have u: "0 < unat (f_ref (ftab st' f))" "unat (f_ref (ftab st' f)) \<le> 1024"
      using files_okD(2) [OF ok f(1)] slots_bound [of f st'] by simp_all
    have "sint (f_ref (ftab st' f)) = int (unat (f_ref (ftab st' f)))"
      using u(2) by (intro sint_small) simp
    moreover have "sint (1 :: c_int) = 1"
      by simp
    ultimately have "\<not> f_ref (ftab st' f) <s 1"
      unfolding word_sless_alt using u(1) by linarith
    then show ?thesis
      using u f(1) by (simp add: NPROC_def NOFILE_def)
  qed
  then show ?thesis
    using ok by blast
qed

text \<open>A process with one open file that calls \<^verbatim>\<open>dup(0)\<close>.\<close>

definition demo_file :: ofile where
  "demo_file = \<lparr>f_type = FD_NONE, f_ref = 0, f_readable = False, f_writable = False, f_pipe = 0, f_ip = None,
     f_off = 0, f_major = 0\<rparr>"

definition demo_console :: devs where
  "demo_console = \<lparr>tx_buf = (\<lambda>_. 0), tx_w = 0, tx_r = 0, lsr = [], sent = [], rx = [], panicked = False,
     pr_locking = True, cons_buf = (\<lambda>_. 0), cons_r = 0, cons_w = 0, cons_e = 0, kbd_intr_count = 0\<rparr>"

definition demo_kern :: kern where
  "demo_kern = \<lparr>bufs = (\<lambda>_. zero_buf), lru = [0..<NBUF], disk = (\<lambda>_ _. 0), dwrites = [], curpid = 9,
     lg_start = 2, lg_size = 30, lg_outstanding = 0, lg_committing = False, lg_dev = 1, lg_n = 0, lg_block = (\<lambda>_. 0),
     sb = get_sb (\<lambda>_. 0),
     itab = (\<lambda>_. \<lparr>i_dev = 0, i_inum = 0, i_ref = 0, i_lock = initsleeplock ''inode'', i_valid = False, i_type = 0,
       i_major = 0, i_minor = 0, i_nlink = 0, i_size = 0, i_addrs = (\<lambda>_. 0)\<rparr>),
     mach = demo_writer\<lparr>procs := demo_procs(2 := (demo_proc RUNNING 1 10 9)\<lparr>p_trapframe := 0x1000,
         p_ofile := (\<lambda>_. None)(0 := Some 3)\<rparr>),
       ph := tf_set (tf_set demo_phys 0x1000 TF_a0 0) 0x1000 TF_a7 10\<rparr>,
     hart = 0, ftab = (\<lambda>_. demo_file)(3 := demo_file\<lparr>f_type := FD_DEVICE, f_ref := 1\<rparr>),
     pipes = (\<lambda>_. \<lparr>pi_data = (\<lambda>_. 0), pi_nread = 0, pi_nwrite = 0, pi_readopen = False, pi_writeopen = False\<rparr>),
     devices = demo_console, total_syscalls = 0, rand_seed = 1, time_csr = 0, boot_epoch = 0, forkret_first = False\<rparr>"

lemma demo_kern_slots: "slots f demo_kern = (if f = 3 then {(2, 0)} else {})"
  by (auto simp: slots_def demo_kern_def demo_procs_def demo_proc_def NPROC_def NOFILE_def split: if_splits)

lemma demo_kern_ok: "files_ok demo_kern"
proof -
  have "unat (f_ref (ftab demo_kern f)) = card (slots f demo_kern)" for f
    unfolding demo_kern_slots by (simp add: demo_kern_def demo_file_def)
  then show ?thesis
    by (auto simp: files_ok_def demo_kern_def demo_procs_def demo_proc_def NPROC_def NOFILE_def NFILE_def split: if_splits)
qed

lemma demo_kern_me: "me demo_kern = Ok 2" "p_state (procs (mach demo_kern) 2) = RUNNING"
  by (simp_all add: demo_kern_def me_def myproc_def demo_writer_def demo_proc_def)

lemma demo_kern_regs:
  "tf_get (ph (mach demo_kern)) 0x1000 TF_a7 = 10" "tf_get (ph (mach demo_kern)) 0x1000 TF_a0 = 0"
  "p_trapframe (procs (mach demo_kern) 2) = 0x1000" "p_ofile (procs (mach demo_kern) 2) = (\<lambda>_. None)(0 := Some 3)"
  "f_ref (ftab demo_kern 3) = 1"
  by (simp_all add: demo_kern_def tf_get_set_other apart_def TF_a7_def TF_a0_def demo_proc_def)

lemma demo_kern_dup: "\<exists>st'. sys_dup (demo_kern\<lparr>total_syscalls := n\<rparr>) = Ok (Some 1, st') \<and> f_ref (ftab st' 3) = 2"
proof -
  let ?st = "demo_kern\<lparr>total_syscalls := n\<rparr>"
  have me: "me ?st = Ok 2"
    using demo_kern_me(1) by (simp add: me_def)
  have "argfd 0 ?st = Ok (Some (0, 3))"
    by (simp add: argfd_def argint_def argraw_def me demo_kern_regs NOFILE_def word_sless_alt word_sle_eq)
  moreover have "find (\<lambda>fd. ((\<lambda>_. None)(0 := Some (3 :: nat))) fd = None) [0..<NOFILE] = Some 1"
    unfolding NOFILE_def by code_simp
  then have "fdalloc 3 ?st = Ok (1, upd_me 2 (\<lambda>q. q\<lparr>p_ofile := (p_ofile q)(1 := Some 3)\<rparr>) ?st)"
    by (simp add: fdalloc_def me demo_kern_regs)
  ultimately show ?thesis
    by (simp add: sys_dup_def filedup_def upd_me_def upd_file_def demo_kern_regs ret_def word_sless_alt)
qed

theorem syscall_keeps_file_counts_witness:
  "\<exists>st'. syscall [] demo_kern = Ok (True, st') \<and> files_ok st' \<and> f_ref (ftab st' 3) = 2"
proof -
  obtain st' where "sys_dup (demo_kern\<lparr>total_syscalls := total_syscalls demo_kern + 1\<rparr>) = Ok (Some 1, st')"
      "f_ref (ftab st' 3) = 2"
    using demo_kern_dup by blast
  then have "syscall [] demo_kern = Ok (True, set_a0 2 1 st')" "f_ref (ftab (set_a0 2 1 st') 3) = 2"
    by (simp_all add: syscall_def demo_kern_me demo_kern_regs word_sless_alt syscalls_def set_a0_def Let_def)
  then show ?thesis
    using syscall_keeps_file_counts [OF demo_kern_ok demo_kern_me(1) _ demo_kern_me(2), of "[]"]
    by (auto simp: NPROC_def)
qed

end
