(* ===== verification/Xv6_User_Lib.thy ===== *)
theory Xv6_User_Lib
  imports Xv6_Mem Xv6_Printf
begin

text \<open>
  The library of the user programs, \<^verbatim>\<open>user/ulib.c\<close> and \<^verbatim>\<open>user/printf.c\<close>, and the random numbers of
  \<^verbatim>\<open>user/grind.c\<close>. Functions that write through pointers work on a byte memory, the others on strings as the
  lists of their bytes before the NUL. Plain \<^verbatim>\<open>char\<close> is unsigned on this machine. Names that the kernel's string
  functions have too carry the suffix \<open>_u\<close>.
\<close>

section \<open>Strings\<close>

partial_function (option) strcpy_from :: "mem \<Rightarrow> nat \<Rightarrow> nat \<Rightarrow> mem option" where
  "strcpy_from m s t =
     (let m' = m(s := m t) in if m t = 0 then Some m' else strcpy_from m' (Suc s) (Suc t))"

definition strcpy :: "mem \<Rightarrow> nat \<Rightarrow> nat \<Rightarrow> mem option" where
  "strcpy m s t = strcpy_from m s t"

fun strcmp :: "u8 list \<Rightarrow> u8 list \<Rightarrow> c_int" where
  "strcmp (c # p) (d # q) = (if c = d then strcmp p q else ucast c - ucast d)"
| "strcmp (c # p) [] = ucast c"
| "strcmp [] (d # q) = - ucast d"
| "strcmp [] [] = 0"

fun strlen_u :: "u8 list \<Rightarrow> u32" where
  "strlen_u [] = 0"
| "strlen_u (c # s) = strlen_u s + 1"

text \<open>\<^verbatim>\<open>strchr\<close>: the rest of the string from the character on, or the null pointer.\<close>

fun strchr :: "u8 list \<Rightarrow> u8 \<Rightarrow> u8 list option" where
  "strchr [] c = None"
| "strchr (d # s) c = (if d = c then Some (d # s) else strchr s c)"

text \<open>
  \<^verbatim>\<open>gets\<close>: the input is what the reads of one byte will deliver; the result is the string in the
  buffer and the input that is left. \<open>n\<close> is the space before the NUL.
\<close>

fun gets_from :: "nat \<Rightarrow> u8 list \<Rightarrow> u8 list \<Rightarrow> u8 list \<times> u8 list" where
  "gets_from 0 buf inp = (buf, inp)"
| "gets_from (Suc n) buf [] = (buf, [])"
| "gets_from (Suc n) buf (c # inp) =
     (if c = 10 \<or> c = 13 then (buf @ [c], inp) else gets_from n (buf @ [c]) inp)"

definition gets :: "c_int \<Rightarrow> u8 list \<Rightarrow> u8 list \<times> u8 list" where
  "gets mx inp = gets_from (nat (sint mx - 1)) [] inp"

text \<open>\<^verbatim>\<open>atoi\<close> on the characters of the string; the arithmetic is that of the machine.\<close>

fun atoi_from :: "c_int \<Rightarrow> u8 list \<Rightarrow> c_int" where
  "atoi_from n [] = n"
| "atoi_from n (c # s) = (if 48 \<le> c \<and> c \<le> 57 then atoi_from (n * 10 + ucast c - 48) s else n)"

definition atoi :: "u8 list \<Rightarrow> c_int" where
  "atoi s = atoi_from 0 s"

section \<open>Memory\<close>

definition memset_u :: "mem \<Rightarrow> nat \<Rightarrow> c_int \<Rightarrow> u32 \<Rightarrow> mem" where
  "memset_u m dst c n = memset_from m dst (ucast c) (unat n)"

definition memmove_u :: "mem \<Rightarrow> nat \<Rightarrow> nat \<Rightarrow> c_int \<Rightarrow> mem" where
  "memmove_u m dst src n =
     (let k = nat (sint n) in
      if dst < src then copy_fwd m dst src k else copy_bwd m (dst + k) (src + k) k)"

definition memcmp_u :: "mem \<Rightarrow> nat \<Rightarrow> nat \<Rightarrow> u32 \<Rightarrow> c_int" where
  "memcmp_u m s1 s2 n = memcmp_from m s1 s2 (unat n)"

definition memcpy_u :: "mem \<Rightarrow> nat \<Rightarrow> nat \<Rightarrow> u32 \<Rightarrow> mem" where
  "memcpy_u m dst src n = memmove_u m dst src n"

section \<open>printf\<close>

definition digits_u :: "u8 list" where "digits_u = str ''0123456789ABCDEF''"

function print_digits_u :: "u32 \<Rightarrow> u32 \<Rightarrow> u8 list \<Rightarrow> u8 list res" where
  "print_digits_u x base buf =
     (if base < 2 then Stuck
      else
        rbind (put_buf buf (digits_u ! unat (x mod base))) (\<lambda>buf.
          if x div base = 0 then Ok buf else print_digits_u (x div base) base buf))"
  by pat_completeness auto
termination
proof (relation "measure (\<lambda>(x, base, buf). unat x)", goal_cases)
  case (2 x base buf buf')
  then have b: "2 \<le> unat base"
    by (simp add: word_less_nat_alt)
  have "unat (x div base) = unat x div unat base"
    by (simp add: unat_div)
  moreover have "0 < unat x"
    using 2(3) by (cases "x = 0") (auto simp: unat_gt_0)
  ultimately show ?case
    using b by simp
qed simp

declare print_digits_u.simps [simp del]

definition printint_u :: "c_int \<Rightarrow> u32 \<Rightarrow> bool \<Rightarrow> u8 list res" where
  "printint_u xx base sg =
     (let neg = (sg \<and> xx <s 0);
          x = (if neg then - xx else xx)
      in rbind (print_digits_u x base []) (\<lambda>buf.
         rbind (if neg then put_buf buf (chr CHR ''-'') else Ok buf) (\<lambda>buf.
         Ok (rev buf))))"

fun ptr_digits_u :: "nat \<Rightarrow> u64 \<Rightarrow> u8 list" where
  "ptr_digits_u 0 x = []"
| "ptr_digits_u (Suc n) x = digits_u ! unat (drop_bit 60 x) # ptr_digits_u n (push_bit 4 x)"

definition printptr_u :: "u64 \<Rightarrow> u8 list" where
  "printptr_u x = str ''0x'' @ ptr_digits_u 16 x"

text \<open>
  The conversion after a \<^verbatim>\<open>%\<close>: the output, the rest of the format and of the arguments. Every integer
  goes through the \<^verbatim>\<open>int\<close> parameter of \<^verbatim>\<open>printint\<close>, the 64-bit ones too.
\<close>

definition fmt_int_u :: "varg list \<Rightarrow> u32 \<Rightarrow> bool \<Rightarrow> u8 list \<Rightarrow> (u8 list \<times> u8 list \<times> varg list) res" where
  "fmt_int_u ap base sg fmt =
     (case ap of VInt x # ap \<Rightarrow> rbind (printint_u (ucast x) base sg) (\<lambda>out. Ok (out, fmt, ap)) | _ \<Rightarrow> Stuck)"

definition conversion_u :: "u8 \<Rightarrow> u8 list \<Rightarrow> varg list \<Rightarrow> (u8 list \<times> u8 list \<times> varg list) res" where
  "conversion_u c0 fmt ap =
     (let c1 = (case fmt of [] \<Rightarrow> 0 | c # _ \<Rightarrow> c);
          c2 = (case drop 1 fmt of [] \<Rightarrow> 0 | c # _ \<Rightarrow> c);
          l = chr CHR ''l''
      in if c0 = chr CHR ''d'' then fmt_int_u ap 10 True fmt
         else if c0 = l \<and> c1 = chr CHR ''d'' then fmt_int_u ap 10 True (drop 1 fmt)
         else if c0 = l \<and> c1 = l \<and> c2 = chr CHR ''d'' then fmt_int_u ap 10 True (drop 2 fmt)
         else if c0 = chr CHR ''u'' then fmt_int_u ap 10 False fmt
         else if c0 = l \<and> c1 = chr CHR ''u'' then fmt_int_u ap 10 False (drop 1 fmt)
         else if c0 = l \<and> c1 = l \<and> c2 = chr CHR ''u'' then fmt_int_u ap 10 False (drop 2 fmt)
         else if c0 = chr CHR ''x'' then fmt_int_u ap 16 False fmt
         else if c0 = l \<and> c1 = chr CHR ''x'' then fmt_int_u ap 16 False (drop 1 fmt)
         else if c0 = l \<and> c1 = l \<and> c2 = chr CHR ''x'' then fmt_int_u ap 16 False (drop 2 fmt)
         else if c0 = chr CHR ''p'' then
           (case ap of VInt x # ap \<Rightarrow> Ok (printptr_u x, fmt, ap) | _ \<Rightarrow> Stuck)
         else if c0 = chr CHR ''s'' then
           (case ap of VStr s # ap \<Rightarrow> Ok (case s of None \<Rightarrow> str ''(null)'' | Some s \<Rightarrow> s, fmt, ap) | _ \<Rightarrow> Stuck)
         else if c0 = chr CHR ''%'' then Ok ([chr CHR ''%''], fmt, ap)
         else Ok ([chr CHR ''%'', c0], fmt, ap))"

text \<open>\<^verbatim>\<open>vprintf\<close> consumes a byte of the format in every round, so as many rounds as there are bytes are enough.\<close>

fun vprintf_from :: "nat \<Rightarrow> u8 list \<Rightarrow> varg list \<Rightarrow> u8 list res" where
  "vprintf_from n [] ap = Ok []"
| "vprintf_from 0 fmt ap = Ok []"
| "vprintf_from (Suc n) [c] ap = Ok (if c = chr CHR ''%'' then [] else [c])"
| "vprintf_from (Suc n) (c # c0 # fmt) ap =
     (if c = chr CHR ''%'' then
        rbind (conversion_u c0 fmt ap) (\<lambda>(out, fmt, ap). rbind (vprintf_from n fmt ap) (\<lambda>r. Ok (out @ r)))
      else rbind (vprintf_from n (c0 # fmt) ap) (\<lambda>r. Ok (c # r)))"

definition vprintf :: "u8 list \<Rightarrow> varg list \<Rightarrow> u8 list res" where
  "vprintf fmt ap = vprintf_from (length fmt) fmt ap"

section \<open>Random numbers\<close>

text \<open>
  \<^verbatim>\<open>do_rand\<close> of \<^verbatim>\<open>user/grind.c\<close>: the number and the new context. \<^verbatim>\<open>long\<close> has 64 bits; the two signed
  divisions have positive operands, so they are those of unsigned words.
\<close>

definition do_rand :: "u64 \<Rightarrow> c_int \<times> u64" where
  "do_rand ctx =
     (let x = ctx mod 0x7ffffffe + 1;
          hi = x div 127773;
          lo = x mod 127773;
          x = 16807 * lo - 2836 * hi;
          x = (if x <s 0 then x + 0x7fffffff else x);
          x = x - 1
      in (ucast x, x))"


section \<open>Lemmas\<close>

lemma unat_nonneg:
  assumes "0 \<le> sint (n :: c_int)"
  shows "unat n = nat (sint n)"
proof -
  have "uint n = sint n mod 2 ^ 32"
    using uint_word_of_int [of "sint n", where 'a = 32] by simp
  also have "\<dots> = sint n"
    using assms sint_lt [of n] by (intro mod_pos_pos_trivial) auto
  finally show ?thesis
    by (simp add: unat_eq_nat_uint)
qed

lemma copy_bwd_same: "copy_bwd m (d + k) (d + k) k = m"
  by (induction k) auto

lemma memmove_u_eq:
  "memmove_u m dst src n = (\<lambda>x. if dst \<le> x \<and> x < dst + nat (sint n) then m (src + (x - dst)) else m x)"
proof (cases src dst rule: linorder_cases)
  case equal
  then show ?thesis
    by (auto simp: memmove_u_def copy_bwd_same Let_def)
next
  case less
  then show ?thesis
    by (simp add: memmove_u_def copy_bwd_eq)
next
  case greater
  then show ?thesis
    by (simp add: memmove_u_def copy_fwd_eq)
qed

text \<open>
  Claim C37: \<^verbatim>\<open>memmove\<close> of the user library and \<^verbatim>\<open>memmove\<close> of the kernel, which choose the direction of the copy by
  different tests, have the same effect for every count an \<^verbatim>\<open>int\<close> holds, overlapping areas included: each byte
  of the target is the byte the source had before the call, and no other byte changes.
\<close>

theorem memmove_agree:
  "0 \<le> sint n \<Longrightarrow>
   memmove_u m dst src n = memmove m dst src n \<and>
   (\<forall>i < unat n. memmove_u m dst src n (dst + i) = m (src + i)) \<and>
   (\<forall>a. a < dst \<or> dst + unat n \<le> a \<longrightarrow> memmove_u m dst src n a = m a)"
proof -
  assume "0 \<le> sint n"
  then have "nat (sint n) = unat n"
    by (simp add: unat_nonneg)
  then show ?thesis
    by (simp add: memmove_u_eq memmove_eq)
qed

theorem memmove_agree_witness:
  "memmove_u (\<lambda>a. of_nat a) 3 1 4 = memmove (\<lambda>a. of_nat a) 3 1 (4 :: c_int) \<and>
   memmove_u (\<lambda>a. of_nat a) 3 1 4 6 = 4 \<and> memmove_u (\<lambda>a. of_nat a) 3 1 (4 :: c_int) 7 = 7"
proof -
  have "0 \<le> sint (4 :: c_int)"
    by simp
  from memmove_agree [OF this, of "\<lambda>a. of_nat a" 3 1]
  have "memmove_u (\<lambda>a. of_nat a) 3 1 4 = memmove (\<lambda>a. of_nat a) 3 1 (4 :: c_int)"
    by (rule conjunct1)
  then show ?thesis
    by (simp add: memmove_u_eq memmove_eq)
qed

subsection \<open>Numbers\<close>

text \<open>
  The digits of this printer are those of the kernel's in upper case, so its loop is the kernel's one on the
  widened number.
\<close>

definition upper :: "u8 \<Rightarrow> u8" where
  "upper c = (if 97 \<le> c \<and> c \<le> 122 then c - 32 else c)"

lemma digits_upper: "n < 16 \<Longrightarrow> digits_u ! n = upper (digits ! n)"
proof -
  have "\<forall>n \<in> set [0..<16]. digits_u ! n = upper (digits ! n)"
    by code_simp
  then show "n < 16 \<Longrightarrow> digits_u ! n = upper (digits ! n)"
    by simp
qed

lemma unat_wide: "unat (ucast (x :: u32) :: u64) = unat x"
proof -
  have "unat x < 2 ^ 64"
    using unsigned_less [of x, where 'a = nat] by simp
  then show ?thesis
    by (simp add: unsigned_ucast_eq take_bit_nat_eq_self)
qed

lemma ucast_div_mod:
  fixes x b :: u32
  shows "(ucast (x div b) :: u64) = ucast x div ucast b" and "(ucast (x mod b) :: u64) = ucast x mod ucast b"
  by (simp_all add: word_unat_eq_iff unat_div unat_mod unat_wide)

lemma print_digits_u_eq:
  assumes "2 \<le> base" "base \<le> 16"
  shows "print_digits_u x base (map upper buf) = map_res (map upper) (print_digits (ucast x) (ucast base) buf)"
  using assms
proof (induction x base "map upper buf" arbitrary: buf rule: print_digits_u.induct)
  case (1 x base)
  have b: "\<not> base < 2" "\<not> (ucast base :: u64) < 2"
    using 1(2) by (simp_all add: not_less word_le_nat_alt unat_wide)
  have "unat x mod unat base < unat base"
    using 1(2) by (simp add: word_le_nat_alt)
  then have "unat (x mod base) < 16"
    using 1(3) by (simp add: unat_mod word_le_nat_alt)
  then have d: "digits_u ! unat (x mod base) = upper (digits ! unat ((ucast x :: u64) mod ucast base))"
    by (simp add: digits_upper unat_mod unat_wide)
  have z: "(ucast x :: u64) div ucast base = 0 \<longleftrightarrow> x div base = 0"
    by (simp add: word_unat_eq_iff unat_div unat_wide)
  let ?c = "digits ! unat ((ucast x :: u64) mod ucast base)"
  have IH: "x div base \<noteq> 0 \<Longrightarrow> length buf < 16 \<Longrightarrow>
    print_digits_u (x div base) base (map upper buf @ [upper ?c]) =
    map_res (map upper) (print_digits (ucast x div ucast base) (ucast base) (buf @ [?c]))"
    using 1(1) [OF b(1), of "buf @ [?c]"] 1(2,3)
    by (simp add: put_buf_def d ucast_div_mod)
  show ?case
    using b by (subst print_digits_u.simps, subst print_digits.simps) (simp add: d z put_buf_def IH)
qed

lemma print_digits_u_10:
  "print_digits_u x 10 [] = Ok (rev (map upper (nat_string 10 (unat x))))"
  "print_digits_u x 16 [] = Ok (rev (map upper (nat_string 16 (unat x))))"
proof -
  have "unat x < 2 ^ 32"
    using unsigned_less [of x, where 'a = nat] by simp
  then have "length (nat_string 10 (unat x)) \<le> 10" "length (nat_string 16 (unat x)) \<le> 8"
    using length_nat_string [of 10 "unat x" 9] length_nat_string [of 16 "unat x" 7] by simp_all
  then show "print_digits_u x 10 [] = Ok (rev (map upper (nat_string 10 (unat x))))"
    "print_digits_u x 16 [] = Ok (rev (map upper (nat_string 16 (unat x))))"
    using print_digits_u_eq [of 10 x "[]"] print_digits_u_eq [of 16 x "[]"]
    by (simp_all add: print_digits_eq word_le_nat_alt unat_wide rev_map)
qed

lemma nat_string_10_digits: "c \<in> set (nat_string 10 n) \<Longrightarrow> 48 \<le> c \<and> c \<le> 57"
proof (induction n rule: less_induct)
  case (less n)
  have "\<forall>k \<in> set [0..<10]. 48 \<le> digits ! k \<and> digits ! k \<le> 57"
    by code_simp
  then have d: "k < 10 \<Longrightarrow> 48 \<le> digits ! k \<and> digits ! k \<le> 57" for k
    by simp
  show ?case
  proof (cases "n < 10")
    case True
    then show ?thesis
      using less.prems d by (simp add: nat_string.simps)
  next
    case False
    then have "c \<in> set (nat_string 10 (n div 10)) \<or> c = digits ! (n mod 10)"
      using less.prems by (subst (asm) nat_string.simps) auto
    then show ?thesis
      using less.IH [of "n div 10"] d [of "n mod 10"] False by auto
  qed
qed

lemma upper_nat_string_10 [simp]: "map upper (nat_string 10 n) = nat_string 10 n"
proof (rule map_idI)
  fix c
  assume "c \<in> set (nat_string 10 n)"
  then have "48 \<le> c \<and> c \<le> 57"
    by (rule nat_string_10_digits)
  then have "\<not> 97 \<le> c"
    by (auto simp: word_le_nat_alt)
  then show "upper c = c"
    by (simp add: upper_def)
qed

lemma atoi_from_digits:
  "\<forall>c \<in> set s. 48 \<le> c \<and> c \<le> 57 \<Longrightarrow> atoi_from n (s @ r) = atoi_from (atoi_from n s) r"
  by (induction s arbitrary: n) auto

lemma atoi_nat_string: "atoi_from 0 (nat_string 10 n) = of_nat n"
proof (induction n rule: less_induct)
  case (less n)
  have "\<forall>k \<in> set [0..<10]. 48 \<le> digits ! k \<and> digits ! k \<le> 57 \<and> (ucast (digits ! k) :: c_int) - 48 = of_nat k"
    by code_simp
  then have d: "48 \<le> digits ! k \<and> digits ! k \<le> 57 \<and> (ucast (digits ! k) :: c_int) - 48 = of_nat k" if "k < 10" for k
    using that by simp
  show ?case
  proof (cases "n < 10")
    case True
    then show ?thesis
      using d [of n] by (simp add: nat_string.simps)
  next
    case False
    have "atoi_from 0 (nat_string 10 n) =
        atoi_from (atoi_from 0 (nat_string 10 (n div 10))) [digits ! (n mod 10)]"
      using False nat_string_10_digits
      by (subst nat_string.simps) (simp add: atoi_from_digits del: atoi_from.simps)
    also have "\<dots> = of_nat (n div 10) * 10 + (ucast (digits ! (n mod 10)) - 48)"
      using False less.IH [of "n div 10"] d [of "n mod 10"] by simp
    also have "\<dots> = of_nat (n div 10 * 10 + n mod 10)"
      using d [of "n mod 10"] by (simp only: of_nat_add of_nat_mult of_nat_numeral)
    finally show ?thesis
      by simp
  qed
qed

lemma printint_u_10: "printint_u x 10 True = Ok (int_string (sint x))"
proof (cases "x <s 0")
  case True
  then have neg: "sint x < 0"
    by (simp add: word_sless_alt)
  have "- x = word_of_int (- sint x)"
    by simp
  then have "uint (- x) = (- sint x) mod 2 ^ 32"
    using uint_word_of_int [of "- sint x", where 'a = 32] by simp
  also have "\<dots> = - sint x"
    using neg sint_ge [of x] by (intro mod_pos_pos_trivial) auto
  finally have u: "unat (- x) = nat (- sint x)"
    by (simp add: unat_eq_nat_uint)
  have "nat (- sint x) < 10 ^ 10"
    using sint_ge [of x] by simp
  then have "length (nat_string 10 (nat (- sint x))) \<le> 10"
    using length_nat_string [of 10 "nat (- sint x)" 9] by simp
  then show ?thesis
    using True neg by (simp add: printint_u_def print_digits_u_10 u put_buf_def int_string_def)
next
  case False
  then have "0 \<le> sint x"
    by (simp add: word_sless_alt)
  then show ?thesis
    using False by (simp add: printint_u_def print_digits_u_10 unat_nonneg int_string_def)
qed

lemma printint_u_unsigned:
  "printint_u x 10 False = Ok (nat_string 10 (unat x))"
  "printint_u x 16 False = Ok (map upper (nat_string 16 (unat x)))"
  by (simp_all add: printint_u_def print_digits_u_10)

lemma unat_low: "unat (ucast (x :: u64) :: c_int) = unat x mod 2 ^ 32"
  by (simp add: unsigned_ucast_eq take_bit_eq_mod)

text \<open>
  Claim C34: Numbers survive printing and reading: \<^verbatim>\<open>printint\<close> in base ten prints every non-negative \<^verbatim>\<open>int\<close>
  within its sixteen bytes, and \<^verbatim>\<open>atoi\<close> returns the number from those characters, whatever
  follows them that is not a digit.
\<close>

theorem atoi_printint:
  "0 \<le> sint x \<Longrightarrow> (\<forall>c \<in> set (take 1 rs). \<not> (48 \<le> c \<and> c \<le> 57)) \<Longrightarrow>
   \<exists>s. printint_u x 10 True = Ok s \<and> s = int_string (sint x) \<and> atoi (s @ rs) = x"
proof -
  assume x: "0 \<le> sint x" and rs: "\<forall>c \<in> set (take 1 rs). \<not> (48 \<le> c \<and> c \<le> 57)"
  have "int_string (sint x) = nat_string 10 (unat x)"
    using x by (simp add: int_string_def unat_nonneg)
  moreover have "atoi (nat_string 10 (unat x) @ rs) = atoi_from x rs"
    using nat_string_10_digits by (simp add: atoi_def atoi_from_digits atoi_nat_string)
  moreover have "atoi_from x rs = x"
    using rs by (cases rs) auto
  ultimately show ?thesis
    by (simp add: printint_u_10)
qed

theorem atoi_printint_witness:
  "\<exists>s. printint_u 2147483647 10 True = Ok s \<and> s = int_string 2147483647 \<and> atoi (s @ str ''px'') = 2147483647"
  using atoi_printint [of 2147483647 "str ''px''"] by (simp add: str_def chr_def)

text \<open>
  Claim C35: \<^verbatim>\<open>%d\<close>, \<^verbatim>\<open>%u\<close> and \<^verbatim>\<open>%x\<close> of the user programs' \<^verbatim>\<open>printf\<close> print every argument exactly, and never outgrow the
  array of \<^verbatim>\<open>printint\<close>. The 64-bit conversions print the low 32 bits only: \<^verbatim>\<open>%ld\<close>, \<^verbatim>\<open>%lu\<close> and \<^verbatim>\<open>%lx\<close>,
  and \<^verbatim>\<open>%lld\<close>, \<^verbatim>\<open>%llu\<close> and \<^verbatim>\<open>%llx\<close>, agree with \<^verbatim>\<open>%d\<close>, \<^verbatim>\<open>%u\<close> and \<^verbatim>\<open>%x\<close> on every argument.
\<close>

theorem user_printf_integers:
  "conversion_u (chr CHR ''d'') fmt (VInt x # ap) = Ok (int_string (sint (ucast x :: c_int)), fmt, ap) \<and>
   conversion_u (chr CHR ''u'') fmt (VInt x # ap) = Ok (nat_string 10 (unat x mod 2 ^ 32), fmt, ap) \<and>
   conversion_u (chr CHR ''x'') fmt (VInt x # ap) = Ok (map upper (nat_string 16 (unat x mod 2 ^ 32)), fmt, ap) \<and>
   (\<forall>c \<in> {chr CHR ''d'', chr CHR ''u'', chr CHR ''x''}.
      conversion_u (chr CHR ''l'') (c # fmt) (VInt x # ap) = conversion_u c fmt (VInt x # ap) \<and>
      conversion_u (chr CHR ''l'') (chr CHR ''l'' # c # fmt) (VInt x # ap) = conversion_u c fmt (VInt x # ap))"
  by (simp add: conversion_u_def fmt_int_u_def printint_u_10 printint_u_unsigned unat_low chr_def)

theorem user_printf_integers_witness:
  "conversion_u (chr CHR ''l'') (str ''u'') [VInt 0x100000007] = Ok (str ''7'', [], []) \<and>
   conversion_u (chr CHR ''l'') (str ''lu'') [VInt 0x100000007] = Ok (str ''7'', [], [])"
proof -
  have "conversion_u (chr CHR ''l'') (chr CHR ''u'' # []) [VInt 0x100000007] =
      conversion_u (chr CHR ''u'') [] [VInt 0x100000007]"
    "conversion_u (chr CHR ''l'') (chr CHR ''l'' # chr CHR ''u'' # []) [VInt 0x100000007] =
      conversion_u (chr CHR ''u'') [] [VInt 0x100000007]"
    using user_printf_integers [of "[]" "0x100000007" "[]"] by blast+
  then show ?thesis
    using user_printf_integers [of "[]" "0x100000007" "[]"]
    by (simp add: nat_string.simps digits_def str_def chr_def)
qed

text \<open>What the loops of \<^verbatim>\<open>do_rand\<close> compute over the integers: Schrage's decomposition of the modulus.\<close>

lemma schrage:
  fixes x :: int
  assumes "0 \<le> x" "x < 2147483647"
  defines "t \<equiv> 16807 * (x mod 127773) - 2836 * (x div 127773)"
  shows "16807 * x mod 2147483647 = (if t < 0 then t + 2147483647 else t)"
    and "- 2147483647 < t" and "t < 2147483647"
proof -
  have lo: "0 \<le> x mod 127773" "x mod 127773 \<le> 127772"
    using pos_mod_bound [of 127773 x] by simp_all
  have hi: "0 \<le> x div 127773" "x div 127773 \<le> 16807"
    using assms(1,2) by linarith+
  show lower: "- 2147483647 < t" and upper: "t < 2147483647"
    unfolding t_def using lo hi by linarith+
  have "16807 * x = t + 2147483647 * (x div 127773)"
    unfolding t_def using div_mult_mod_eq [of x 127773] by linarith
  then have "16807 * x mod 2147483647 = t mod 2147483647"
    by simp
  also have "\<dots> = (if t < 0 then t + 2147483647 else t)"
  proof (cases "t < 0")
    case True
    have "t mod 2147483647 = (t + 2147483647) mod 2147483647"
      by simp
    also have "\<dots> = t + 2147483647"
      using True lower by (intro mod_pos_pos_trivial) auto
    finally show ?thesis
      using True by simp
  next
    case False
    then show ?thesis
      using upper by simp
  qed
  finally show "16807 * x mod 2147483647 = (if t < 0 then t + 2147483647 else t)" .
qed

lemma minimal_standard_pos:
  fixes x :: int
  assumes "0 < x" "x < 2147483647"
  shows "0 < 16807 * x mod 2147483647"
proof -
  have "gcd 2147483647 (16807 :: int) = 1"
    by code_simp
  then have "coprime 2147483647 (16807 :: int)"
    by (simp add: coprime_iff_gcd_eq_1)
  then have "\<not> 2147483647 dvd 16807 * x"
    using assms zdvd_not_zless by (subst coprime_dvd_mult_right_iff) auto
  then have "16807 * x mod 2147483647 \<noteq> 0"
    by (simp add: dvd_eq_mod_eq_0)
  then show ?thesis
    using pos_mod_sign [of 2147483647 "16807 * x"] by linarith
qed

lemma do_rand_word:
  fixes ctx :: u64
  defines "x \<equiv> uint ctx mod 2147483646 + 1"
  shows "do_rand ctx = (word_of_int (16807 * x mod 2147483647 - 1), word_of_int (16807 * x mod 2147483647 - 1))"
proof -
  define w where "w = ctx mod 0x7ffffffe + 1"
  define t where "t = 16807 * (x mod 127773) - 2836 * (x div 127773)"
  have x: "0 \<le> x" "x < 2147483647"
    using pos_mod_bound [of 2147483646 "uint ctx"] pos_mod_sign [of 2147483646 "uint ctx"]
    by (auto simp: x_def simp del: pos_mod_bound pos_mod_sign)
  note t = schrage [OF x, folded t_def]
  have uw: "uint w = x"
    using x by (simp add: w_def x_def uint_word_ariths uint_mod mod_pos_pos_trivial)
  have lo: "w mod 127773 = word_of_int (x mod 127773)" and hi: "w div 127773 = word_of_int (x div 127773)"
    by (simp_all add: word_mod_def word_div_def uw)
  have wt: "16807 * (w mod 127773) - 2836 * (w div 127773) = (word_of_int t :: u64)"
    by (simp add: lo hi t_def)
  have "sint (word_of_int t :: u64) = t"
    using t(2,3) by (simp add: sint_sbintrunc' signed_take_bit_int_eq_self)
  then have neg: "(word_of_int t :: u64) <s 0 \<longleftrightarrow> t < 0"
    by (simp add: word_sless_alt)
  have "(ucast (word_of_int z :: u64) :: c_int) = word_of_int z" for z
    by (rule ucast_down_wi) (simp add: is_down)
  moreover have "(if t < 0 then word_of_int t + 0x7fffffff else word_of_int t) - 1 =
      (word_of_int (16807 * x mod 2147483647 - 1) :: u64)"
    by (simp add: t(1))
  ultimately show ?thesis
    by (simp only: do_rand_def Let_def w_def [symmetric] wt neg)
qed

text \<open>
  Claim C36: \<^verbatim>\<open>do_rand\<close> computes the minimal standard generator in one round: with \<open>x\<close> the context reduced to
  the range from 1 to \<open>2 ^ 31 - 2\<close>, the result and the new context are \<open>7 ^ 5 \<cdot> x mod (2 ^ 31 - 1)\<close>, less one, taken over
  the unbounded integers. It lies between 0 and \<open>2 ^ 31 - 3\<close>, so the conversion to \<^verbatim>\<open>int\<close> loses nothing.
\<close>

theorem do_rand_minimal_standard:
  "let y = 7 ^ 5 * (uint ctx mod (2 ^ 31 - 2) + 1) mod (2 ^ 31 - 1) - 1
   in sint (fst (do_rand ctx)) = y \<and> uint (snd (do_rand ctx)) = y \<and> 0 \<le> y \<and> y \<le> 2 ^ 31 - 3"
proof -
  define x where "x = uint ctx mod 2147483646 + 1"
  define y where "y = 16807 * x mod 2147483647 - 1"
  have "0 < x" "x < 2147483647"
    using pos_mod_bound [of 2147483646 "uint ctx"] pos_mod_sign [of 2147483646 "uint ctx"]
    by (auto simp: x_def simp del: pos_mod_bound pos_mod_sign)
  then have y: "0 \<le> y" "y \<le> 2147483645"
    using minimal_standard_pos [of x] pos_mod_bound [of 2147483647 "16807 * x"] by (auto simp: y_def)
  have r: "do_rand ctx = (word_of_int y, word_of_int y)"
    by (simp add: do_rand_word y_def x_def)
  have "sint (word_of_int y :: c_int) = y" "uint (word_of_int y :: u64) = y"
    using y by (simp_all add: sint_sbintrunc' signed_take_bit_int_eq_self uint_word_of_int)
  then show ?thesis
    using y by (simp add: r Let_def y_def x_def)
qed

section \<open>Strings in memory and lines\<close>

lemma strcmp_eq_0: "0 \<notin> set s \<Longrightarrow> 0 \<notin> set t \<Longrightarrow> strcmp s t = 0 \<longleftrightarrow> s = t"
proof (induction s t rule: strcmp.induct)
  case (1 c p d q)
  have "(ucast c :: c_int) - ucast d = 0 \<longleftrightarrow> c = d"
    by simp
  then show ?case
    using 1 by auto
qed auto

lemma strcpy_from_cstr:
  "cstr m t cs \<Longrightarrow> s + length cs < t \<or> t + length cs < s \<Longrightarrow>
   \<exists>m'. strcpy_from m s t = Some m' \<and> cstr m' s cs \<and> (\<forall>a. a < s \<or> s + length cs < a \<longrightarrow> m' a = m a)"
proof (induction cs arbitrary: m s t)
  case Nil
  then show ?case
    by (simp add: strcpy_from.simps [of m s t])
next
  case (Cons c cs)
  have "cstr (m(s := c)) (Suc t) cs"
    using Cons.prems by (auto simp: cstr_iff)
  moreover have "Suc s + length cs < Suc t \<or> Suc t + length cs < Suc s"
    using Cons.prems by auto
  ultimately obtain m' where m': "strcpy_from (m(s := c)) (Suc s) (Suc t) = Some m'" "cstr m' (Suc s) cs"
    "\<And>a. a < Suc s \<or> Suc s + length cs < a \<Longrightarrow> m' a = (m(s := c)) a"
    using Cons.IH by blast
  have "m' s = c"
    using m'(3) [of s] by simp
  moreover have "\<forall>a. a < s \<or> s + length (c # cs) < a \<longrightarrow> m' a = m a"
    using m'(3) by auto
  ultimately show ?case
    using m'(1,2) Cons.prems by (simp add: strcpy_from.simps [of m s t])
qed

lemma gets_line:
  "10 \<notin> set l \<Longrightarrow> 13 \<notin> set l \<Longrightarrow> length l + 1 < nat (sint mx) \<Longrightarrow>
   gets mx (l @ 10 # inp) = (l @ [10], inp)"
proof -
  have step: "10 \<notin> set l \<Longrightarrow> 13 \<notin> set l \<Longrightarrow> length l < n \<Longrightarrow> gets_from n buf (l @ 10 # inp) = (buf @ l @ [10], inp)"
    for n buf
  proof (induction l arbitrary: n buf)
    case Nil
    then show ?case
      by (cases n) auto
  next
    case (Cons c l)
    then show ?case
      by (cases n) auto
  qed
  show "10 \<notin> set l \<Longrightarrow> 13 \<notin> set l \<Longrightarrow> length l + 1 < nat (sint mx) \<Longrightarrow>
   gets mx (l @ 10 # inp) = (l @ [10], inp)"
    using step [of "nat (sint mx - 1)" "[]"] by (simp add: gets_def)
qed

end
