(* ===== verification/Xv6_Grep.thy ===== *)
theory Xv6_Grep
  imports Xv6_User_Lib
begin

text \<open>
  The pattern matcher \<^verbatim>\<open>user/grep.c\<close>. Patterns and lines are the bytes of the strings before the NUL. The buffer of
  \<^verbatim>\<open>grep\<close> is the list of its first \<open>m\<close> bytes. How many bytes a \<^verbatim>\<open>read\<close> delivers is up to the file: the
  parameter \<open>rd\<close> gives the number from the bytes that are left and the space that is offered; a read
  returns no more than either of them.
\<close>

section \<open>Code\<close>

abbreviation star :: u8 where "star \<equiv> chr CHR ''*''"
abbreviation dot :: u8 where "dot \<equiv> chr CHR ''.''"
abbreviation dollar :: u8 where "dollar \<equiv> chr CHR ''$''"
abbreviation caret :: u8 where "caret \<equiv> chr CHR ''^''"

function (sequential) matchhere :: "u8 list \<Rightarrow> u8 list \<Rightarrow> bool"
  and matchstar :: "u8 \<Rightarrow> u8 list \<Rightarrow> u8 list \<Rightarrow> bool" where
  "matchhere [] tx = True"
| "matchhere (c # re) tx =
     (if re \<noteq> [] \<and> hd re = star then matchstar c (tl re) tx
      else if c = dollar \<and> re = [] then tx = []
      else if tx \<noteq> [] \<and> (c = dot \<or> c = hd tx) then matchhere re (tl tx)
      else False)"
| "matchstar c re tx =
     (if matchhere re tx then True
      else if tx \<noteq> [] \<and> (hd tx = c \<or> c = dot) then matchstar c re (tl tx)
      else False)"
  by pat_completeness auto
termination
  by (relation "measures [\<lambda>x. case x of Inl (re, tx) \<Rightarrow> length re | Inr (c, re, tx) \<Rightarrow> Suc (length re),
      \<lambda>x. case x of Inl (re, tx) \<Rightarrow> length tx | Inr (c, re, tx) \<Rightarrow> length tx]")
    (auto simp: neq_Nil_conv)

fun match_from :: "u8 list \<Rightarrow> u8 list \<Rightarrow> bool" where
  "match_from re tx =
     (if matchhere re tx then True else case tx of [] \<Rightarrow> False | _ # tx \<Rightarrow> match_from re tx)"

definition match :: "u8 list \<Rightarrow> u8 list \<Rightarrow> bool" where
  "match re tx =
     (if re \<noteq> [] \<and> hd re = caret then matchhere (tl re) tx else match_from re tx)"

text \<open>
  The inner loop, on the buffer from \<^verbatim>\<open>p\<close> on: what it writes, and the bytes from the last \<^verbatim>\<open>p\<close> on. \<^verbatim>\<open>strchr\<close> sees
  the bytes before a NUL only.
\<close>

function grep_lines :: "u8 list \<Rightarrow> u8 list \<Rightarrow> u8 list \<times> u8 list" where
  "grep_lines pattern p =
     (let s = takeWhile (\<lambda>c. c \<noteq> 0) p in
      case strchr s 10 of
        None \<Rightarrow> ([], p)
      | Some q \<Rightarrow>
          let line = take (length s - length q) s;
              (out, r) = grep_lines pattern (drop (Suc (length line)) p)
          in ((if match pattern line then line @ [10] else []) @ out, r))"
  by pat_completeness auto
termination
proof (relation "measure (\<lambda>(pattern, p). length p)", goal_cases)
  case (2 pattern p s q line)
  then have "p \<noteq> []"
    by (cases p) auto
  then show ?case
    by simp
qed simp

declare grep_lines.simps [simp del] match_from.simps [simp del] matchhere.simps [simp del] matchstar.simps [simp del]

text \<open>The outer loop: \<open>buf\<close> holds the \<open>m\<close> bytes kept, \<open>inp\<close> is what the file still has; the result is all that is written.\<close>

function grep_loop :: "(u8 list \<Rightarrow> nat \<Rightarrow> nat) \<Rightarrow> u8 list \<Rightarrow> u8 list \<Rightarrow> u8 list \<Rightarrow> u8 list" where
  "grep_loop rd pattern buf inp =
     (let space = 1024 - length buf - 1;
          n = min (rd inp space) (min space (length inp))
      in if n = 0 then []
         else let (out, r) = grep_lines pattern (buf @ take n inp)
              in out @ grep_loop rd pattern r (drop n inp))"
  by pat_completeness auto
termination
  by (relation "measure (\<lambda>(rd, pattern, buf, inp). length inp)") auto

declare grep_loop.simps [simp del]

definition grep :: "(u8 list \<Rightarrow> nat \<Rightarrow> nat) \<Rightarrow> u8 list \<Rightarrow> u8 list \<Rightarrow> u8 list" where
  "grep rd pattern inp = grep_loop rd pattern [] inp"

section \<open>The language of a pattern\<close>

text \<open>
  A pattern is a sequence of items, each a class of characters that occurs once or any number of
  times; a dollar sign at the very end, and not followed by a star, asks for the end of the line.
\<close>

datatype item = One "u8 set" | Many "u8 set"

definition chars :: "u8 \<Rightarrow> u8 set" where
  "chars c = (if c = dot then UNIV else {c})"

fun items :: "u8 list \<Rightarrow> item list \<times> bool" where
  "items [] = ([], False)"
| "items [c] = (if c = dollar then ([], True) else ([One (chars c)], False))"
| "items (c # d # re) =
     (if d = star then apfst ((#) (Many (chars c))) (items re) else apfst ((#) (One (chars c))) (items (d # re)))"

fun lang :: "item list \<Rightarrow> u8 list set" where
  "lang [] = {[]}"
| "lang (One C # is) = {x # w |x w. x \<in> C \<and> w \<in> lang is}"
| "lang (Many C # is) = {v @ w |v w. set v \<subseteq> C \<and> w \<in> lang is}"

text \<open>\<open>occurs is e s\<close>: a prefix of \<open>s\<close>, all of it when \<open>e\<close>, is in the language of the items.\<close>

definition occurs :: "item list \<times> bool \<Rightarrow> u8 list \<Rightarrow> bool" where
  "occurs p s \<longleftrightarrow> (\<exists>b c. s = b @ c \<and> b \<in> lang (fst p) \<and> (snd p \<longrightarrow> c = []))"

lemma occurs_Nil [simp]: "occurs ([], e) s \<longleftrightarrow> (e \<longrightarrow> s = [])"
  by (auto simp: occurs_def)

lemma occurs_One [simp]:
  "occurs (apfst ((#) (One C)) p) s \<longleftrightarrow> s \<noteq> [] \<and> hd s \<in> C \<and> occurs p (tl s)"
  by (cases s; cases p) (auto simp: occurs_def Cons_eq_append_conv)

lemma occurs_One_pair [simp]:
  "occurs (One C # is, e) s \<longleftrightarrow> s \<noteq> [] \<and> hd s \<in> C \<and> occurs (is, e) (tl s)"
  using occurs_One [of C "(is, e)" s] by simp

lemma star_unfold:
  "(\<exists>v b c. s = v @ b @ c \<and> set v \<subseteq> C \<and> P b c) \<longleftrightarrow>
   (\<exists>b c. s = b @ c \<and> P b c) \<or> s \<noteq> [] \<and> hd s \<in> C \<and> (\<exists>v b c. tl s = v @ b @ c \<and> set v \<subseteq> C \<and> P b c)"
  (is "?L \<longleftrightarrow> ?A \<or> ?B")
proof
  assume ?L
  then obtain v b c where v: "s = v @ b @ c" "set v \<subseteq> C" "P b c"
    by blast
  show "?A \<or> ?B"
  proof (cases v)
    case Nil
    then show ?thesis
      using v by auto
  next
    case (Cons x w)
    then have ?B
      using v by auto
    then show ?thesis ..
  qed
next
  assume "?A \<or> ?B"
  then show ?L
  proof
    assume ?A
    then obtain b c where "s = [] @ b @ c" "P b c"
      by auto
    then show ?L
      using empty_subsetI empty_set by metis
  next
    assume ?B
    then obtain v b c where "s = (hd s # v) @ b @ c" "set (hd s # v) \<subseteq> C" "P b c"
      by (cases s) auto
    then show ?L
      by blast
  qed
qed

lemma occurs_Many:
  "occurs (apfst ((#) (Many C)) p) s \<longleftrightarrow>
     occurs p s \<or> s \<noteq> [] \<and> hd s \<in> C \<and> occurs (apfst ((#) (Many C)) p) (tl s)"
proof -
  have many: "occurs (apfst ((#) (Many C)) p) s \<longleftrightarrow>
    (\<exists>v b c. s = v @ b @ c \<and> set v \<subseteq> C \<and> b \<in> lang (fst p) \<and> (snd p \<longrightarrow> c = []))" for s
    unfolding occurs_def by (simp del: append_assoc flip: append_assoc) blast
  show ?thesis
    unfolding many unfolding occurs_def by (rule star_unfold)
qed

lemma items_Cons:
  "items (c # re) =
     (if re \<noteq> [] \<and> hd re = star then apfst ((#) (Many (chars c))) (items (tl re))
      else if c = dollar \<and> re = [] then ([], True)
      else apfst ((#) (One (chars c))) (items re))"
  by (cases re) auto

lemma matchhere_occurs:
  "matchhere re tx \<longleftrightarrow> occurs (items re) tx"
  "matchstar c re tx \<longleftrightarrow> occurs (apfst ((#) (Many (chars c))) (items re)) tx"
proof (induction re tx and c re tx rule: matchhere_matchstar.induct)
  case (2 c re tx)
  then show ?case
    by (auto simp: matchhere.simps items_Cons chars_def)
next
  case (3 c re tx)
  then show ?case
    by (subst occurs_Many) (auto simp: matchstar.simps chars_def)
qed (simp add: matchhere.simps)

lemma match_from_occurs: "match_from re tx \<longleftrightarrow> (\<exists>a b. tx = a @ b \<and> occurs (items re) b)"
proof (induction tx)
  case Nil
  then show ?case
    by (simp add: match_from.simps matchhere_occurs)
next
  case (Cons x tx)
  then show ?case
    by (auto simp: match_from.simps [of re "x # tx"] matchhere_occurs Cons_eq_append_conv)
qed

text \<open>
  Claim C31: The backtracking matcher decides exactly the language of the pattern: a line matches when some piece of
  it is in the language, at the start of the line when the pattern begins with a caret, at its end
  when the pattern ends with a dollar sign.
\<close>

theorem match_language:
  "match re tx \<longleftrightarrow>
     (let anchored = (re \<noteq> [] \<and> hd re = caret);
          (is, at_end) = items (if anchored then tl re else re)
      in \<exists>a b c. tx = a @ b @ c \<and> b \<in> lang is \<and> (anchored \<longrightarrow> a = []) \<and> (at_end \<longrightarrow> c = []))"
  by (cases "re \<noteq> [] \<and> hd re = caret")
    (auto simp: match_def matchhere_occurs match_from_occurs occurs_def split: prod.splits)

theorem match_language_witness:
  "match (str ''^ab*$'') (str ''abb'') \<and> str ''abb'' \<in> lang (fst (items (str ''ab*$'')))"
proof -
  have items: "items (str ''ab*$'') = ([One {97}, Many {98}], True)"
    by (simp add: str_def chr_def chars_def)
  have "\<exists>v. [98, 98] = v \<and> set v \<subseteq> {98 :: u8}"
    by simp
  then have b: "str ''abb'' \<in> lang [One {97}, Many {98}]"
    by (simp add: str_def chr_def)
  have "hd (str ''^ab*$'') = caret" "tl (str ''^ab*$'') = str ''ab*$''" "str ''^ab*$'' \<noteq> []"
    by (simp_all add: str_def)
  then have "match (str ''^ab*$'') (str ''abb'')"
    using match_language [of "str ''^ab*$''" "str ''abb''"] b items by (auto simp: Let_def)
  then show ?thesis
    using b items by simp
qed

section \<open>Lines\<close>

text \<open>The terminated lines of a text, and what stands after the last of them.\<close>

function complete_lines :: "u8 list \<Rightarrow> u8 list list" where
  "complete_lines s =
     (if 10 \<in> set s then takeWhile (\<lambda>c. c \<noteq> 10) s # complete_lines (tl (dropWhile (\<lambda>c. c \<noteq> 10) s)) else [])"
  by pat_completeness auto
termination
proof (relation "measure length", goal_cases)
  case (2 s)
  have "length (dropWhile (\<lambda>c. c \<noteq> 10) s) \<le> length s" "s \<noteq> []"
    using 2 by (auto simp: length_dropWhile_le)
  then show ?case
    using 2 by (cases s) (auto simp: less_Suc_eq_le)
qed simp

declare complete_lines.simps [simp del]

lemma complete_lines_none [simp]: "10 \<notin> set s \<Longrightarrow> complete_lines s = []"
  by (simp add: complete_lines.simps)

lemma until_newline:
  "10 \<notin> set l \<Longrightarrow> takeWhile (\<lambda>c. c \<noteq> 10) (l @ 10 # s) = l \<and> dropWhile (\<lambda>c. c \<noteq> 10) (l @ 10 # s) = (10 :: u8) # s"
  by (induction l) auto

lemma complete_lines_line [simp]: "10 \<notin> set l \<Longrightarrow> complete_lines (l @ 10 # s) = l # complete_lines s"
  by (subst complete_lines.simps) (simp add: until_newline)

lemma line_cases:
  obtains "10 \<notin> set s" | l r where "s = l @ 10 # r" "10 \<notin> set l"
  using split_list_first [of 10 s] by blast

definition printed :: "u8 list \<Rightarrow> u8 list list \<Rightarrow> u8 list" where
  "printed pattern ls = concat (map (\<lambda>l. l @ [10]) (filter (match pattern) ls))"

lemma strchr_split: "10 \<notin> set l \<Longrightarrow> strchr (l @ 10 # r) 10 = Some (10 # r)"
  by (induction l) auto

lemma strchr_none: "10 \<notin> set l \<Longrightarrow> strchr l 10 = None"
  by (induction l) auto

lemma grep_lines_none:
  assumes "10 \<notin> set s"
  shows "grep_lines pattern s = ([], s)"
proof -
  have "10 \<notin> set (takeWhile (\<lambda>c. c \<noteq> 0) s)"
    using assms set_takeWhileD by metis
  then show ?thesis
    by (simp add: grep_lines.simps strchr_none)
qed

lemma grep_lines_line:
  assumes "10 \<notin> set l" "0 \<notin> set l" "0 \<notin> set r"
  shows "grep_lines pattern (l @ 10 # r) =
    apfst ((@) (printed pattern [l])) (grep_lines pattern r)"
proof -
  have "takeWhile (\<lambda>c. c \<noteq> 0) (l @ 10 # r) = l @ 10 # r"
    using assms by (auto simp: takeWhile_eq_all_conv)
  then show ?thesis
    using assms by (subst grep_lines.simps) (simp add: strchr_split printed_def split: prod.splits)
qed

lemma grep_lines_eq:
  "0 \<notin> set s \<Longrightarrow>
   \<exists>l. grep_lines pattern s = (printed pattern (complete_lines s), l) \<and> 10 \<notin> set l \<and> 0 \<notin> set l \<and>
     (\<forall>t. complete_lines (s @ t) = complete_lines s @ complete_lines (l @ t))"
proof (induction s rule: complete_lines.induct)
  case (1 s)
  show ?case
  proof (cases s rule: line_cases)
    case 1
    then show ?thesis
      using "1.prems" by (simp add: grep_lines_none printed_def)
  next
    case (2 l r)
    have "r = tl (dropWhile (\<lambda>c. c \<noteq> 10) s)" "10 \<in> set s" "0 \<notin> set r"
      using 2 "1.prems" by (simp_all add: until_newline)
    then obtain k where "grep_lines pattern r = (printed pattern (complete_lines r), k)" "10 \<notin> set k" "0 \<notin> set k"
      "\<forall>t. complete_lines (r @ t) = complete_lines r @ complete_lines (k @ t)"
      using "1.IH" by metis
    then show ?thesis
      using 2 "1.prems" by (simp add: grep_lines_line printed_def)
  qed
qed

lemma printed_append: "printed pattern (a @ b) = printed pattern a @ printed pattern b"
  by (simp add: printed_def)

text \<open>While lines are missing the buffer has room, and the loop goes on.\<close>

lemma room:
  "10 \<notin> set buf \<Longrightarrow> complete_lines (buf @ inp) \<noteq> [] \<Longrightarrow> \<forall>l \<in> set (complete_lines (buf @ inp)). length l < 1023 \<Longrightarrow>
   length buf < 1023 \<and> inp \<noteq> []"
proof -
  assume a: "10 \<notin> set buf" "complete_lines (buf @ inp) \<noteq> []" "\<forall>l \<in> set (complete_lines (buf @ inp)). length l < 1023"
  then have "10 \<in> set inp"
    by (metis complete_lines_none Un_iff set_append)
  then obtain p q where inp: "inp = p @ 10 # q" "10 \<notin> set p"
    using split_list_first [of 10 inp] by blast
  then have "complete_lines (buf @ inp) = (buf @ p) # complete_lines q"
    using a(1) complete_lines_line [of "buf @ p" q] by simp
  then have "length (buf @ p) < 1023"
    using a(3) by simp
  then show ?thesis
    by (simp add: inp(1))
qed

lemma grep_loop_step:
  "n = min (rd inp (1024 - length buf - 1)) (min (1024 - length buf - 1) (length inp)) \<Longrightarrow>
   grep_loop rd pattern buf inp =
     (if n = 0 then []
      else case grep_lines pattern (buf @ take n inp) of (out, r) \<Rightarrow> out @ grep_loop rd pattern r (drop n inp))"
  by (subst grep_loop.simps) (simp only: Let_def)

lemma grep_loop_prints:
  "\<forall>inp k. inp \<noteq> [] \<longrightarrow> 0 < k \<longrightarrow> 0 < rd inp k \<Longrightarrow> 10 \<notin> set buf \<Longrightarrow> 0 \<notin> set (buf @ inp) \<Longrightarrow>
   \<forall>l \<in> set (complete_lines (buf @ inp)). length l < 1023 \<Longrightarrow>
   grep_loop rd pattern buf inp = printed pattern (complete_lines (buf @ inp))"
proof (induction rd pattern buf inp rule: grep_loop.induct)
  case (1 rd pattern buf inp)
  define n where "n = min (rd inp (1024 - length buf - 1)) (min (1024 - length buf - 1) (length inp))"
  note step = grep_loop_step [of n rd inp buf pattern, OF n_def]
  show ?case
  proof (cases "n = 0")
    case True
    have "complete_lines (buf @ inp) = []"
    proof (rule ccontr)
      assume "complete_lines (buf @ inp) \<noteq> []"
      then have space: "length buf < 1023" "inp \<noteq> []"
        using room "1.prems"(2,4) by blast+
      then have "0 < rd inp (1024 - length buf - 1)"
        using "1.prems"(1) by simp
      then show False
        using True space by (simp add: n_def min_def split: if_splits)
    qed
    then show ?thesis
      using True by (simp add: step printed_def)
  next
    case False
    have nul: "0 \<notin> set (buf @ take n inp)" "0 \<notin> set (drop n inp)"
      using "1.prems" by (auto dest: in_set_takeD in_set_dropD)
    obtain r where r: "grep_lines pattern (buf @ take n inp) = (printed pattern (complete_lines (buf @ take n inp)), r)"
      "10 \<notin> set r" "0 \<notin> set r"
      "\<And>t. complete_lines ((buf @ take n inp) @ t) = complete_lines (buf @ take n inp) @ complete_lines (r @ t)"
      using grep_lines_eq [OF nul(1), of pattern] by blast
    have whole: "complete_lines (buf @ inp) = complete_lines (buf @ take n inp) @ complete_lines (r @ drop n inp)"
      using r(4) [of "drop n inp"] by simp
    have "grep_loop rd pattern r (drop n inp) = printed pattern (complete_lines (r @ drop n inp))"
      using "1.prems"(1,4) r nul whole
      by (intro "1.IH" [OF refl n_def False, folded n_def, OF r(1) [symmetric] refl]) auto
    then show ?thesis
      using False r(1) by (simp add: step whole printed_append)
  qed
qed

lemma grep_loop_gives_up:
  "10 \<notin> set (take 1023 (buf @ inp)) \<Longrightarrow> grep_loop rd pattern buf inp = []"
proof (induction rd pattern buf inp rule: grep_loop.induct)
  case (1 rd pattern buf inp)
  define n where "n = min (rd inp (1024 - length buf - 1)) (min (1024 - length buf - 1) (length inp))"
  note step = grep_loop_step [of n rd inp buf pattern, OF n_def]
  show ?case
  proof (cases "n = 0")
    case True
    then show ?thesis
      by (simp add: step)
  next
    case False
    have n: "n \<le> 1023 - length buf"
      unfolding n_def by linarith
    then have "length buf \<le> 1023"
      using False by simp
    then have "take 1023 (buf @ inp) = buf @ take (1023 - length buf) inp"
      by simp
    then have "10 \<notin> set buf" "10 \<notin> set (take (1023 - length buf) inp)"
      using "1.prems" by simp_all
    then have "10 \<notin> set (buf @ take n inp)"
      using set_take_subset_set_take [OF n, of inp] by auto
    then have lines: "grep_lines pattern (buf @ take n inp) = ([], buf @ take n inp)"
      by (rule grep_lines_none)
    have "grep_loop rd pattern (buf @ take n inp) (drop n inp) = []"
      using "1.prems" by (intro "1.IH" [OF refl n_def False, folded n_def, OF lines [symmetric] refl]) simp
    then show ?thesis
      by (simp add: step lines)
  qed
qed

text \<open>
  Claim C32: However the file divides its bytes over the reads, \<^verbatim>\<open>grep\<close> prints exactly the matching terminated lines, in
  order, as long as no line has more than 1022 bytes and no byte is NUL. The hypothesis on \<open>rd\<close> is that a
  read that is offered space delivers something while the file has bytes left. An unterminated last line is never printed.
\<close>

theorem grep_prints_matching_lines:
  assumes "\<forall>inp k. inp \<noteq> [] \<longrightarrow> 0 < k \<longrightarrow> 0 < rd inp k"
    and "0 \<notin> set inp"
    and "\<forall>l \<in> set (complete_lines inp). length l \<le> 1022"
  shows "grep rd pattern inp = concat (map (\<lambda>l. l @ [10]) (filter (match pattern) (complete_lines inp)))"
proof -
  have "\<forall>l \<in> set (complete_lines inp). length l < 1023"
    using assms(3) by fastforce
  then show ?thesis
    using grep_loop_prints [of rd "[]" inp pattern] assms(1,2) by (simp add: grep_def printed_def)
qed

theorem grep_prints_matching_lines_witness:
  "grep (\<lambda>inp k. 3) (str ''^a.*c$'') (str ''abc'' @ [10] @ str ''bac'' @ [10] @ str ''ac'' @ [10] @ str ''ac'') =
   str ''abc'' @ [10] @ str ''ac'' @ [10]"
proof -
  let ?inp = "str ''abc'' @ [10] @ str ''bac'' @ [10] @ str ''ac'' @ [10] @ str ''ac''"
  have lines: "complete_lines ?inp = [str ''abc'', str ''bac'', str ''ac'']"
    by code_simp
  have "0 \<notin> set ?inp"
    by code_simp
  moreover have "\<forall>l \<in> set (complete_lines ?inp). length l \<le> 1022"
    unfolding lines by (simp add: str_def)
  ultimately have "grep (\<lambda>inp k. 3) (str ''^a.*c$'') ?inp =
      concat (map (\<lambda>l. l @ [10]) (filter (match (str ''^a.*c$'')) [str ''abc'', str ''bac'', str ''ac'']))"
    using grep_prints_matching_lines [of "\<lambda>inp k. 3" ?inp "str ''^a.*c$''"] by (simp only: lines) simp
  also have "\<dots> = str ''abc'' @ [10] @ str ''ac'' @ [10]"
    by code_simp
  finally show ?thesis .
qed

text \<open>
  Claim C33: A line of 1023 bytes or more ends the search silently: when the first 1023 bytes of the file hold no newline, the
  buffer is full, the next \<^verbatim>\<open>read\<close> is asked for no bytes and returns zero as at the end of the file, and no
  line of the file is printed, whatever follows.
\<close>

theorem grep_gives_up:
  "10 \<notin> set (take 1023 inp) \<Longrightarrow> grep rd pattern inp = []"
  using grep_loop_gives_up [of "[]" inp rd pattern] by (simp add: grep_def)

theorem grep_gives_up_witness:
  "grep (\<lambda>inp k. k) [] (replicate 1023 97 @ [10, 98, 10]) = [] \<and> match [] [98]"
  using grep_gives_up [of "replicate 1023 97 @ [10, 98, 10]" "\<lambda>inp k. k" "[]"]
  by (simp add: match_def match_from.simps matchhere.simps)

end
