(* ===== verification/Xv6_Shell.thy ===== *)
theory Xv6_Shell
  imports Xv6_User_Lib Xv6_Sysfile
begin

text \<open>
  The command line parser of the shell, \<^verbatim>\<open>user/sh.c\<close>. The buffer is the list of the bytes of the line before its
  NUL; the pointers \<^verbatim>\<open>ps\<close>, \<^verbatim>\<open>q\<close> and \<^verbatim>\<open>eq\<close> are positions in it and \<^verbatim>\<open>es\<close> is its length. The nodes of the tree
  are values: \<^verbatim>\<open>malloc\<close> is taken to succeed, which the source does not test. The functions that
  call each other recursively take fuel; \<open>Stuck\<close> is running out of it. A call of \<^verbatim>\<open>panic\<close> ends the process and
  is the outcome \<open>Panic\<close>.
\<close>

section \<open>Code\<close>

abbreviation MAXARGS :: nat where "MAXARGS \<equiv> 10"

datatype cmd =
    EXEC "(nat \<times> nat) list"
  | REDIR cmd nat nat c_int nat
  | PIPE cmd cmd
  | LIST cmd cmd
  | BACK cmd

definition whitespace :: "u8 list" where "whitespace = [32, 9, 13, 10, 11]"

definition symbols :: "u8 list" where "symbols = str ''<|>&;()''"

definition char_at :: "u8 list \<Rightarrow> nat \<Rightarrow> u8" where
  "char_at s i = (if i < length s then s ! i else 0)"

definition is_white :: "u8 \<Rightarrow> bool" where "is_white c = (strchr whitespace c \<noteq> None)"

definition is_symbol :: "u8 \<Rightarrow> bool" where "is_symbol c = (strchr symbols c \<noteq> None)"

function skip_white :: "u8 list \<Rightarrow> nat \<Rightarrow> nat" where
  "skip_white s i = (if i < length s \<and> is_white (s ! i) then skip_white s (Suc i) else i)"
  by pat_completeness auto
termination
  by (relation "measure (\<lambda>(s, i). length s - i)") auto

function skip_word :: "u8 list \<Rightarrow> nat \<Rightarrow> nat" where
  "skip_word s i =
     (if i < length s \<and> \<not> is_white (s ! i) \<and> \<not> is_symbol (s ! i) then skip_word s (Suc i) else i)"
  by pat_completeness auto
termination
  by (relation "measure (\<lambda>(s, i). length s - i)") auto

declare skip_white.simps [simp del] skip_word.simps [simp del]

text \<open>\<^verbatim>\<open>gettoken\<close>: the kind of the token, its first and its end position, and the new \<^verbatim>\<open>*ps\<close>.\<close>

definition gettoken :: "u8 list \<Rightarrow> nat \<Rightarrow> u8 \<times> nat \<times> nat \<times> nat" where
  "gettoken s p =
     (let q = skip_white s p;
          c = char_at s q;
          (ret, e) =
            (if c = 0 then (0, q)
             else if c \<in> set (str ''|();&<'') then (c, Suc q)
             else if c = chr CHR ''>'' then
               (if char_at s (Suc q) = chr CHR ''>'' then (chr CHR ''+'', Suc (Suc q)) else (c, Suc q))
             else (chr CHR ''a'', skip_word s q))
      in (ret, q, e, skip_white s e))"

definition peek :: "u8 list \<Rightarrow> nat \<Rightarrow> string \<Rightarrow> bool \<times> nat" where
  "peek s p toks =
     (let p = skip_white s p in (char_at s p \<noteq> 0 \<and> strchr (str toks) (char_at s p) \<noteq> None, p))"

definition redirection :: "u8 \<Rightarrow> cmd \<Rightarrow> nat \<Rightarrow> nat \<Rightarrow> cmd" where
  "redirection tok cmd q eq =
     (if tok = chr CHR ''<'' then REDIR cmd q eq O_RDONLY 0
      else if tok = chr CHR ''>'' then REDIR cmd q eq (O_WRONLY OR O_CREATE OR O_TRUNC) 1
      else if tok = chr CHR ''+'' then REDIR cmd q eq (O_WRONLY OR O_CREATE) 1
      else cmd)"

text \<open>Positions move forward, which is why the loops end.\<close>

lemma skip_white_le: "p \<le> skip_white s p"
  by (induction s p rule: skip_white.induct) (subst skip_white.simps, auto)

lemma skip_word_le: "p \<le> skip_word s p"
  by (induction s p rule: skip_word.induct) (subst skip_word.simps, auto)

lemma skip_word_less: "p < length s \<Longrightarrow> \<not> is_white (s ! p) \<Longrightarrow> \<not> is_symbol (s ! p) \<Longrightarrow> p < skip_word s p"
  using skip_word_le [of "Suc p" s] by (subst skip_word.simps) simp

lemma skip_white_stop:
  "skip_white s p < length s \<Longrightarrow> \<not> is_white (s ! skip_white s p)"
proof (induction s p rule: skip_white.induct)
  case (1 s p)
  then show ?case
    by (cases "p < length s \<and> is_white (s ! p)") (simp_all add: skip_white.simps [of s p])
qed

lemma symbol_cases:
  "is_symbol c \<longleftrightarrow> c \<in> set (str ''|();&<'') \<or> c = chr CHR ''>''"
  by (auto simp: is_symbol_def symbols_def str_def chr_def)

lemma gettoken_forward:
  assumes "gettoken s p = (tok, q, e, p')"
  shows "p \<le> q" and "q \<le> e" and "e \<le> p'" and "tok \<noteq> 0 \<Longrightarrow> q < e"
proof -
  have w: "p \<le> skip_white s p" "q \<le> skip_word s q" "e \<le> skip_white s e"
    by (rule skip_white_le skip_word_le)+
  show "p \<le> q" "q \<le> e" "e \<le> p'"
    using assms w by (auto simp: gettoken_def Let_def split: if_splits)
  assume "tok \<noteq> 0"
  then have c: "char_at s q \<noteq> 0" and q: "q = skip_white s p"
    using assms by (auto simp: gettoken_def Let_def split: if_splits)
  then have "q < length s"
    by (auto simp: char_at_def split: if_splits)
  then have "is_symbol (char_at s q) \<or> q < skip_word s q"
    using skip_white_stop [of s p] skip_word_less [of q s] q by (auto simp: char_at_def)
  then show "q < e"
    using assms c q unfolding symbol_cases by (auto simp: gettoken_def Let_def split: if_splits)
qed

lemma peek_forward: "peek s p toks = (b, p') \<Longrightarrow> p \<le> p'"
  using skip_white_le [of p s] by (auto simp: peek_def Let_def)

lemma peek_inside: "peek s p toks = (True, p') \<Longrightarrow> p' < length s"
  by (auto simp: peek_def Let_def char_at_def split: if_splits)

lemma skip_white_idem [simp]: "skip_white s (skip_white s p) = skip_white s p"
  using skip_white_stop [of s p] by (subst skip_white.simps) auto

lemma peek_token:
  assumes "peek s p toks = (True, p')" "gettoken s p' = (tok, q, e, p'')"
  shows "p' < p''"
proof -
  have "char_at s p' \<noteq> 0" "skip_white s p' = p'"
    using assms(1) by (auto simp: peek_def Let_def)
  then have "tok \<noteq> 0"
    using assms(2) by (auto simp: gettoken_def Let_def chr_def split: if_splits)
  then show ?thesis
    using gettoken_forward [OF assms(2)] by simp
qed

function parseredirs :: "u8 list \<Rightarrow> cmd \<Rightarrow> nat \<Rightarrow> (cmd \<times> nat) res" where
  "parseredirs s cmd p =
     (let (redir, p) = peek s p ''<>'' in
      if redir then
        let (tok, _, _, p) = gettoken s p;
            (tok', q, eq, p) = gettoken s p
        in if tok' \<noteq> chr CHR ''a'' then Panic ''missing file for redirection''
           else parseredirs s (redirection tok cmd q eq) p
      else Ok (cmd, p))"
  by pat_completeness auto
termination
proof (relation "measure (\<lambda>(s, cmd, p). length s - p)", goal_cases)
  case (2 s cmd p x b p1 y tok y1 q1 y2 e1 p2 z tok' z1 q z2 eq p3)
  then have t: "peek s p ''<>'' = (True, p1)" "gettoken s p1 = (tok, q1, e1, p2)" "gettoken s p2 = (tok', q, eq, p3)"
    by auto
  then have "p < p3" "p < length s"
    using peek_token [OF t(1,2)] peek_forward [OF t(1)] peek_inside [OF t(1)] gettoken_forward [OF t(3)] by auto
  then show ?case
    by simp
qed simp

declare parseredirs.simps [simp del]

lemma parseredirs_forward: "parseredirs s cmd p = Ok (cmd', p') \<Longrightarrow> p \<le> p'"
proof (induction s cmd p rule: parseredirs.induct)
  case (1 s cmd p)
  obtain b p1 tok q1 e1 p2 tok' q eq p3 where
    t: "peek s p ''<>'' = (b, p1)" "gettoken s p1 = (tok, q1, e1, p2)" "gettoken s p2 = (tok', q, eq, p3)"
    by (metis prod.exhaust)
  have "p \<le> p1" "p1 \<le> p2" "p2 \<le> p3"
    using peek_forward [OF t(1)] gettoken_forward [OF t(2)] gettoken_forward [OF t(3)] by auto
  moreover have "p3 \<le> p'" if "b" "tok' = chr CHR ''a''"
    using 1 t that by (subst (asm) parseredirs.simps) auto
  ultimately show ?case
    using 1(2) t by (subst (asm) parseredirs.simps) (auto split: if_splits)
qed

text \<open>
  The exec node stays reachable through \<^verbatim>\<open>cmd\<close> while \<^verbatim>\<open>ret\<close> is wrapped in redirections: \<open>push_arg\<close> is the pair of
  assignments to its arrays.
\<close>

fun push_arg :: "nat \<times> nat \<Rightarrow> cmd \<Rightarrow> cmd" where
  "push_arg a (EXEC as) = EXEC (as @ [a])"
| "push_arg a (REDIR c q e mode fd) = REDIR (push_arg a c) q e mode fd"
| "push_arg a c = c"

function parseargs :: "u8 list \<Rightarrow> cmd \<Rightarrow> nat \<Rightarrow> nat \<Rightarrow> (cmd \<times> nat) res" where
  "parseargs s node argc p =
     (let (stop, p) = peek s p ''|)&;'' in
      if stop then Ok (node, p)
      else
        let (tok, q, eq, p) = gettoken s p in
        if tok = 0 then Ok (node, p)
        else if tok \<noteq> chr CHR ''a'' then Panic ''syntax''
        else
          let node = push_arg (q, eq) node; argc = Suc argc in
          if argc \<ge> MAXARGS then Panic ''too many args''
          else rbind (parseredirs s node p) (\<lambda>(node, p). parseargs s node argc p))"
  by pat_completeness auto
termination
  by (relation "measure (\<lambda>(s, node, argc, p). MAXARGS - argc)") auto

declare parseargs.simps [simp del]

function parse_backs :: "u8 list \<Rightarrow> cmd \<Rightarrow> nat \<Rightarrow> cmd \<times> nat" where
  "parse_backs s cmd p =
     (let (amp, p) = peek s p ''&'' in
      if amp then let (_, _, _, p) = gettoken s p in parse_backs s (BACK cmd) p else (cmd, p))"
  by pat_completeness auto
termination
proof (relation "measure (\<lambda>(s, cmd, p). length s - p)", goal_cases)
  case (2 s cmd p x b p1 y tok y1 q y2 e p2)
  then have t: "peek s p ''&'' = (True, p1)" "gettoken s p1 = (tok, q, e, p2)"
    by auto
  then show ?case
    using peek_token [OF t] peek_forward [OF t(1)] peek_inside [OF t(1)] by simp
qed simp

declare parse_backs.simps [simp del]

fun parseline :: "nat \<Rightarrow> u8 list \<Rightarrow> nat \<Rightarrow> (cmd \<times> nat) res"
  and parsepipe :: "nat \<Rightarrow> u8 list \<Rightarrow> nat \<Rightarrow> (cmd \<times> nat) res"
  and parseexec :: "nat \<Rightarrow> u8 list \<Rightarrow> nat \<Rightarrow> (cmd \<times> nat) res"
  and parseblock :: "nat \<Rightarrow> u8 list \<Rightarrow> nat \<Rightarrow> (cmd \<times> nat) res" where
  "parseline 0 s p = Stuck"
| "parseline (Suc n) s p =
     rbind (parsepipe n s p) (\<lambda>(cmd, p).
       let (cmd, p) = parse_backs s cmd p;
           (semi, p) = peek s p '';''
       in if semi then
            let (_, _, _, p) = gettoken s p in
            rbind (parseline n s p) (\<lambda>(right, p). Ok (LIST cmd right, p))
          else Ok (cmd, p))"
| "parsepipe 0 s p = Stuck"
| "parsepipe (Suc n) s p =
     rbind (parseexec n s p) (\<lambda>(cmd, p).
       let (bar, p) = peek s p ''|'' in
       if bar then
         let (_, _, _, p) = gettoken s p in
         rbind (parsepipe n s p) (\<lambda>(right, p). Ok (PIPE cmd right, p))
       else Ok (cmd, p))"
| "parseexec 0 s p = Stuck"
| "parseexec (Suc n) s p =
     (let (block, p) = peek s p ''('' in
      if block then parseblock n s p
      else rbind (parseredirs s (EXEC []) p) (\<lambda>(node, p). parseargs s node 0 p))"
| "parseblock 0 s p = Stuck"
| "parseblock (Suc n) s p =
     (let (open_paren, p) = peek s p ''('' in
      if \<not> open_paren then Panic ''parseblock''
      else
        let (_, _, _, p) = gettoken s p in
        rbind (parseline n s p) (\<lambda>(cmd, p).
          let (close_paren, p) = peek s p '')'' in
          if \<not> close_paren then Panic ''syntax - missing )''
          else
            let (_, _, _, p) = gettoken s p in
            parseredirs s cmd p))"

declare parseline.simps(2) [simp del] parsepipe.simps(2) [simp del] parseexec.simps(2) [simp del] parseblock.simps(2) [simp del]

definition parse_fuel :: "u8 list \<Rightarrow> nat" where
  "parse_fuel s = 4 * length s + 4"

text \<open>\<^verbatim>\<open>nulterminate\<close>, on the memory that holds the line at address \<open>base\<close>.\<close>

fun nulterminate :: "nat \<Rightarrow> mem \<Rightarrow> cmd \<Rightarrow> mem" where
  "nulterminate base m (EXEC as) = fold (\<lambda>(q, e) m. m(base + e := 0)) as m"
| "nulterminate base m (REDIR c q e mode fd) = (nulterminate base m c)(base + e := 0)"
| "nulterminate base m (PIPE l r) = nulterminate base (nulterminate base m l) r"
| "nulterminate base m (LIST l r) = nulterminate base (nulterminate base m l) r"
| "nulterminate base m (BACK c) = nulterminate base m c"

text \<open>\<^verbatim>\<open>parsecmd\<close>: the tree and the memory after \<^verbatim>\<open>nulterminate\<close>.\<close>

definition parsecmd :: "nat \<Rightarrow> mem \<Rightarrow> u8 list \<Rightarrow> (cmd \<times> mem) res" where
  "parsecmd base m s =
     rbind (parseline (parse_fuel s) s 0) (\<lambda>(cmd, p).
       let (_, p) = peek s p [] in
       if p \<noteq> length s then Panic ''syntax''
       else Ok (cmd, nulterminate base m cmd))"

text \<open>\<^verbatim>\<open>getcmd\<close>: the result, the line in the buffer and the input that is left.\<close>

definition getcmd :: "c_int \<Rightarrow> u8 list \<Rightarrow> c_int \<times> u8 list \<times> u8 list" where
  "getcmd nbuf inp =
     (let (buf, inp) = gets nbuf inp in
      (if buf = [] \<or> hd buf = 0 then - 1 else 0, buf, inp))"

section \<open>Termination\<close>

lemma parseredirs_not_Stuck: "parseredirs s cmd p \<noteq> Stuck"
proof (induction s cmd p rule: parseredirs.induct)
  case (1 s cmd p)
  then show ?case
    by (subst parseredirs.simps) (simp split: prod.splits)
qed

lemma rbind_eq_Stuck: "rbind r f = Stuck \<longleftrightarrow> r = Stuck \<or> (\<exists>x. r = Ok x \<and> f x = Stuck)"
  by (cases r) auto

lemma parseargs_not_Stuck: "parseargs s node argc p \<noteq> Stuck"
proof (induction s node argc p rule: parseargs.induct)
  case (1 s node argc p)
  then show ?case
    by (subst parseargs.simps) (auto simp: Let_def rbind_eq_Stuck parseredirs_not_Stuck split: prod.splits)
qed

lemma parseargs_forward: "parseargs s node argc p = Ok (cmd', p') \<Longrightarrow> p \<le> p'"
proof (induction s node argc p rule: parseargs.induct)
  case (1 s node argc p)
  obtain b p1 tok q e p2 where t: "peek s p ''|)&;'' = (b, p1)" "gettoken s p1 = (tok, q, e, p2)"
    by (metis prod.exhaust)
  have le: "p \<le> p1" "p1 \<le> p2"
    using peek_forward [OF t(1)] gettoken_forward [OF t(2)] by auto
  show ?case
  proof (cases "b \<or> tok = 0")
    case True
    then show ?thesis
      using 1(2) t le by (subst (asm) parseargs.simps) (auto split: if_splits)
  next
    case False
    then obtain node' p3 where r: "parseredirs s (push_arg (q, e) node) p2 = Ok (node', p3)"
      "parseargs s node' (Suc argc) p3 = Ok (cmd', p')" "tok = chr CHR ''a''" "Suc argc < MAXARGS"
      using 1(2) t by (subst (asm) parseargs.simps) (auto simp: Let_def rbind_eq_Ok split: if_splits)
    have "p3 \<le> p'"
      using 1(1) [OF t(1) [symmetric] refl _ t(2) [symmetric] refl refl refl] r False by simp
    then show ?thesis
      using le parseredirs_forward [OF r(1)] by simp
  qed
qed

lemma parse_backs_forward: "parse_backs s cmd p = (cmd', p') \<Longrightarrow> p \<le> p'"
proof (induction s cmd p rule: parse_backs.induct)
  case (1 s cmd p)
  obtain b p1 tok q e p2 where t: "peek s p ''&'' = (b, p1)" "gettoken s p1 = (tok, q, e, p2)"
    by (metis prod.exhaust)
  have "p \<le> p1" "p1 \<le> p2"
    using peek_forward [OF t(1)] gettoken_forward [OF t(2)] by auto
  moreover have "b \<Longrightarrow> p2 \<le> p'"
    using 1 t by (subst (asm) parse_backs.simps) simp
  ultimately show ?case
    using 1(2) t by (subst (asm) parse_backs.simps) (auto split: if_splits)
qed

text \<open>\<open>forward p r\<close>: the parser did not run out of fuel, and if it returned it did not go back before \<open>p\<close>.\<close>

definition forward :: "nat \<Rightarrow> (cmd \<times> nat) res \<Rightarrow> bool" where
  "forward p r \<longleftrightarrow> r \<noteq> Stuck \<and> (\<forall>c p'. r = Ok (c, p') \<longrightarrow> p \<le> p')"

lemma forward_Ok [simp]: "forward p (Ok (c, p')) \<longleftrightarrow> p \<le> p'"
  by (simp add: forward_def)

lemma forward_Panic [simp]: "forward p (Panic e)"
  by (simp add: forward_def)

lemma forward_weaken: "forward p' r \<Longrightarrow> p \<le> p' \<Longrightarrow> forward p r"
  by (auto simp: forward_def)

lemma forward_rbind: "forward p r \<Longrightarrow> (\<And>c p'. p \<le> p' \<Longrightarrow> forward p (f (c, p'))) \<Longrightarrow> forward p (rbind r f)"
  by (cases r) (auto simp: forward_def)

lemma forward_parseredirs: "forward p (parseredirs s cmd p)"
  using parseredirs_not_Stuck parseredirs_forward by (auto simp: forward_def)

lemma forward_parseargs: "forward p (parseargs s node argc p)"
  using parseargs_not_Stuck parseargs_forward by (auto simp: forward_def)

lemma peek_gettoken_progress:
  "peek s p toks = (True, p1) \<Longrightarrow> gettoken s p1 = (tok, q, e, p2) \<Longrightarrow> p \<le> p2 \<and> length s - p2 < length s - p"
  using peek_token peek_forward peek_inside by fastforce

lemma forward_token:
  assumes "peek s p1 toks = (b, p2)" and "p \<le> p1"
    and "\<And>tok q e p3. b \<Longrightarrow> gettoken s p2 = (tok, q, e, p3) \<Longrightarrow> p \<le> p3 \<Longrightarrow> length s - p3 < length s - p \<Longrightarrow> forward p (f p3)"
    and "\<not> b \<Longrightarrow> p \<le> p2 \<Longrightarrow> forward p g"
  shows "forward p (if b then let (_, _, _, p3) = gettoken s p2 in f p3 else g)"
proof (cases b)
  case True
  obtain tok q e p3 where t: "gettoken s p2 = (tok, q, e, p3)"
    by (metis prod.exhaust)
  have "p1 \<le> p3 \<and> length s - p3 < length s - p1"
    using peek_gettoken_progress [OF _ t] assms(1) True by simp
  then show ?thesis
    using assms(2,3) True t by auto
next
  case False
  then show ?thesis
    using assms(2,4) peek_forward [OF assms(1)] by simp
qed

lemma forward_parseline:
  assumes "forward p (parsepipe n s p)"
    and rec: "\<And>p'. p \<le> p' \<Longrightarrow> length s - p' < length s - p \<Longrightarrow> forward p' (parseline n s p')"
  shows "forward p (parseline (Suc n) s p)"
  unfolding parseline.simps
proof (rule forward_rbind [OF assms(1)])
  fix c p1
  assume "p \<le> p1"
  moreover obtain c' p2 b p3 where t: "parse_backs s c p1 = (c', p2)" "peek s p2 '';'' = (b, p3)"
    by (metis prod.exhaust)
  ultimately have "p \<le> p2"
    using parse_backs_forward [OF t(1)] by simp
  moreover have "forward p (rbind (parseline n s p') (\<lambda>(right, p). Ok (LIST c' right, p)))"
    if "p \<le> p'" "length s - p' < length s - p" for p'
    using rec [OF that] that by (intro forward_rbind) (auto intro: forward_weaken)
  ultimately show "forward p (case (c, p1) of (cmd, p) \<Rightarrow>
    let (cmd, p) = parse_backs s cmd p; (semi, p) = peek s p '';''
    in if semi then let (_, _, _, p) = gettoken s p in rbind (parseline n s p) (\<lambda>(right, p). Ok (LIST cmd right, p))
       else Ok (cmd, p))"
    using t by (simp add: forward_token [OF t(2)])
qed

lemma forward_parsepipe:
  assumes "forward p (parseexec n s p)"
    and rec: "\<And>p'. p \<le> p' \<Longrightarrow> length s - p' < length s - p \<Longrightarrow> forward p' (parsepipe n s p')"
  shows "forward p (parsepipe (Suc n) s p)"
  unfolding parsepipe.simps
proof (rule forward_rbind [OF assms(1)])
  fix c p1
  assume "p \<le> p1"
  moreover obtain b p2 where t: "peek s p1 ''|'' = (b, p2)"
    by (metis prod.exhaust)
  moreover have "forward p (rbind (parsepipe n s p') (\<lambda>(right, p). Ok (PIPE c right, p)))"
    if "p \<le> p'" "length s - p' < length s - p" for p'
    using rec [OF that] that by (intro forward_rbind) (auto intro: forward_weaken)
  ultimately show "forward p (case (c, p1) of (cmd, p) \<Rightarrow>
    let (bar, p) = peek s p ''|''
    in if bar then let (_, _, _, p) = gettoken s p in rbind (parsepipe n s p) (\<lambda>(right, p). Ok (PIPE cmd right, p))
       else Ok (cmd, p))"
    using t by (simp add: forward_token [OF t])
qed

lemma forward_parseexec:
  assumes "\<And>p'. p \<le> p' \<Longrightarrow> forward p' (parseblock n s p')"
  shows "forward p (parseexec (Suc n) s p)"
proof -
  obtain b p1 where t: "peek s p ''('' = (b, p1)"
    by (metis prod.exhaust)
  then have "p \<le> p1"
    by (rule peek_forward)
  moreover have "forward p1 (rbind (parseredirs s (EXEC []) p1) (\<lambda>(node, p). parseargs s node 0 p))"
    by (rule forward_rbind) (auto intro: forward_parseredirs forward_weaken [OF forward_parseargs])
  ultimately show ?thesis
    using t assms by (auto simp: parseexec.simps intro: forward_weaken)
qed

lemma forward_parseblock:
  assumes rec: "\<And>p'. p \<le> p' \<Longrightarrow> length s - p' < length s - p \<Longrightarrow> forward p' (parseline n s p')"
  shows "forward p (parseblock (Suc n) s p)"
proof -
  obtain b p1 tok q e p2 where t: "peek s p ''('' = (b, p1)" "gettoken s p1 = (tok, q, e, p2)"
    by (metis prod.exhaust)
  show ?thesis
  proof (cases b)
    case True
    then have p2: "p \<le> p2" "length s - p2 < length s - p"
      using peek_gettoken_progress [of s p "''(''" p1 tok q e p2] t by simp_all
    have "forward p2 (rbind (parseline n s p2) (\<lambda>(cmd, p).
          let (close_paren, p) = peek s p '')'' in
          if \<not> close_paren then Panic ''syntax - missing )''
          else let (_, _, _, p) = gettoken s p in parseredirs s cmd p))"
    proof (rule forward_rbind [OF rec [OF p2]], simp only: prod.case)
      fix c p3
      assume "p2 \<le> p3"
      moreover obtain b' p4 tok' q' e' p5 where u: "peek s p3 '')'' = (b', p4)" "gettoken s p4 = (tok', q', e', p5)"
        by (metis prod.exhaust)
      ultimately have "p2 \<le> p5"
        using peek_forward [OF u(1)] gettoken_forward [OF u(2)] by simp
      then show "forward p2 (let (close_paren, p) = peek s p3 '')'' in
          if \<not> close_paren then Panic ''syntax - missing )''
          else let (_, _, _, p) = gettoken s p in parseredirs s c p)"
        using u by (simp add: forward_weaken [OF forward_parseredirs])
    qed
    then show ?thesis
      using t True p2 by (simp add: parseblock.simps forward_weaken)
  qed (use t in \<open>simp add: parseblock.simps\<close>)
qed

lemma parser_forward:
  "4 * (length s - p) + 4 \<le> n \<Longrightarrow> forward p (parseline n s p)"
  "4 * (length s - p) + 3 \<le> n \<Longrightarrow> forward p (parsepipe n s p)"
  "4 * (length s - p) + 2 \<le> n \<Longrightarrow> forward p (parseexec n s p)"
  "4 * (length s - p) + 1 \<le> n \<Longrightarrow> forward p (parseblock n s p)"
proof (induction n arbitrary: p)
  case (Suc n)
  {
    case 1
    then show ?case
      by (intro forward_parseline Suc.IH) auto
  next
    case 2
    then show ?case
      by (intro forward_parsepipe Suc.IH) auto
  next
    case 3
    have "4 * (length s - p') + 1 \<le> n" if "p \<le> p'" for p'
      using 3 that by simp
    then show ?case
      by (intro forward_parseexec Suc.IH)
  next
    case 4
    then show ?case
      by (intro forward_parseblock Suc.IH) auto
  }
qed simp_all

text \<open>More fuel does not change a result.\<close>

lemma rbind_more_fuel:
  "rbind r f \<noteq> Stuck \<Longrightarrow> (r \<noteq> Stuck \<Longrightarrow> r' = r) \<Longrightarrow> (\<And>x. r = Ok x \<Longrightarrow> f x \<noteq> Stuck \<Longrightarrow> f' x = f x) \<Longrightarrow>
   rbind r' f' = rbind r f"
  by (cases r) auto

lemma more_fuel_step:
  "parseline n s p \<noteq> Stuck \<Longrightarrow> parseline (Suc n) s p = parseline n s p"
  "parsepipe n s p \<noteq> Stuck \<Longrightarrow> parsepipe (Suc n) s p = parsepipe n s p"
  "parseexec n s p \<noteq> Stuck \<Longrightarrow> parseexec (Suc n) s p = parseexec n s p"
  "parseblock n s p \<noteq> Stuck \<Longrightarrow> parseblock (Suc n) s p = parseblock n s p"
proof (induction n arbitrary: p)
  case (Suc n)
  {
    case 1
    then show ?case
      unfolding parseline.simps(2) [of n s p] parseline.simps(2) [of "Suc n" s p]
      by (rule rbind_more_fuel) (auto simp: Let_def Suc.IH rbind_eq_Stuck split: prod.splits if_splits intro!: rbind_more_fuel)
  next
    case 2
    then show ?case
      unfolding parsepipe.simps(2) [of n s p] parsepipe.simps(2) [of "Suc n" s p]
      by (rule rbind_more_fuel) (auto simp: Let_def Suc.IH rbind_eq_Stuck split: prod.splits if_splits intro!: rbind_more_fuel)
  next
    case 3
    then show ?case
      unfolding parseexec.simps(2) [of n s p] parseexec.simps(2) [of "Suc n" s p]
      by (auto simp: Let_def Suc.IH split: prod.splits if_splits)
  next
    case 4
    then show ?case
      unfolding parseblock.simps(2) [of n s p] parseblock.simps(2) [of "Suc n" s p]
      by (auto simp: Let_def Suc.IH split: prod.splits if_splits intro!: rbind_more_fuel)
  }
qed simp_all

lemma parseline_more_fuel: "parseline n s p \<noteq> Stuck \<Longrightarrow> parseline (n + k) s p = parseline n s p"
  by (induction k) (simp_all add: more_fuel_step)

lemma parseline_returns: "parseline (parse_fuel s) s 0 \<noteq> Stuck"
  using parser_forward(1) [of s 0 "parse_fuel s"] by (simp add: parse_fuel_def forward_def)

text \<open>
  Claim C30: The shell's parser ends on every line: four recursive calls for each byte and four more are always enough, more
  of them do not change the result, so \<^verbatim>\<open>parsecmd\<close> returns a tree or panics with a syntax error.
\<close>

theorem parsecmd_terminates:
  "parsecmd base m s \<noteq> Stuck \<and> (\<forall>k. parseline (parse_fuel s + k) s 0 = parseline (parse_fuel s) s 0)"
proof
  show "parsecmd base m s \<noteq> Stuck"
    using parseline_returns [of s] by (auto simp: parsecmd_def rbind_eq_Stuck split: prod.splits)
  show "\<forall>k. parseline (parse_fuel s + k) s 0 = parseline (parse_fuel s) s 0"
    using parseline_more_fuel [OF parseline_returns] by blast
qed

section \<open>Well-formed trees\<close>

definition word_char :: "u8 \<Rightarrow> bool" where
  "word_char c \<longleftrightarrow> \<not> is_white c \<and> \<not> is_symbol c"

text \<open>A token is a longest non-empty run of word characters.\<close>

definition token :: "u8 list \<Rightarrow> nat \<times> nat \<Rightarrow> bool" where
  "token s t \<longleftrightarrow> (case t of (q, e) \<Rightarrow>
     q < e \<and> e \<le> length s \<and> (\<forall>i. q \<le> i \<and> i < e \<longrightarrow> word_char (s ! i)) \<and> (e < length s \<longrightarrow> \<not> word_char (s ! e)))"

definition redir_modes :: "(c_int \<times> nat) set" where
  "redir_modes = {(O_RDONLY, 0), (O_WRONLY OR O_CREATE OR O_TRUNC, 1), (O_WRONLY OR O_CREATE, 1)}"

fun wf_cmd :: "u8 list \<Rightarrow> cmd \<Rightarrow> bool" where
  "wf_cmd s (EXEC as) \<longleftrightarrow> length as < MAXARGS \<and> (\<forall>a \<in> set as. token s a)"
| "wf_cmd s (REDIR c q e mode fd) \<longleftrightarrow> wf_cmd s c \<and> token s (q, e) \<and> (mode, fd) \<in> redir_modes"
| "wf_cmd s (PIPE l r) \<longleftrightarrow> wf_cmd s l \<and> wf_cmd s r"
| "wf_cmd s (LIST l r) \<longleftrightarrow> wf_cmd s l \<and> wf_cmd s r"
| "wf_cmd s (BACK c) \<longleftrightarrow> wf_cmd s c"

fun tokens :: "cmd \<Rightarrow> (nat \<times> nat) list" where
  "tokens (EXEC as) = as"
| "tokens (REDIR c q e mode fd) = tokens c @ [(q, e)]"
| "tokens (PIPE l r) = tokens l @ tokens r"
| "tokens (LIST l r) = tokens l @ tokens r"
| "tokens (BACK c) = tokens c"

lemma skip_word_run:
  "p \<le> length s \<Longrightarrow> skip_word s p \<le> length s \<and> (\<forall>i. p \<le> i \<and> i < skip_word s p \<longrightarrow> word_char (s ! i)) \<and>
    (skip_word s p < length s \<longrightarrow> \<not> word_char (s ! skip_word s p))"
proof (induction s p rule: skip_word.induct)
  case (1 s p)
  show ?case
  proof (cases "p < length s \<and> word_char (s ! p)")
    case True
    then have eq: "skip_word s p = skip_word s (Suc p)"
      by (simp add: skip_word.simps [of s p] word_char_def)
    have IH: "skip_word s (Suc p) \<le> length s \<and> (\<forall>i. Suc p \<le> i \<and> i < skip_word s (Suc p) \<longrightarrow> word_char (s ! i)) \<and>
      (skip_word s (Suc p) < length s \<longrightarrow> \<not> word_char (s ! skip_word s (Suc p)))"
      using True by (intro 1(1)) (simp_all add: word_char_def)
    moreover have "word_char (s ! i)" if "p \<le> i" "i < skip_word s (Suc p)" for i
      using IH True that by (metis Suc_leI le_neq_implies_less)
    ultimately show ?thesis
      unfolding eq by blast
  next
    case False
    then have "skip_word s p = p"
      by (auto simp: skip_word.simps [of s p] word_char_def)
    then show ?thesis
      using False 1(2) by (metis leD)
  qed
qed

lemma gettoken_token:
  assumes "gettoken s p = (chr CHR ''a'', q, e, p')"
  shows "token s (q, e)"
proof -
  have "chr CHR ''a'' \<noteq> 0"
    by (simp add: chr_def)
  then have less: "q < e"
    using gettoken_forward(4) [OF assms] by simp
  have q: "q = skip_white s p" "char_at s q \<noteq> 0" "e = skip_word s q"
    using assms by (auto simp: gettoken_def Let_def chr_def str_def split: if_splits)
  then have "q \<le> length s"
    by (auto simp: char_at_def split: if_splits)
  then show ?thesis
    using skip_word_run [of q s] less q(3) by (auto simp: token_def)
qed

text \<open>\<open>yields Q r\<close>: the tree that the parser returns satisfies \<open>Q\<close>.\<close>

definition yields :: "(cmd \<Rightarrow> bool) \<Rightarrow> (cmd \<times> nat) res \<Rightarrow> bool" where
  "yields Q r \<longleftrightarrow> (\<forall>c p. r = Ok (c, p) \<longrightarrow> Q c)"

lemma yields_simps [simp]:
  "yields Q (Ok (c, p)) \<longleftrightarrow> Q c" "yields Q (Panic e)" "yields Q Stuck"
  by (simp_all add: yields_def)

lemma yields_rbind: "yields P r \<Longrightarrow> (\<And>c p. r = Ok (c, p) \<Longrightarrow> P c \<Longrightarrow> yields Q (f (c, p))) \<Longrightarrow> yields Q (rbind r f)"
  by (cases r) (simp_all add: split_paired_all)

text \<open>The arguments of the exec node under a chain of redirections.\<close>

fun args_of :: "cmd \<Rightarrow> (nat \<times> nat) list option" where
  "args_of (EXEC as) = Some as"
| "args_of (REDIR c q e mode fd) = args_of c"
| "args_of _ = None"

lemma redirection_wf:
  "wf_cmd s c \<Longrightarrow> token s (q, e) \<Longrightarrow> wf_cmd s (redirection tok c q e) \<and> args_of (redirection tok c q e) = args_of c"
  by (auto simp: redirection_def redir_modes_def)

lemma push_arg_wf:
  "wf_cmd s c \<Longrightarrow> token s a \<Longrightarrow> args_of c = Some as \<Longrightarrow> Suc (length as) < MAXARGS \<Longrightarrow>
   wf_cmd s (push_arg a c) \<and> args_of (push_arg a c) = Some (as @ [a])"
  by (induction c) auto

lemma parseredirs_wf:
  "wf_cmd s cmd \<Longrightarrow> yields (\<lambda>c. wf_cmd s c \<and> args_of c = args_of cmd) (parseredirs s cmd p)"
proof (induction s cmd p rule: parseredirs.induct)
  case (1 s cmd p)
  obtain b p1 tok q1 e1 p2 tok' q eq p3 where
    t: "peek s p ''<>'' = (b, p1)" "gettoken s p1 = (tok, q1, e1, p2)" "gettoken s p2 = (tok', q, eq, p3)"
    by (metis prod.exhaust)
  show ?case
  proof (cases "b \<and> tok' = chr CHR ''a''")
    case True
    then have "wf_cmd s (redirection tok cmd q eq) \<and> args_of (redirection tok cmd q eq) = args_of cmd"
      using redirection_wf [OF 1(2)] gettoken_token t(3) by blast
    then show ?thesis
      using 1(1) [OF t(1) [symmetric] refl _ t(2) [symmetric] refl refl refl t(3) [symmetric] refl refl refl] True t
      by (subst parseredirs.simps) simp
  next
    case False
    then show ?thesis
      using t 1(2) by (subst parseredirs.simps) auto
  qed
qed

lemma parseredirs_wf': "wf_cmd s cmd \<Longrightarrow> yields (wf_cmd s) (parseredirs s cmd p)"
  using parseredirs_wf by (auto simp: yields_def)

lemma parseargs_wf:
  "wf_cmd s node \<Longrightarrow> args_of node = Some as \<Longrightarrow> argc = length as \<Longrightarrow> yields (wf_cmd s) (parseargs s node argc p)"
proof (induction s node argc p arbitrary: as rule: parseargs.induct)
  case (1 s node argc p)
  obtain b p1 tok q e p2 where t: "peek s p ''|)&;'' = (b, p1)" "gettoken s p1 = (tok, q, e, p2)"
    by (metis prod.exhaust)
  show ?case
  proof (cases "\<not> b \<and> tok = chr CHR ''a'' \<and> Suc argc < MAXARGS")
    case True
    then have push: "wf_cmd s (push_arg (q, e) node)" "args_of (push_arg (q, e) node) = Some (as @ [(q, e)])"
      using push_arg_wf [OF 1(2) gettoken_token 1(3), of p1 q e p2] t(2) 1(4) by simp_all
    have "tok \<noteq> 0"
      using True by (simp add: chr_def)
    then have IH: "yields (wf_cmd s) (parseargs s c (Suc argc) p3)"
      if "parseredirs s (push_arg (q, e) node) p2 = Ok (c, p3)" "wf_cmd s c" "args_of c = Some (as @ [(q, e)])" for c p3
      using 1(1) [OF t(1) [symmetric] refl _ t(2) [symmetric] refl refl refl _ _ refl refl _ that(1) refl that(2,3)] True 1(4)
      by simp
    have "yields (wf_cmd s) (rbind (parseredirs s (push_arg (q, e) node) p2) (\<lambda>(node, p). parseargs s node (Suc argc) p))"
      using push IH by (intro yields_rbind [OF parseredirs_wf]) auto
    then show ?thesis
      using t True \<open>tok \<noteq> 0\<close> by (subst parseargs.simps) (simp add: Let_def)
  next
    case False
    then show ?thesis
      using t 1(2) by (subst parseargs.simps) (auto simp: Let_def)
  qed
qed

lemma parse_backs_wf: "parse_backs s cmd p = (cmd', p') \<Longrightarrow> wf_cmd s cmd \<Longrightarrow> wf_cmd s cmd'"
proof (induction s cmd p rule: parse_backs.induct)
  case (1 s cmd p)
  then show ?case
    by (subst (asm) parse_backs.simps) (auto split: prod.splits if_splits)
qed

lemma parser_wf:
  "yields (wf_cmd s) (parseline n s p)" "yields (wf_cmd s) (parsepipe n s p)"
  "yields (wf_cmd s) (parseexec n s p)" "yields (wf_cmd s) (parseblock n s p)"
proof (induction n arbitrary: p)
  case (Suc n)
  {
    case 1
    show ?case
      unfolding parseline.simps
      by (rule yields_rbind [OF Suc.IH(2)])
        (auto intro!: yields_rbind [OF Suc.IH(1)] dest: parse_backs_wf split: prod.splits)
  next
    case 2
    show ?case
      unfolding parsepipe.simps
      by (rule yields_rbind [OF Suc.IH(3)]) (auto intro!: yields_rbind [OF Suc.IH(2)] split: prod.splits)
  next
    case 3
    show ?case
      unfolding parseexec.simps
      by (auto intro!: Suc.IH yields_rbind [OF parseredirs_wf] parseargs_wf split: prod.splits)
  next
    case 4
    show ?case
      unfolding parseblock.simps
      by (auto intro!: yields_rbind [OF Suc.IH(1)] parseredirs_wf' split: prod.splits)
  }
qed simp_all

section \<open>Terminating the strings\<close>

lemma fold_nul: "fold (\<lambda>(q, e) m. m(base + e := 0)) as m a = (if a \<in> (\<lambda>t. base + snd t) ` set as then 0 else m a)"
  by (induction as arbitrary: m) auto

lemma nulterminate_eq:
  "nulterminate base m c a = (if a \<in> (\<lambda>t. base + snd t) ` set (tokens c) then 0 else m a)"
  by (induction base m c rule: nulterminate.induct) (auto simp: fold_nul)

lemma wf_cmd_tokens: "wf_cmd s c \<Longrightarrow> t \<in> set (tokens c) \<Longrightarrow> token s t"
  by (induction c) auto

text \<open>The end of a token is inside no other token, so each string keeps its characters.\<close>

lemma token_end_outside: "token s (q, e) \<Longrightarrow> token s (q', e') \<Longrightarrow> q \<le> e' \<Longrightarrow> e \<le> e'"
  by (simp add: token_def) (metis leD leI order.strict_trans1)

lemma cstr_token:
  assumes "wf_cmd s c" and t: "(q, e) \<in> set (tokens c)"
    and line: "\<forall>i \<le> length s. m (base + i) = char_at s i" and "0 \<notin> set s"
  shows "cstr (nulterminate base m c) (base + q) (take (e - q) (drop q s))"
proof -
  have tok: "token s (q, e)" "\<And>q' e'. (q', e') \<in> set (tokens c) \<Longrightarrow> token s (q', e')"
    using wf_cmd_tokens [OF assms(1)] t by blast+
  then have e: "q < e" "e \<le> length s"
    by (auto simp: token_def)
  have "nulterminate base m c (base + (q + i)) = s ! (q + i) \<and> s ! (q + i) \<noteq> 0" if "i < e - q" for i
  proof -
    have "q + i \<noteq> e'" if "(q', e') \<in> set (tokens c)" for q' e'
      using token_end_outside [OF tok(1) tok(2) [OF that]] \<open>i < e - q\<close> by auto
    then have "base + (q + i) \<notin> (\<lambda>t. base + snd t) ` set (tokens c)"
      by auto
    moreover have "q + i < length s"
      using e \<open>i < e - q\<close> by simp
    moreover from this have "s ! (q + i) \<noteq> 0"
      using assms(4) nth_mem by metis
    ultimately show ?thesis
      using line by (simp add: nulterminate_eq char_at_def)
  qed
  moreover have "nulterminate base m c (base + e) = 0"
    using t by (force simp: nulterminate_eq)
  ultimately show ?thesis
    using e by (simp add: cstr_iff add.assoc)
qed

text \<open>
  Claim C29: A tree that \<^verbatim>\<open>parsecmd\<close> returns is well formed: no exec node has more than nine arguments, so there is room for
  the null pointer in its array; every argument and file name is a longest non-empty run of characters that are
  neither blanks nor symbols; every redirection has one of the three modes of the shell. In memory each of them is a
  NUL-terminated string of exactly the characters it has on the line, and nothing outside the line has changed.
\<close>

theorem parsecmd_well_formed:
  assumes "parsecmd base m s = Ok (c, m')"
    and "0 \<notin> set s" and "\<forall>i \<le> length s. m (base + i) = char_at s i"
  shows "wf_cmd s c \<and>
    (\<forall>(q, e) \<in> set (tokens c). cstr m' (base + q) (take (e - q) (drop q s))) \<and>
    (\<forall>a. a < base \<or> base + length s < a \<longrightarrow> m' a = m a)"
proof -
  obtain c' p where line: "parseline (parse_fuel s) s 0 = Ok (c', p)"
    using assms(1) by (auto simp: parsecmd_def rbind_eq_Ok)
  then have m': "c' = c" "m' = nulterminate base m c"
    using assms(1) by (cases "peek s p []"; simp add: parsecmd_def split: if_splits)+
  have wf: "wf_cmd s c"
    using parser_wf(1) [of s "parse_fuel s" 0] line m'(1) by (simp add: yields_def)
  moreover have "m' a = m a" if "a < base \<or> base + length s < a" for a
    using wf_cmd_tokens [OF wf] that by (fastforce simp: m' nulterminate_eq token_def)
  ultimately show ?thesis
    using cstr_token [OF wf _ assms(3,2)] m' by blast
qed

theorem parsecmd_well_formed_witness:
  "\<exists>m'. parsecmd 8 (\<lambda>a. char_at (str ''echo hi >f'') (a - 8)) (str ''echo hi >f'') =
      Ok (REDIR (EXEC [(0, 4), (5, 7)]) 9 10 0x601 1, m') \<and> cstr m' 13 (str ''hi'')"
proof -
  let ?s = "str ''echo hi >f''" and ?m = "\<lambda>a. char_at (str ''echo hi >f'') (a - 8)"
  let ?c = "REDIR (EXEC [(0, 4), (5, 7)]) 9 10 0x601 1"
  have "parseline (parse_fuel ?s) ?s 0 = Ok (?c, 10)" "peek ?s 10 [] = (False, 10)" "length ?s = 10"
    by code_simp+
  then have p: "parsecmd 8 ?m ?s = Ok (?c, nulterminate 8 ?m ?c)"
    by (simp add: parsecmd_def)
  have "0 \<notin> set ?s"
    by code_simp
  then have "\<forall>(q, e) \<in> set (tokens ?c). cstr (nulterminate 8 ?m ?c) (8 + q) (take (e - q) (drop q ?s))"
    using parsecmd_well_formed [OF p] by simp
  then have "cstr (nulterminate 8 ?m ?c) 13 (str ''hi'')"
    by (simp add: str_def)
  then show ?thesis
    using p by blast
qed

end
