(* ===== verification/Xv6_Shell_Grammar.thy ===== *)
theory Xv6_Shell_Grammar
  imports Xv6_Shell
begin

text \<open>
  The language of the shell's parser: commands as trees over strings, the text of a command, with parentheses where the
  grammar needs them, and the proof that parsing the text gives the command back. The parser is related
  to the sequence of lexemes that \<^verbatim>\<open>gettoken\<close> delivers, so that positions appear in the lexical part only.
\<close>

section \<open>Lexemes\<close>

datatype lexeme = Word "u8 list" | Sym u8

definition txt_of :: "u8 list \<Rightarrow> nat \<times> nat \<Rightarrow> u8 list" where
  "txt_of s t = take (snd t - fst t) (drop (fst t) s)"

definition lexeme_of :: "u8 list \<Rightarrow> u8 \<Rightarrow> nat \<Rightarrow> nat \<Rightarrow> lexeme" where
  "lexeme_of s tok q e = (if tok = chr CHR ''a'' then Word (txt_of s (q, e)) else Sym tok)"

inductive lexed :: "u8 list \<Rightarrow> nat \<Rightarrow> lexeme list \<Rightarrow> bool" for s :: "u8 list" where
  lexed_end: "skip_white s p = length s \<Longrightarrow> lexed s p []"
| lexed_next: "gettoken s p = (tok, q, e, p') \<Longrightarrow> tok \<noteq> 0 \<Longrightarrow> lexed s p' ts \<Longrightarrow> lexed s p (lexeme_of s tok q e # ts)"

inductive_simps lexed_Nil: "lexed s p []"
inductive_simps lexed_Cons: "lexed s p (t # ts)"

lemma gettoken_skip [simp]: "gettoken s (skip_white s p) = gettoken s p"
  by (simp add: gettoken_def)

lemma lexed_skip [simp]: "lexed s (skip_white s p) ts \<longleftrightarrow> lexed s p ts"
  by (cases ts) (simp_all add: lexed_Nil lexed_Cons)

text \<open>\<open>starts cs ts\<close>: the first lexeme begins with one of the symbols.\<close>

fun starts :: "string \<Rightarrow> lexeme list \<Rightarrow> bool" where
  "starts cs (Sym c # ts) = ((if c = chr CHR ''+'' then chr CHR ''>'' else c) \<in> set (str cs))"
| "starts cs _ = False"

lemma strchr_iff: "strchr s c \<noteq> None \<longleftrightarrow> c \<in> set s"
  by (induction s) auto

lemma token_starts:
  assumes "gettoken s p = (tok, q, e, p')" "tok \<noteq> 0" "\<forall>c \<in> set (str cs). is_symbol c"
  shows "(char_at s (skip_white s p) \<in> set (str cs)) = starts cs (lexeme_of s tok q e # ts)"
proof -
  define c where "c = char_at s (skip_white s p)"
  have a: "\<not> is_symbol (chr CHR ''a'')"
    by code_simp
  consider "is_symbol c" "c \<noteq> chr CHR ''>''" "tok = c" | "c = chr CHR ''>''" "tok = c \<or> tok = chr CHR ''+''"
    | "\<not> is_symbol c" "tok = chr CHR ''a''"
    using assms(1,2) unfolding symbol_cases c_def
    by (auto simp: gettoken_def Let_def split: if_splits)
  then show ?thesis
  proof cases
    case 1
    then have "tok \<noteq> chr CHR ''a''" "tok \<noteq> chr CHR ''+''"
      using a by (auto simp: is_symbol_def symbols_def str_def chr_def)
    then show ?thesis
      using 1 by (simp add: lexeme_of_def c_def)
  next
    case 2
    then show ?thesis
      by (auto simp: lexeme_of_def c_def chr_def)
  next
    case 3
    then show ?thesis
      using assms(3) by (auto simp: lexeme_of_def c_def)
  qed
qed

lemma peek_lexed:
  assumes "lexed s p ts" "\<forall>c \<in> set (str cs). is_symbol c" "\<forall>c \<in> set (str cs). c \<noteq> 0"
  shows "\<exists>p'. peek s p cs = (starts cs ts, p') \<and> lexed s p' ts"
proof -
  have "(char_at s (skip_white s p) \<noteq> 0 \<and> char_at s (skip_white s p) \<in> set (str cs)) = starts cs ts"
    using assms(1)
  proof cases
    case lexed_end
    then show ?thesis
      by (simp add: char_at_def)
  next
    case (lexed_next tok q e p' ts')
    then show ?thesis
      using token_starts [OF lexed_next(2,3) assms(2), of ts'] assms(3) by auto
  qed
  then show ?thesis
    using assms(1) by (simp only: peek_def Let_def strchr_iff) simp
qed

lemma symbols_ok:
  "\<forall>c \<in> set (str ''<>''). is_symbol c" "\<forall>c \<in> set (str ''|)&;''). is_symbol c" "\<forall>c \<in> set (str ''&''). is_symbol c"
  "\<forall>c \<in> set (str '';''). is_symbol c" "\<forall>c \<in> set (str ''|''). is_symbol c" "\<forall>c \<in> set (str ''(''). is_symbol c"
  "\<forall>c \<in> set (str '')''). is_symbol c"
  "\<forall>c \<in> set (str ''<>''). c \<noteq> 0" "\<forall>c \<in> set (str ''|)&;''). c \<noteq> 0" "\<forall>c \<in> set (str ''&''). c \<noteq> 0"
  "\<forall>c \<in> set (str '';''). c \<noteq> 0" "\<forall>c \<in> set (str ''|''). c \<noteq> 0" "\<forall>c \<in> set (str ''(''). c \<noteq> 0"
  "\<forall>c \<in> set (str '')''). c \<noteq> 0"
  by code_simp+

lemmas peek_redir = peek_lexed [OF _ symbols_ok(1,8)]
lemmas peek_stop = peek_lexed [OF _ symbols_ok(2,9)]
lemmas peek_amp = peek_lexed [OF _ symbols_ok(3,10)]
lemmas peek_semi = peek_lexed [OF _ symbols_ok(4,11)]
lemmas peek_bar = peek_lexed [OF _ symbols_ok(5,12)]
lemmas peek_open = peek_lexed [OF _ symbols_ok(6,13)]
lemmas peek_close = peek_lexed [OF _ symbols_ok(7,14)]

lemma gettoken_word:
  "lexed s p (Word w # ts) \<Longrightarrow> \<exists>q e p'. gettoken s p = (chr CHR ''a'', q, e, p') \<and> txt_of s (q, e) = w \<and> lexed s p' ts"
  by (auto simp: lexed_Cons lexeme_of_def split: if_splits)

lemma gettoken_sym:
  "lexed s p (Sym c # ts) \<Longrightarrow> \<exists>q e p'. gettoken s p = (c, q, e, p') \<and> lexed s p' ts"
  by (auto simp: lexed_Cons lexeme_of_def split: if_splits)

section \<open>Commands over strings\<close>

text \<open>The same nodes as \<^typ>\<open>cmd\<close>, with the strings themselves and the symbol of the redirection.\<close>

datatype command =
    Exec "u8 list list"
  | Redir command "u8 list" u8
  | Pipe command command
  | Seq command command
  | Back command

definition redir_sym :: "c_int \<Rightarrow> u8" where
  "redir_sym mode =
     (if mode = O_RDONLY then chr CHR ''<'' else if mode AND O_TRUNC \<noteq> 0 then chr CHR ''>'' else chr CHR ''+'')"

fun command_of :: "u8 list \<Rightarrow> cmd \<Rightarrow> command" where
  "command_of s (EXEC as) = Exec (map (txt_of s) as)"
| "command_of s (REDIR c q e mode fd) = Redir (command_of s c) (txt_of s (q, e)) (redir_sym mode)"
| "command_of s (PIPE l r) = Pipe (command_of s l) (command_of s r)"
| "command_of s (LIST l r) = Seq (command_of s l) (command_of s r)"
| "command_of s (BACK c) = Back (command_of s c)"

text \<open>The lexemes of a command as an exec (0), a pipe (1), a background job (2) or a line (3).\<close>

definition paren :: "bool \<Rightarrow> lexeme list \<Rightarrow> lexeme list" where
  "paren b ts = (if b then [Sym (chr CHR ''('')] @ ts @ [Sym (chr CHR '')'')] else ts)"

primrec lexemes :: "command \<Rightarrow> nat \<Rightarrow> lexeme list" where
  "lexemes (Exec ws) k = map Word ws"
| "lexemes (Redir a f r) k = lexemes a 0 @ [Sym r, Word f]"
| "lexemes (Pipe a b) k = paren (k < 1) (lexemes a 0 @ [Sym (chr CHR ''|'')] @ lexemes b 1)"
| "lexemes (Back a) k = paren (k < 2) (lexemes a 2 @ [Sym (chr CHR ''&'')])"
| "lexemes (Seq a b) k = paren (k < 3) (lexemes a 2 @ [Sym (chr CHR '';'')] @ lexemes b 3)"

definition word :: "u8 list \<Rightarrow> bool" where
  "word w \<longleftrightarrow> w \<noteq> [] \<and> (\<forall>c \<in> set w. word_char c \<and> c \<noteq> 0)"

definition redir_syms :: "u8 set" where "redir_syms = set (str ''<>+'')"

fun proper :: "command \<Rightarrow> bool" where
  "proper (Exec ws) \<longleftrightarrow> length ws < MAXARGS \<and> (\<forall>w \<in> set ws. word w)"
| "proper (Redir a f r) \<longleftrightarrow> proper a \<and> word f \<and> r \<in> redir_syms"
| "proper (Pipe a b) \<longleftrightarrow> proper a \<and> proper b"
| "proper (Back a) \<longleftrightarrow> proper a"
| "proper (Seq a b) \<longleftrightarrow> proper a \<and> proper b"

section \<open>Parsing lexemes\<close>

abbreviation redirs :: "(u8 \<times> u8 list) list \<Rightarrow> lexeme list" where
  "redirs rs \<equiv> concat (map (\<lambda>(r, f). [Sym r, Word f]) rs)"

abbreviation add_redirs :: "command \<Rightarrow> (u8 \<times> u8 list) list \<Rightarrow> command" where
  "add_redirs a rs \<equiv> foldl (\<lambda>a (r, f). Redir a f r) a rs"

lemma command_of_redirection:
  "r \<in> redir_syms \<Longrightarrow> command_of s (redirection r c q e) = Redir (command_of s c) (txt_of s (q, e)) r"
  by (auto simp: redirection_def redir_syms_def redir_sym_def str_def chr_def O_RDONLY_def O_WRONLY_def O_CREATE_def O_TRUNC_def)

lemma parseredirs_lexed:
  "lexed s p (redirs rs @ ts) \<Longrightarrow> \<not> starts ''<>'' ts \<Longrightarrow> fst ` set rs \<subseteq> redir_syms \<Longrightarrow>
   \<exists>c' p'. parseredirs s c p = Ok (c', p') \<and> command_of s c' = add_redirs (command_of s c) rs \<and> lexed s p' ts \<and>
     (rs = [] \<longrightarrow> c' = c)"
proof (induction rs arbitrary: c p)
  case Nil
  then show ?case
    using peek_redir [of s p ts] by (subst parseredirs.simps) auto
next
  case (Cons x rs)
  obtain r f where x: "x = (r, f)"
    by (cases x)
  have lex: "lexed s p (Sym r # Word f # redirs rs @ ts)" and r: "r \<in> redir_syms"
    using Cons.prems x by auto
  then have "starts ''<>'' (Sym r # Word f # redirs rs @ ts)"
    by (auto simp: redir_syms_def str_def)
  then obtain p1 where p1: "peek s p ''<>'' = (True, p1)" "lexed s p1 (Sym r # Word f # redirs rs @ ts)"
    using peek_redir [OF lex] by auto
  obtain q1 e1 p2 where p2: "gettoken s p1 = (r, q1, e1, p2)" "lexed s p2 (Word f # redirs rs @ ts)"
    using gettoken_sym [OF p1(2)] by blast
  obtain q e p3 where p3: "gettoken s p2 = (chr CHR ''a'', q, e, p3)" "txt_of s (q, e) = f" "lexed s p3 (redirs rs @ ts)"
    using gettoken_word [OF p2(2)] by blast
  have "fst ` set rs \<subseteq> redir_syms"
    using Cons.prems by auto
  then obtain c' p' where "parseredirs s (redirection r c q e) p3 = Ok (c', p')"
    "command_of s c' = add_redirs (command_of s (redirection r c q e)) rs" "lexed s p' ts"
    using Cons.IH [OF p3(3) Cons.prems(2)] by blast
  then show ?case
    using p1(1) p2(1) p3(1,2) x r by (subst parseredirs.simps) (simp add: command_of_redirection)
qed

text \<open>What may follow an exec, a pipe, a background job and a line.\<close>

definition follow :: "string \<Rightarrow> lexeme list \<Rightarrow> bool" where
  "follow cs ts \<longleftrightarrow> ts = [] \<or> (\<exists>c ts'. ts = Sym c # ts' \<and> c \<in> set (str cs))"

lemma follow_starts:
  "follow ''|)&;'' ts \<Longrightarrow> \<not> starts ''<>'' ts \<and> \<not> starts ''('' ts \<and> (ts \<noteq> [] \<longrightarrow> starts ''|)&;'' ts)"
  "follow '')&;'' ts \<Longrightarrow> \<not> starts ''|'' ts \<and> follow ''|)&;'' ts"
  "follow '');'' ts \<Longrightarrow> \<not> starts ''&'' ts \<and> follow '')&;'' ts"
  "follow '')'' ts \<Longrightarrow> \<not> starts '';'' ts \<and> follow '');'' ts"
  by (auto simp: follow_def str_def chr_def)

lemma parseargs_stop:
  assumes "lexed s p ts" "follow ''|)&;'' ts"
  shows "\<exists>p'. parseargs s c argc p = Ok (c, p') \<and> lexed s p' ts"
proof (cases ts)
  case Nil
  then obtain p1 where p1: "peek s p ''|)&;'' = (False, p1)" "lexed s p1 []"
    using peek_stop [OF assms(1)] by auto
  then have "skip_white s p1 = length s"
    by (simp add: lexed_Nil)
  then have "gettoken s p1 = (0, length s, length s, skip_white s (length s))"
    by (simp add: gettoken_def char_at_def Let_def)
  moreover have "skip_white s (length s) = length s"
    by (subst skip_white.simps) simp
  ultimately show ?thesis
    using p1(1) Nil by (subst parseargs.simps) (simp add: lexed_Nil)
next
  case (Cons t ts')
  then obtain p1 where "peek s p ''|)&;'' = (True, p1)" "lexed s p1 ts"
    using peek_stop [OF assms(1)] follow_starts(1) [OF assms(2)] by auto
  then show ?thesis
    by (subst parseargs.simps) simp
qed

lemma parseargs_word:
  assumes "lexed s p (Word w # ts)" and "Suc argc < MAXARGS"
  shows "\<exists>q e p'. parseargs s c argc p =
      rbind (parseredirs s (push_arg (q, e) c) p') (\<lambda>(c, p). parseargs s c (Suc argc) p) \<and>
      txt_of s (q, e) = w \<and> lexed s p' ts"
proof -
  obtain p1 where p1: "peek s p ''|)&;'' = (False, p1)" "lexed s p1 (Word w # ts)"
    using peek_stop [OF assms(1)] by auto
  obtain q e p2 where "gettoken s p1 = (chr CHR ''a'', q, e, p2)" "txt_of s (q, e) = w" "lexed s p2 ts"
    using gettoken_word [OF p1(2)] by blast
  then show ?thesis
    using p1(1) assms(2) by (intro exI [of _ q] exI [of _ e] exI [of _ p2], subst parseargs.simps)
      (simp add: Let_def chr_def)
qed

lemma parseargs_words:
  "lexed s p (map Word ws @ redirs rs @ ts) \<Longrightarrow> ws \<noteq> [] \<Longrightarrow> follow ''|)&;'' ts \<Longrightarrow> fst ` set rs \<subseteq> redir_syms \<Longrightarrow>
   length as + length ws < MAXARGS \<Longrightarrow>
   \<exists>c p'. parseargs s (EXEC as) (length as) p = Ok (c, p') \<and>
     command_of s c = add_redirs (Exec (map (txt_of s) as @ ws)) rs \<and> lexed s p' ts"
proof (induction ws arbitrary: as p)
  case (Cons w ws)
  let ?rest = "map Word ws @ redirs rs @ ts"
  have "lexed s p (Word w # ?rest)" "Suc (length as) < MAXARGS"
    using Cons.prems by simp_all
  then obtain q e p1 where p1: "parseargs s (EXEC as) (length as) p =
      rbind (parseredirs s (EXEC (as @ [(q, e)])) p1) (\<lambda>(c, p). parseargs s c (Suc (length as)) p)"
    "txt_of s (q, e) = w" "lexed s p1 ?rest"
    using parseargs_word [of s p w ?rest "length as" "EXEC as"] by auto
  show ?case
  proof (cases "ws = []")
    case True
    have nr: "\<not> starts ''<>'' ts"
      using follow_starts(1) [OF Cons.prems(3)] by simp
    have "lexed s p1 (redirs rs @ ts)"
      using p1(3) True by simp
    then obtain c p2 where c: "parseredirs s (EXEC (as @ [(q, e)])) p1 = Ok (c, p2)"
      "command_of s c = add_redirs (command_of s (EXEC (as @ [(q, e)]))) rs" "lexed s p2 ts"
      using parseredirs_lexed [OF _ nr Cons.prems(4)] by blast
    obtain p3 where "parseargs s c (Suc (length as)) p2 = Ok (c, p3)" "lexed s p3 ts"
      using parseargs_stop [OF c(3) Cons.prems(3)] by blast
    then show ?thesis
      using p1(1,2) c(1,2) True by simp
  next
    case False
    then have "\<not> starts ''<>'' ?rest"
      by (cases ws) auto
    then obtain p2 where p2: "parseredirs s (EXEC (as @ [(q, e)])) p1 = Ok (EXEC (as @ [(q, e)]), p2)" "lexed s p2 ?rest"
      using parseredirs_lexed [of s p1 "[]" ?rest "EXEC (as @ [(q, e)])"] p1(3) by auto
    show ?thesis
      using Cons.IH [OF p2(2) False Cons.prems(3,4), of "as @ [(q, e)]"] Cons.prems(5) p1(1,2) p2(1) by simp
  qed
qed simp

lemma parse_backs_lexed:
  "lexed s p (replicate j (Sym (chr CHR ''&'')) @ ts) \<Longrightarrow> \<not> starts ''&'' ts \<Longrightarrow>
   \<exists>c' p'. parse_backs s c p = (c', p') \<and> command_of s c' = (Back ^^ j) (command_of s c) \<and> lexed s p' ts"
proof (induction j arbitrary: c p)
  case 0
  then obtain p1 where "peek s p ''&'' = (False, p1)" "lexed s p1 ts"
    using peek_amp [of s p ts] by auto
  then show ?case
    by (subst parse_backs.simps) simp
next
  case (Suc j)
  let ?rest = "replicate j (Sym (chr CHR ''&'')) @ ts"
  have "starts ''&'' (Sym (chr CHR ''&'') # ?rest)"
    by (simp add: str_def chr_def)
  then obtain p1 where p1: "peek s p ''&'' = (True, p1)" "lexed s p1 (Sym (chr CHR ''&'') # ?rest)"
    using peek_amp [of s p "Sym (chr CHR ''&'') # ?rest"] Suc.prems(1) by auto
  obtain q e p2 where p2: "gettoken s p1 = (chr CHR ''&'', q, e, p2)" "lexed s p2 ?rest"
    using gettoken_sym [OF p1(2)] by blast
  show ?case
    using Suc.IH [OF p2(2) Suc.prems(2), of "BACK c"] p1(1) p2(1)
    by (subst parse_backs.simps) (simp add: funpow_swap1)
qed

text \<open>\<open>parses F s a ts\<close>: with enough fuel \<open>F\<close> returns the command \<open>a\<close> and leaves the lexemes \<open>ts\<close>.\<close>

definition parses :: "(nat \<Rightarrow> (cmd \<times> nat) res) \<Rightarrow> u8 list \<Rightarrow> command \<Rightarrow> lexeme list \<Rightarrow> bool" where
  "parses F s a ts \<longleftrightarrow> (\<exists>c p N. (\<forall>n \<ge> N. F n = Ok (c, p)) \<and> command_of s c = a \<and> lexed s p ts)"

lemma parses_const: "F = Ok (c, p) \<Longrightarrow> command_of s c = a \<Longrightarrow> lexed s p ts \<Longrightarrow> parses (\<lambda>n. F) s a ts"
  unfolding parses_def by blast

lemma parses_rbind:
  assumes "parses F s a ts"
    and "\<And>c p. command_of s c = a \<Longrightarrow> lexed s p ts \<Longrightarrow> parses (\<lambda>n. G n (c, p)) s b us"
  shows "parses (\<lambda>n. rbind (F n) (G n)) s b us"
proof -
  obtain c p N where f: "\<And>n. N \<le> n \<Longrightarrow> F n = Ok (c, p)" "command_of s c = a" "lexed s p ts"
    using assms(1) unfolding parses_def by blast
  obtain c' p' N' where g: "\<And>n. N' \<le> n \<Longrightarrow> G n (c, p) = Ok (c', p')" "command_of s c' = b" "lexed s p' us"
    using assms(2) [OF f(2,3)] unfolding parses_def by blast
  have "\<forall>n \<ge> max N N'. rbind (F n) (G n) = Ok (c', p')"
    using f(1) g(1) by simp
  then show ?thesis
    using g(2,3) unfolding parses_def by blast
qed

lemma parses_Suc: "parses (\<lambda>n. F (Suc n)) s a ts \<Longrightarrow> parses F s a ts"
  unfolding parses_def by (metis Suc_le_D Suc_le_mono)

definition exec_lang :: "lexeme list \<Rightarrow> command \<Rightarrow> bool" where
  "exec_lang xs a \<longleftrightarrow> (\<forall>s p rs ts. lexed s p (xs @ redirs rs @ ts) \<longrightarrow> fst ` set rs \<subseteq> redir_syms \<longrightarrow> follow ''|)&;'' ts \<longrightarrow>
     parses (\<lambda>n. parseexec n s p) s (add_redirs a rs) ts)"

definition pipe_lang :: "lexeme list \<Rightarrow> command \<Rightarrow> bool" where
  "pipe_lang xs a \<longleftrightarrow> (\<forall>s p ts. lexed s p (xs @ ts) \<longrightarrow> follow '')&;'' ts \<longrightarrow> parses (\<lambda>n. parsepipe n s p) s a ts)"

definition back_lang :: "lexeme list \<Rightarrow> command \<Rightarrow> bool" where
  "back_lang xs a \<longleftrightarrow> (\<forall>s p j ts. lexed s p (xs @ replicate j (Sym (chr CHR ''&'')) @ ts) \<longrightarrow> follow '');'' ts \<longrightarrow>
     parses (\<lambda>n. rbind (parsepipe n s p) (\<lambda>(c, p). Ok (parse_backs s c p))) s ((Back ^^ j) a) ts)"

definition line_lang :: "lexeme list \<Rightarrow> command \<Rightarrow> bool" where
  "line_lang xs a \<longleftrightarrow> (\<forall>s p ts. lexed s p (xs @ ts) \<longrightarrow> follow '')'' ts \<longrightarrow> parses (\<lambda>n. parseline n s p) s a ts)"

lemma exec_words:
  assumes "length ws < MAXARGS"
  shows "exec_lang (map Word ws) (Exec ws)"
  unfolding exec_lang_def
proof (intro allI impI)
  fix s p rs ts
  assume lex: "lexed s p (map Word ws @ redirs rs @ ts)" and rs: "fst ` set rs \<subseteq> redir_syms" and fol: "follow ''|)&;'' ts"
  have "\<not> starts ''('' (map Word ws @ redirs rs @ ts)"
    using rs follow_starts(1) [OF fol] by (cases ws; cases rs) (auto simp: redir_syms_def str_def chr_def)
  then obtain p1 where p1: "peek s p ''('' = (False, p1)" "lexed s p1 (map Word ws @ redirs rs @ ts)"
    using peek_open [OF lex] by auto
  have "\<exists>c p'. rbind (parseredirs s (EXEC []) p1) (\<lambda>(c, p). parseargs s c 0 p) = Ok (c, p') \<and>
      command_of s c = add_redirs (Exec ws) rs \<and> lexed s p' ts"
  proof (cases "ws = []")
    case True
    then obtain c p2 where c: "parseredirs s (EXEC []) p1 = Ok (c, p2)"
      "command_of s c = add_redirs (command_of s (EXEC [])) rs" "lexed s p2 ts"
      using parseredirs_lexed [OF _ _ rs, of s p1 ts "EXEC []"] p1(2) follow_starts(1) [OF fol] by auto
    then show ?thesis
      using parseargs_stop [OF c(3) fol, of c 0] True by auto
  next
    case False
    then have "\<not> starts ''<>'' (map Word ws @ redirs rs @ ts)"
      by (cases ws) auto
    then obtain p2 where p2: "parseredirs s (EXEC []) p1 = Ok (EXEC [], p2)" "lexed s p2 (map Word ws @ redirs rs @ ts)"
      using parseredirs_lexed [of s p1 "[]" _ "EXEC []"] p1(2) by auto
    then show ?thesis
      using parseargs_words [OF p2(2) False fol rs, of "[]"] assms by simp
  qed
  then show "parses (\<lambda>n. parseexec n s p) s (add_redirs (Exec ws) rs) ts"
    using p1(1) by (intro parses_Suc [where F = "\<lambda>n. parseexec n s p"]) (auto simp: parseexec.simps intro: parses_const)
qed

lemma exec_redir:
  "exec_lang xs a \<Longrightarrow> r \<in> redir_syms \<Longrightarrow> exec_lang (xs @ [Sym r, Word f]) (Redir a f r)"
  unfolding exec_lang_def
proof (intro allI impI)
  fix s p rs ts
  assume E: "\<forall>s p rs ts. lexed s p (xs @ redirs rs @ ts) \<longrightarrow> fst ` set rs \<subseteq> redir_syms \<longrightarrow> follow ''|)&;'' ts \<longrightarrow>
      parses (\<lambda>n. parseexec n s p) s (add_redirs a rs) ts"
    and "r \<in> redir_syms" "lexed s p ((xs @ [Sym r, Word f]) @ redirs rs @ ts)" "fst ` set rs \<subseteq> redir_syms" "follow ''|)&;'' ts"
  then show "parses (\<lambda>n. parseexec n s p) s (add_redirs (Redir a f r) rs) ts"
    using E [rule_format, of s p "(r, f) # rs" ts] by simp
qed

lemma peek_lparen:
  assumes "lexed s p (Sym (chr CHR ''('') # ts)"
  shows "\<exists>p1 q e p2. peek s p ''('' = (True, p1) \<and> peek s p1 ''('' = (True, p1) \<and> gettoken s p1 = (chr CHR ''('', q, e, p2) \<and> lexed s p2 ts"
proof -
  have "starts ''('' (Sym (chr CHR ''('') # ts)"
    by (simp add: str_def chr_def)
  then obtain p1 where p1: "peek s p ''('' = (True, p1)" "lexed s p1 (Sym (chr CHR ''('') # ts)"
    using peek_open [OF assms] by auto
  moreover have "peek s p1 ''('' = (True, p1)"
    using p1(1) by (auto simp: peek_def Let_def)
  ultimately show ?thesis
    using gettoken_sym [OF p1(2)] by blast
qed

lemma exec_block:
  assumes "line_lang xs a"
  shows "exec_lang (paren True xs) a"
  unfolding exec_lang_def
proof (intro allI impI)
  fix s p rs ts
  let ?close = "Sym (chr CHR '')'') # redirs rs @ ts"
  assume "lexed s p (paren True xs @ redirs rs @ ts)" and rs: "fst ` set rs \<subseteq> redir_syms" and fol: "follow ''|)&;'' ts"
  then have "lexed s p (Sym (chr CHR ''('') # xs @ ?close)"
    by (simp add: paren_def)
  then obtain p1 q e p2 where p1: "peek s p ''('' = (True, p1)" "peek s p1 ''('' = (True, p1)"
    "gettoken s p1 = (chr CHR ''('', q, e, p2)" "lexed s p2 (xs @ ?close)"
    using peek_lparen by blast
  have "follow '')'' ?close"
    by (simp add: follow_def str_def)
  then have line: "parses (\<lambda>n. parseline n s p2) s a ?close"
    using assms p1(4) unfolding line_lang_def by blast
  have "parses (\<lambda>n. rbind (parseline n s p2) (\<lambda>(cmd, p).
          let (close_paren, p) = peek s p '')'' in
          if \<not> close_paren then Panic ''syntax - missing )''
          else let (_, _, _, p) = gettoken s p in parseredirs s cmd p)) s (add_redirs a rs) ts"
  proof (rule parses_rbind [OF line])
    fix c p3
    assume c: "command_of s c = a" "lexed s p3 ?close"
    have "starts '')'' ?close"
      by (simp add: str_def chr_def)
    then obtain p4 where p4: "peek s p3 '')'' = (True, p4)" "lexed s p4 ?close"
      using peek_close [OF c(2)] by auto
    obtain q e p5 where p5: "gettoken s p4 = (chr CHR '')'', q, e, p5)" "lexed s p5 (redirs rs @ ts)"
      using gettoken_sym [OF p4(2)] by blast
    obtain c' p6 where "parseredirs s c p5 = Ok (c', p6)" "command_of s c' = add_redirs a rs" "lexed s p6 ts"
      using parseredirs_lexed [OF p5(2) _ rs, of c] follow_starts(1) [OF fol] c(1) by blast
    then show "parses (\<lambda>n. (\<lambda>(cmd, p).
          let (close_paren, p) = peek s p '')'' in
          if \<not> close_paren then Panic ''syntax - missing )''
          else let (_, _, _, p) = gettoken s p in parseredirs s cmd p) (c, p3)) s (add_redirs a rs) ts"
      using p4(1) p5(1) by (auto intro: parses_const)
  qed
  then have "parses (\<lambda>n. parseblock n s p1) s (add_redirs a rs) ts"
    using p1(2,3) by (intro parses_Suc [where F = "\<lambda>n. parseblock n s p1"]) (simp add: parseblock.simps)
  then show "parses (\<lambda>n. parseexec n s p) s (add_redirs a rs) ts"
    using p1(1) by (intro parses_Suc [where F = "\<lambda>n. parseexec n s p"]) (simp add: parseexec.simps)
qed

lemma pipe_exec: "exec_lang xs a \<Longrightarrow> pipe_lang xs a"
  unfolding pipe_lang_def
proof (intro allI impI)
  fix s p ts
  assume E: "exec_lang xs a" and lex: "lexed s p (xs @ ts)" and fol: "follow '')&;'' ts"
  have "parses (\<lambda>n. parseexec n s p) s a ts"
    using E [unfolded exec_lang_def, rule_format, of s p "[]" ts] lex follow_starts(2) [OF fol] by simp
  then have "parses (\<lambda>n. parsepipe (Suc n) s p) s a ts"
    unfolding parsepipe.simps
  proof (rule parses_rbind)
    fix c p1
    assume c: "command_of s c = a" "lexed s p1 ts"
    then obtain p2 where "peek s p1 ''|'' = (False, p2)" "lexed s p2 ts"
      using peek_bar [OF c(2)] follow_starts(2) [OF fol] by auto
    then show "parses (\<lambda>n. (\<lambda>(cmd, p). let (bar, p) = peek s p ''|'' in
       if bar then let (_, _, _, p) = gettoken s p in rbind (parsepipe n s p) (\<lambda>(right, p). Ok (PIPE cmd right, p))
       else Ok (cmd, p)) (c, p1)) s a ts"
      using c(1) by (auto intro: parses_const)
  qed
  then show "parses (\<lambda>n. parsepipe n s p) s a ts"
    by (rule parses_Suc)
qed

lemma pipe_pipe:
  assumes E: "exec_lang xs a" and P: "pipe_lang ys b"
  shows "pipe_lang (xs @ [Sym (chr CHR ''|'')] @ ys) (Pipe a b)"
  unfolding pipe_lang_def
proof (intro allI impI)
  fix s p ts
  let ?bar = "Sym (chr CHR ''|'') # ys @ ts"
  assume lex: "lexed s p ((xs @ [Sym (chr CHR ''|'')] @ ys) @ ts)" and fol: "follow '')&;'' ts"
  have "follow ''|)&;'' ?bar"
    by (simp add: follow_def str_def)
  then have "parses (\<lambda>n. parseexec n s p) s a ?bar"
    using E [unfolded exec_lang_def, rule_format, of s p "[]" ?bar] lex by simp
  then have "parses (\<lambda>n. parsepipe (Suc n) s p) s (Pipe a b) ts"
    unfolding parsepipe.simps
  proof (rule parses_rbind)
    fix c p1
    assume c: "command_of s c = a" "lexed s p1 ?bar"
    have "starts ''|'' ?bar"
      by (simp add: str_def chr_def)
    then obtain p2 where p2: "peek s p1 ''|'' = (True, p2)" "lexed s p2 ?bar"
      using peek_bar [OF c(2)] by auto
    obtain q e p3 where p3: "gettoken s p2 = (chr CHR ''|'', q, e, p3)" "lexed s p3 (ys @ ts)"
      using gettoken_sym [OF p2(2)] by blast
    have "parses (\<lambda>n. parsepipe n s p3) s b ts"
      using P p3(2) fol unfolding pipe_lang_def by blast
    then have "parses (\<lambda>n. rbind (parsepipe n s p3) (\<lambda>(right, p). Ok (PIPE c right, p))) s (Pipe a b) ts"
      by (rule parses_rbind) (use c(1) in \<open>auto intro: parses_const\<close>)
    then show "parses (\<lambda>n. (\<lambda>(cmd, p). let (bar, p) = peek s p ''|'' in
       if bar then let (_, _, _, p) = gettoken s p in rbind (parsepipe n s p) (\<lambda>(right, p). Ok (PIPE cmd right, p))
       else Ok (cmd, p)) (c, p1)) s (Pipe a b) ts"
      using p2(1) p3(1) by simp
  qed
  then show "parses (\<lambda>n. parsepipe n s p) s (Pipe a b) ts"
    by (rule parses_Suc)
qed

lemma back_pipe:
  assumes "pipe_lang xs a"
  shows "back_lang xs a"
  unfolding back_lang_def
proof (intro allI impI)
  fix s p j ts
  let ?amps = "replicate j (Sym (chr CHR ''&'')) @ ts"
  assume lex: "lexed s p (xs @ ?amps)" and fol: "follow '');'' ts"
  have "follow '')&;'' ?amps"
    using follow_starts(3) [OF fol] by (cases j) (auto simp: follow_def str_def)
  then have "parses (\<lambda>n. parsepipe n s p) s a ?amps"
    using assms lex unfolding pipe_lang_def by blast
  then show "parses (\<lambda>n. rbind (parsepipe n s p) (\<lambda>(c, p). Ok (parse_backs s c p))) s ((Back ^^ j) a) ts"
  proof (rule parses_rbind)
    fix c p1
    assume "command_of s c = a" "lexed s p1 ?amps"
    then show "parses (\<lambda>n. (\<lambda>(c, p). Ok (parse_backs s c p)) (c, p1)) s ((Back ^^ j) a) ts"
      using parse_backs_lexed [of s p1 j ts c] follow_starts(3) [OF fol] by (auto intro: parses_const)
  qed
qed

lemma back_back:
  assumes "back_lang xs a"
  shows "back_lang (xs @ [Sym (chr CHR ''&'')]) (Back a)"
  unfolding back_lang_def
proof (intro allI impI)
  fix s p j ts
  assume "lexed s p ((xs @ [Sym (chr CHR ''&'')]) @ replicate j (Sym (chr CHR ''&'')) @ ts)" "follow '');'' ts"
  then show "parses (\<lambda>n. rbind (parsepipe n s p) (\<lambda>(c, p). Ok (parse_backs s c p))) s ((Back ^^ j) (Back a)) ts"
    using assms [unfolded back_lang_def, rule_format, of s p "Suc j" ts] by (simp add: funpow_swap1)
qed

text \<open>A line begins with a background job.\<close>

lemma parseline_back:
  "parseline (Suc n) s p =
     rbind (rbind (parsepipe n s p) (\<lambda>(c, p). Ok (parse_backs s c p))) (\<lambda>(cmd, p).
       let (semi, p) = peek s p '';'' in
       if semi then let (_, _, _, p) = gettoken s p in rbind (parseline n s p) (\<lambda>(right, p). Ok (LIST cmd right, p))
       else Ok (cmd, p))"
  by (simp add: parseline.simps rbind_assoc Let_def case_prod_unfold)

lemma line_back:
  assumes "back_lang xs a"
  shows "line_lang xs a"
  unfolding line_lang_def
proof (intro allI impI)
  fix s p ts
  assume lex: "lexed s p (xs @ ts)" and fol: "follow '')'' ts"
  have "parses (\<lambda>n. rbind (parsepipe n s p) (\<lambda>(c, p). Ok (parse_backs s c p))) s a ts"
    using assms [unfolded back_lang_def, rule_format, of s p 0 ts] lex follow_starts(4) [OF fol] by simp
  then have "parses (\<lambda>n. parseline (Suc n) s p) s a ts"
    unfolding parseline_back
  proof (rule parses_rbind)
    fix c p1
    assume c: "command_of s c = a" "lexed s p1 ts"
    then obtain p2 where "peek s p1 '';'' = (False, p2)" "lexed s p2 ts"
      using peek_semi [OF c(2)] follow_starts(4) [OF fol] by auto
    then show "parses (\<lambda>n. (\<lambda>(cmd, p). let (semi, p) = peek s p '';'' in
       if semi then let (_, _, _, p) = gettoken s p in rbind (parseline n s p) (\<lambda>(right, p). Ok (LIST cmd right, p))
       else Ok (cmd, p)) (c, p1)) s a ts"
      using c(1) by (auto intro: parses_const)
  qed
  then show "parses (\<lambda>n. parseline n s p) s a ts"
    by (rule parses_Suc)
qed

lemma line_seq:
  assumes B: "back_lang xs a" and L: "line_lang ys b"
  shows "line_lang (xs @ [Sym (chr CHR '';'')] @ ys) (Seq a b)"
  unfolding line_lang_def
proof (intro allI impI)
  fix s p ts
  let ?semi = "Sym (chr CHR '';'') # ys @ ts"
  assume lex: "lexed s p ((xs @ [Sym (chr CHR '';'')] @ ys) @ ts)" and fol: "follow '')'' ts"
  have "follow '');'' ?semi"
    by (simp add: follow_def str_def)
  then have "parses (\<lambda>n. rbind (parsepipe n s p) (\<lambda>(c, p). Ok (parse_backs s c p))) s a ?semi"
    using B [unfolded back_lang_def, rule_format, of s p 0 ?semi] lex by simp
  then have "parses (\<lambda>n. parseline (Suc n) s p) s (Seq a b) ts"
    unfolding parseline_back
  proof (rule parses_rbind)
    fix c p1
    assume c: "command_of s c = a" "lexed s p1 ?semi"
    have "starts '';'' ?semi"
      by (simp add: str_def chr_def)
    then obtain p2 where p2: "peek s p1 '';'' = (True, p2)" "lexed s p2 ?semi"
      using peek_semi [OF c(2)] by auto
    obtain q e p3 where p3: "gettoken s p2 = (chr CHR '';'', q, e, p3)" "lexed s p3 (ys @ ts)"
      using gettoken_sym [OF p2(2)] by blast
    have "parses (\<lambda>n. parseline n s p3) s b ts"
      using L p3(2) fol unfolding line_lang_def by blast
    then have "parses (\<lambda>n. rbind (parseline n s p3) (\<lambda>(right, p). Ok (LIST c right, p))) s (Seq a b) ts"
      by (rule parses_rbind) (use c(1) in \<open>auto intro: parses_const\<close>)
    then show "parses (\<lambda>n. (\<lambda>(cmd, p). let (semi, p) = peek s p '';'' in
       if semi then let (_, _, _, p) = gettoken s p in rbind (parseline n s p) (\<lambda>(right, p). Ok (LIST cmd right, p))
       else Ok (cmd, p)) (c, p1)) s (Seq a b) ts"
      using p2(1) p3(1) by simp
  qed
  then show "parses (\<lambda>n. parseline n s p) s (Seq a b) ts"
    by (rule parses_Suc)
qed

lemma paren_False [simp]: "paren False ts = ts"
  by (simp add: paren_def)

lemmas lang_up = pipe_exec back_pipe line_back

text \<open>All levels of the grammar, by induction on the command.\<close>

lemma lexemes_lang:
  "proper a \<Longrightarrow> exec_lang (lexemes a 0) a \<and> pipe_lang (lexemes a 1) a \<and> back_lang (lexemes a 2) a \<and> line_lang (lexemes a 3) a"
proof (induction a)
  case (Exec ws)
  then have "exec_lang (map Word ws) (Exec ws)"
    by (simp add: exec_words)
  then show ?case
    by (simp add: lang_up)
next
  case (Redir a f r)
  then have "exec_lang (lexemes a 0 @ [Sym r, Word f]) (Redir a f r)"
    by (simp add: exec_redir)
  then show ?case
    by (simp add: lang_up)
next
  case (Pipe a b)
  then have "pipe_lang (lexemes a 0 @ [Sym (chr CHR ''|'')] @ lexemes b 1) (Pipe a b)"
    by (simp only: pipe_pipe proper.simps)
  then show ?case
    by (simp add: lang_up exec_block)
next
  case (Seq a b)
  then have "line_lang (lexemes a 2 @ [Sym (chr CHR '';'')] @ lexemes b 3) (Seq a b)"
    by (simp only: line_seq proper.simps)
  then show ?case
    by (simp add: lang_up exec_block)
next
  case (Back a)
  then have "back_lang (lexemes a 2 @ [Sym (chr CHR ''&'')]) (Back a)"
    by (simp only: back_back proper.simps)
  then show ?case
    by (simp add: lang_up exec_block)
qed

section \<open>Lexing text\<close>

fun lexeme_text :: "lexeme \<Rightarrow> u8 list" where
  "lexeme_text (Word w) = w"
| "lexeme_text (Sym c) = (if c = chr CHR ''+'' then str ''>>'' else [c])"

fun good_lexeme :: "lexeme \<Rightarrow> bool" where
  "good_lexeme (Word w) \<longleftrightarrow> word w"
| "good_lexeme (Sym c) \<longleftrightarrow> c \<in> set (str ''|();&<>+'')"

definition spaced :: "lexeme list \<Rightarrow> u8 list" where
  "spaced ts = concat (map (\<lambda>t. 32 # lexeme_text t) ts)"

lemma char_at_drop: "drop p s = t \<Longrightarrow> char_at s (p + i) = (if i < length t then t ! i else 0)"
  by (auto simp: char_at_def)

lemma skip_word_drop:
  "drop q s = w @ r \<Longrightarrow> \<forall>c \<in> set w. word_char c \<Longrightarrow> r = [] \<or> \<not> word_char (hd r) \<Longrightarrow> skip_word s q = q + length w"
proof (induction w arbitrary: q)
  case Nil
  then show ?case
    by (subst skip_word.simps) (auto simp: word_char_def hd_drop_conv_nth)
next
  case (Cons c w)
  have "q < length s"
    using Cons.prems(1) by (cases "q < length s") auto
  moreover from this have "s ! q = c" "drop (Suc q) s = w @ r"
    using Cons.prems(1) by (simp_all add: Cons_nth_drop_Suc [symmetric])
  ultimately show ?case
    using Cons.IH [of "Suc q"] Cons.prems(2,3) by (subst skip_word.simps) (simp add: word_char_def)
qed

lemma skip_white_drop:
  "drop p s = 32 # c # r \<Longrightarrow> \<not> is_white c \<Longrightarrow> skip_white s p = Suc p \<and> drop (Suc p) s = c # r"
proof -
  assume d: "drop p s = 32 # c # r" and c: "\<not> is_white c"
  then have "p < length s"
    by (cases "p < length s") auto
  then have p: "s ! p = 32" "drop (Suc p) s = c # r"
    using d by (simp_all add: Cons_nth_drop_Suc [symmetric])
  then have "Suc p < length s"
    by (cases "Suc p < length s") auto
  then have "s ! Suc p = c"
    using p(2) by (simp add: Cons_nth_drop_Suc [symmetric])
  moreover have "is_white 32"
    by code_simp
  ultimately show ?thesis
    using \<open>p < length s\<close> p c by (simp add: skip_white.simps [of s p] skip_white.simps [of s "Suc p"])
qed

lemma good_lexeme_first: "good_lexeme t \<Longrightarrow> \<exists>c r. lexeme_text t = c # r \<and> \<not> is_white c \<and> c \<noteq> 0"
proof (cases t)
  case (Word w)
  then show "good_lexeme t \<Longrightarrow> \<exists>c r. lexeme_text t = c # r \<and> \<not> is_white c \<and> c \<noteq> 0"
    by (cases w) (auto simp: word_def word_char_def)
next
  case (Sym c)
  have "\<forall>c \<in> set (str ''|();&<>+''). \<not> is_white c \<and> c \<noteq> 0" "\<not> is_white (chr CHR ''>'')" "chr CHR ''>'' \<noteq> 0"
    by code_simp+
  then show "good_lexeme t \<Longrightarrow> \<exists>c r. lexeme_text t = c # r \<and> \<not> is_white c \<and> c \<noteq> 0"
    using Sym by (auto simp: str_def)
qed

lemma gettoken_text:
  assumes d: "drop p s = 32 # lexeme_text t @ r" and good: "good_lexeme t" and r: "r = [] \<or> hd r = 32"
  shows "\<exists>tok. gettoken s p = (tok, Suc p, Suc p + length (lexeme_text t), skip_white s (Suc p + length (lexeme_text t))) \<and>
    tok \<noteq> 0 \<and> lexeme_of s tok (Suc p) (Suc p + length (lexeme_text t)) = t"
proof -
  obtain c l where c: "lexeme_text t = c # l" "\<not> is_white c" "c \<noteq> 0"
    using good_lexeme_first [OF good] by blast
  then have q: "skip_white s p = Suc p" "drop (Suc p) s = lexeme_text t @ r"
    using skip_white_drop [of p s c "l @ r"] d by auto
  have at: "char_at s (Suc p) = c" "char_at s (Suc (Suc p)) = (if l @ r = [] then 0 else hd (l @ r))"
    using char_at_drop [OF q(2), of 0] char_at_drop [OF q(2), of 1] c(1) by (auto simp: hd_conv_nth nth_append)
  show ?thesis
  proof (cases t)
    case (Word w)
    have "\<not> word_char 32"
      by code_simp
    then have "skip_word s (Suc p) = Suc p + length w"
      using q(2) Word good r by (intro skip_word_drop) (auto simp: word_def)
    moreover have "word_char c" "\<not> is_symbol c"
      using Word good c(1) by (auto simp: word_def word_char_def)
    moreover have "txt_of s (Suc p, Suc p + length w) = w"
      using q(2) Word by (simp add: txt_of_def)
    ultimately show ?thesis
      using Word q(1) at(1) c(3) unfolding symbol_cases
      by (auto simp: gettoken_def Let_def lexeme_of_def chr_def)
  next
    case (Sym d)
    have "chr CHR ''>'' \<noteq> 32"
      by code_simp
    then show ?thesis
      using Sym q(1) at c good r
      by (auto simp: gettoken_def Let_def lexeme_of_def chr_def str_def split: if_splits)
  qed
qed

lemma spaced_lexed:
  "drop p s = spaced ts \<Longrightarrow> p \<le> length s \<Longrightarrow> \<forall>t \<in> set ts. good_lexeme t \<Longrightarrow> lexed s p ts"
proof (induction ts arbitrary: p)
  case Nil
  then have "p = length s"
    by (simp add: spaced_def)
  then show ?case
    by (simp add: lexed_Nil skip_white.simps)
next
  case (Cons t ts)
  let ?e = "Suc p + length (lexeme_text t)"
  have d: "drop p s = 32 # lexeme_text t @ spaced ts"
    using Cons.prems(1) by (simp add: spaced_def)
  moreover have "spaced ts = [] \<or> hd (spaced ts) = 32"
    by (cases ts) (simp_all add: spaced_def)
  ultimately obtain tok where tok: "gettoken s p = (tok, Suc p, ?e, skip_white s ?e)" "tok \<noteq> 0"
    "lexeme_of s tok (Suc p) ?e = t"
    using gettoken_text [OF d] Cons.prems(3) by auto
  have "drop ?e s = drop (Suc (length (lexeme_text t))) (drop p s)"
    by (simp add: add.commute)
  then have "drop ?e s = spaced ts"
    using d by simp
  moreover have "?e \<le> length s"
    using arg_cong [OF d, of length] Cons.prems(2) by simp
  ultimately have "lexed s (skip_white s ?e) ts"
    using Cons.IH Cons.prems(3) by simp
  then show ?case
    using lexed_next [OF tok(1,2)] tok(3) by simp
qed

lemma lexemes_good: "proper a \<Longrightarrow> t \<in> set (lexemes a k) \<Longrightarrow> good_lexeme t"
  by (induction a arbitrary: k t) (auto simp: paren_def str_def redir_syms_def split: if_splits)

text \<open>The text of a command.\<close>

definition unparse :: "command \<Rightarrow> u8 list" where
  "unparse a = spaced (lexemes a 3)"

text \<open>
  Claim C28: The parser of the shell inverts the printer of its grammar: every command, however nested, whose words are words and
  whose argument lists fit, is returned by \<^verbatim>\<open>parsecmd\<close> from its text: with parentheses around a pipe, a background job or a list
  where an exec is expected, \<^verbatim>\<open>|\<close> binding tighter than \<^verbatim>\<open>&\<close>, and \<^verbatim>\<open>&\<close> tighter than \<^verbatim>\<open>;\<close>.
\<close>

theorem parsecmd_unparse:
  assumes "proper a"
  shows "\<exists>c m'. parsecmd base m (unparse a) = Ok (c, m') \<and> command_of (unparse a) c = a"
proof -
  let ?s = "unparse a"
  have "lexed ?s 0 (lexemes a 3)"
    using lexemes_good [OF assms] by (intro spaced_lexed) (auto simp: unparse_def)
  moreover have "line_lang (lexemes a 3) a"
    using lexemes_lang [OF assms] by blast
  ultimately have "parses (\<lambda>n. parseline n ?s 0) ?s a []"
    unfolding line_lang_def by (metis append_Nil2 follow_def)
  then obtain c p N where c: "\<And>n. N \<le> n \<Longrightarrow> parseline n ?s 0 = Ok (c, p)" "command_of ?s c = a" "lexed ?s p []"
    unfolding parses_def by blast
  have "parseline (parse_fuel ?s) ?s 0 = parseline (parse_fuel ?s + N) ?s 0"
    using parseline_more_fuel [OF parseline_returns] by simp
  then have "parseline (parse_fuel ?s) ?s 0 = Ok (c, p)"
    using c(1) by simp
  moreover have "skip_white ?s p = length ?s"
    using c(3) by (simp add: lexed_Nil)
  ultimately show ?thesis
    using c(2) by (simp add: parsecmd_def peek_def Let_def)
qed

theorem parsecmd_unparse_witness:
  "unparse (Seq (Back (Pipe (Exec [str ''ls'']) (Redir (Exec [str ''wc'', str ''-l'']) (str ''f'') (chr CHR ''+'')))) (Exec [str ''pwd''])) =
     str '' ls | wc -l >> f & ; pwd'' \<and>
   (\<exists>c m'. parsecmd 0 (\<lambda>_. 0) (str '' ls | wc -l >> f & ; pwd'') = Ok (c, m') \<and>
     command_of (str '' ls | wc -l >> f & ; pwd'') c =
       Seq (Back (Pipe (Exec [str ''ls'']) (Redir (Exec [str ''wc'', str ''-l'']) (str ''f'') (chr CHR ''+'')))) (Exec [str ''pwd'']))"
proof -
  let ?a = "Seq (Back (Pipe (Exec [str ''ls'']) (Redir (Exec [str ''wc'', str ''-l'']) (str ''f'') (chr CHR ''+'')))) (Exec [str ''pwd''])"
  have line: "unparse ?a = str '' ls | wc -l >> f & ; pwd''"
    by code_simp
  have "proper ?a"
    by code_simp
  then show ?thesis
    using parsecmd_unparse [of ?a 0 "\<lambda>_. 0"] unfolding line by blast
qed

end
