(* ===== verification/Spec2Isabelle.thy ===== *)
theory Spec2Isabelle
  imports Xv6_Vm_Theorems Xv6_Kill Xv6_Log_Crash Xv6_Pipe Xv6_Line_Editing Xv6_File_Refs
    Xv6_Grep Xv6_Shell_Grammar
begin

text \<open>
  \<^bold>\<open>xv6 for RISC-V, with its process monitor and schedulers.\<close>

  The program is a small Unix kernel (\<^verbatim>\<open>src/kernel\<close>) and its user programs (\<^verbatim>\<open>src/user\<close>). A trap enters the
  kernel through the trampoline; a system call takes its arguments from the saved registers and works on the
  process table, the file table and the user memory of the caller; files lie on inodes, which lie on a block
  cache and a write-ahead log; processes share the processors under one of three policies.

  \<^bold>\<open>Values and effects.\<close> C integers are words of their width, signed comparisons are \<open><s\<close> and \<open>\<le>s\<close>. Physical
  memory is a function from addresses to bytes; the kernel maps it one to one. A C function is a HOL function
  from its arguments and the state to \<open>Ok\<close> with its results, \<open>Panic\<close> with the message, or \<open>Stuck\<close> when it does
  not return (a lock it waits for is never released to a caller that runs alone, the machine is stopped, or
  the code accesses memory outside its objects). A function that switches to the scheduler is split at the
  switch. State is passed explicitly; the record of the kernel grows by extension: block cache, log, file
  system with the machine (processors, locks, processes, memory), open files with pipes and devices.

  \<^bold>\<open>Theories.\<close>
  \<^item> \<open>Xv6_Prelude\<close>: types, outcomes, constants of \<^verbatim>\<open>param.h\<close> and \<^verbatim>\<open>memlayout.h\<close>, page rounding.
  \<^item> \<open>Xv6_Mem\<close>: bytes and little-endian words in memory, \<^verbatim>\<open>string.c\<close>.
  \<^item> \<open>Xv6_Kalloc\<close>: \<^verbatim>\<open>kalloc.c\<close>; the interface \<open>resource_pool\<close>, met by the free list of pages.
  \<^item> \<open>Xv6_Vm\<close>, \<open>Xv6_Page_Tables\<close>, \<open>Xv6_Address_Space\<close>, \<open>Xv6_Uvm\<close>, \<open>Xv6_Copy\<close>, \<open>Xv6_Vm_Theorems\<close>: \<^verbatim>\<open>vm.c\<close>; what a page
    table means, how mapping and unmapping change it and where the pages go, copying to and from user space.
  \<^item> \<open>Xv6_Spinlock\<close>: \<^verbatim>\<open>spinlock.c\<close> and \<^verbatim>\<open>sleeplock.c\<close>; mutual exclusion for every interleaving
    of the single accesses to the lock.
  \<^item> \<open>Xv6_Proc\<close>, \<open>Xv6_Proc_Locks\<close>, \<open>Xv6_Sched\<close>, \<open>Xv6_Sched_System\<close>, \<open>Xv6_Kill\<close>: \<^verbatim>\<open>proc.c\<close>; what the scheduler chooses
    (interface \<open>selection\<close>, met by both policies that look for a best process), the invariant of all
    scheduling events of all processors (\<open>ksys\<close>: the machine, the position of each processor in the round robin loop,
    the processes inside \<^verbatim>\<open>exit\<close>), the fairness of round robin in every run of these events, waking and killing.
  \<^item> \<open>Xv6_Bio\<close>, \<open>Xv6_Log\<close>, \<open>Xv6_Log_Crash\<close>: \<^verbatim>\<open>bio.c\<close> and \<^verbatim>\<open>log.c\<close>; atomic commits under crashes.
  \<^item> \<open>Xv6_Fs\<close>, \<open>Xv6_File\<close>, \<open>Xv6_Exec\<close>, \<open>Xv6_Sysfile\<close>, \<open>Xv6_Fork\<close>, \<open>Xv6_Datetime\<close>, \<open>Xv6_Syscall\<close>, \<open>Xv6_Trap\<close>: \<^verbatim>\<open>fs.c\<close>, \<^verbatim>\<open>file.c\<close>,
    \<^verbatim>\<open>exec.c\<close>, the system calls with their dispatcher, and traps with the trampoline; dates against the Gregorian calendar.
  \<^item> \<open>Xv6_Frame\<close>, \<open>Xv6_File_Refs\<close>: what every function leaves alone (interface \<open>fs_client\<close>, met by the invariant of
    the file table), and the reference counts of open files across all system calls.
  \<^item> \<open>Xv6_Ring\<close>, \<open>Xv6_Blocking\<close>, \<open>Xv6_Pipe\<close>, \<open>Xv6_Console\<close>, \<open>Xv6_Console_Theorems\<close>, \<open>Xv6_Line_Editing\<close>: the interface \<open>ring\<close> for
    counters that wrap around a buffer, met by \<^verbatim>\<open>pipe.c\<close>, the transmit buffer of \<^verbatim>\<open>uart.c\<close> and the input buffer of
    \<^verbatim>\<open>console.c\<close>; pipes as queues, the serial driver, the console as a line editor.
  \<^item> \<open>Xv6_Printf\<close>: \<^verbatim>\<open>printf.c\<close> with the bounds of its buffer.
  \<^item> \<open>Xv6_User_Lib\<close>: \<^verbatim>\<open>user/ulib.c\<close>, \<^verbatim>\<open>user/printf.c\<close> and the random numbers of \<^verbatim>\<open>user/grind.c\<close>; numbers read back as they
    were printed, both \<^verbatim>\<open>memmove\<close> functions as the simultaneous copy.
  \<^item> \<open>Xv6_Grep\<close>: \<^verbatim>\<open>user/grep.c\<close>; the matcher against the language of the pattern, the lines that are printed.
  \<^item> \<open>Xv6_Shell\<close>, \<open>Xv6_Shell_Grammar\<close>: the parser of \<^verbatim>\<open>user/sh.c\<close>; it ends on every line, its trees are well formed, and it
    inverts the printer of its grammar.

  \<^bold>\<open>Bounds.\<close> Loops are recursions with a measure or over the number of rounds that remain. A loop that can run
  for ever in the code (a spin on a lock, on the transmitter, a page counter that wraps) is \<open>Stuck\<close> there. The
  shell's parser takes fuel; four calls for each byte of the line and four more are proved to be enough.

  \<^bold>\<open>Not modelled.\<close> Interleavings of processors exist for the spin lock, and those of processes for scheduling
  events and pipes; other theorems are about a call that runs alone, where the spin locks of the file system's
  tables have no effect. A scheduling event is a call as a whole. The disk is an array of blocks with atomic block
  requests, so the disk interrupt has no effect, and the interrupt controller has no state. The messages of \<^verbatim>\<open>balloc\<close> and
  \<^verbatim>\<open>ialloc\<close> on a full disk are not printed, as the state of the file system has no console. Register accessors of
  \<^verbatim>\<open>riscv.h\<close>, prototypes and link scripts have no content of their own. The test programs are workloads.
\<close>

end
